(* ===== verification/Beryllium_Prelude.thy ===== *)
theory Beryllium_Prelude
  imports Main "HOL-Library.Word" "HOL-Library.Monad_Syntax"
begin

text \<open>
  Shared vocabulary of the development: the machine types of \<^verbatim>\<open>src/kernel/includes/types.h\<close>,
  the wrap-around of \<^verbatim>\<open>uint32_t\<close>/\<^verbatim>\<open>size_t\<close> arithmetic on \<^typ>\<open>nat\<close>, the reading of an
  optional result, and the generic lemmas on doubly linked chains and on loops over an
  index range that several components use.

  Conventions used by every theory:
  \<^item> a pointer is an address of type \<^typ>\<open>nat\<close>, and the null pointer is \<open>0\<close>. Arithmetic on
    a pointer that leaves its object is undefined in C, so pointer sums are plain sums;
  \<^item> a C call that returns gives \<open>Some\<close>; \<open>None\<close> stands for a call that never returns to its
    caller (a wild or null dereference, a halted processor, or an endless loop);
  \<^item> a \<^verbatim>\<open>size_t\<close> or \<^verbatim>\<open>uint32_t\<close> computation whose wrap-around matters is either a
    \<open>32 word\<close> or a \<^typ>\<open>nat\<close> expression under \<open>w32\<close>.
\<close>

section \<open>Machine types\<close>

type_synonym u8 = "8 word"
type_synonym u16 = "16 word"
type_synonym u32 = "32 word"
type_synonym addr = nat

abbreviation (input) NULL :: addr where
  "NULL \<equiv> 0"

definition w32 :: "nat \<Rightarrow> nat" where
  "w32 n = n mod 4294967296"

named_theorems w32_simps \<open>removal of the 32 bit wrap-around when the value is in range\<close>
named_theorems heap_simps \<open>reading a heap after an update\<close>

lemma w32_less [simp]: "w32 n < 4294967296"
  by (simp add: w32_def)

lemma w32_id [w32_simps]: "n < 4294967296 \<Longrightarrow> w32 n = n"
  by (simp add: w32_def)

lemma w32_le: "w32 n \<le> n"
  by (simp add: w32_def)

lemma w32_w32 [simp]: "w32 (w32 n) = w32 n"
  by (simp add: w32_def)

text \<open>Unsigned subtraction \<open>a - b\<close> on 32 bit values held as naturals.\<close>

definition sub32 :: "nat \<Rightarrow> nat \<Rightarrow> nat" where
  "sub32 a b = w32 (a + (4294967296 - b mod 4294967296))"

lemma sub32_ge [w32_simps]: "b \<le> a \<Longrightarrow> a < 4294967296 \<Longrightarrow> sub32 a b = a - b"
proof -
  assume le: "b \<le> a" and lt: "a < 4294967296"
  then have "a + (4294967296 - b mod 4294967296) = (a - b) + 4294967296"
    by simp
  then have "sub32 a b = ((a - b) + 4294967296) mod 4294967296"
    by (simp only: sub32_def w32_def)
  also have "\<dots> = a - b" using lt by (subst mod_add_self2) simp
  finally show ?thesis .
qed

lemma sub32_0_1 [w32_simps]: "sub32 0 1 = 4294967295"
  by (simp add: sub32_def w32_def)

section \<open>Loops over an index range\<close>

text \<open>
  \<^verbatim>\<open>for (i = 0; i < n; i++) body\<close> is \<open>fold body [0..<n]\<close>; the last iteration comes off at
  the right end.
\<close>

lemma fold_upt_Suc [simp]: "fold f [0..<Suc n] s = f n (fold f [0..<n] s)"
  by simp

text \<open>The rule for such a loop: an invariant indexed by the number of iterations done.\<close>

lemma fold_upt_invariant:
  assumes "P 0 s" and "\<And>i t. i < n \<Longrightarrow> P i t \<Longrightarrow> P (Suc i) (f i t)"
  shows "P n (fold f [0..<n] s)"
  using assms by (induction n) auto

lemma set_tlD: "x \<in> set (tl xs) \<Longrightarrow> x \<in> set xs"
  by (cases xs) auto

lemma find_SomeE:
  assumes "find P xs = Some x"
  obtains ys zs where "xs = ys @ x # zs" and "P x" and "\<forall>y \<in> set ys. \<not> P y"
proof -
  have "\<exists>ys zs. xs = ys @ x # zs \<and> P x \<and> (\<forall>y \<in> set ys. \<not> P y)"
    using assms
  proof (induction xs)
    case (Cons a xs)
    show ?case
    proof (cases "P a")
      case True
      then show ?thesis using Cons.prems by (intro exI [of _ "[]"] exI [of _ xs]) simp
    next
      case False
      then obtain ys zs where "xs = ys @ x # zs" "P x" "\<forall>y \<in> set ys. \<not> P y"
        using Cons by auto
      then show ?thesis using False by (intro exI [of _ "a # ys"] exI [of _ zs]) simp
    qed
  qed simp
  then show ?thesis using that by blast
qed

lemma distinct_outside:
  assumes "distinct (as @ p # m @ n # bs)" and "q \<in> set as \<union> set bs"
  shows "q \<noteq> p \<and> q \<noteq> n \<and> q \<notin> set m"
  using assms by auto

section \<open>Repeated calls\<close>

text \<open>\<open>times n f\<close> calls \<open>f\<close> on its own result \<open>n\<close> times; a call that does not return ends it.\<close>

primrec times :: "nat \<Rightarrow> ('s \<Rightarrow> 's option) \<Rightarrow> 's \<Rightarrow> 's option" where
  "times 0 f s = Some s"
| "times (Suc n) f s = Option.bind (f s) (times n f)"

lemma times_add: "times (m + n) f s = Option.bind (times m f s) (times n f)"
proof (induction m arbitrary: s)
  case (Suc m)
  then show ?case by (cases "f s") simp_all
qed simp

lemma times_Suc_right: "times (Suc n) f s = Option.bind (times n f s) f"
proof -
  have one: "times (Suc 0) f = f" by (rule ext) (simp add: bind_eq_None_conv split: Option.bind_split)
  have "times (n + Suc 0) f s = Option.bind (times n f s) f" unfolding times_add one ..
  then show ?thesis by simp
qed

lemma times_invariant:
  assumes "P 0 s" and "\<And>i t. i < n \<Longrightarrow> P i t \<Longrightarrow> \<exists>t'. f t = Some t' \<and> P (Suc i) t'"
  shows "\<exists>t. times n f s = Some t \<and> P n t"
  using assms(2)
proof (induction n)
  case 0
  then show ?case using assms(1) by simp
next
  case (Suc n)
  then obtain t where t: "times n f s = Some t" "P n t" by (metis less_SucI)
  with Suc.prems [of n t] show ?case by (auto simp: times_Suc_right simp del: times.simps)
qed

text \<open>A loop body that may not return, run over a list of indices.\<close>

primrec foldM :: "('a \<Rightarrow> 's \<Rightarrow> 's option) \<Rightarrow> 'a list \<Rightarrow> 's \<Rightarrow> 's option" where
  "foldM f [] s = Some s"
| "foldM f (x # xs) s = Option.bind (f x s) (foldM f xs)"

lemma foldM_append: "foldM f (xs @ ys) s = Option.bind (foldM f xs s) (foldM f ys)"
proof (induction xs arbitrary: s)
  case (Cons x xs)
  then show ?case by (cases "f x s") simp_all
qed simp

lemma foldM_idle: "(\<And>x. x \<in> set xs \<Longrightarrow> f x s = Some s) \<Longrightarrow> foldM f xs s = Some s"
  by (induction xs) auto

lemma foldM_invariant:
  assumes "foldM f xs s = Some t" and "P s"
    and "\<And>x u v. x \<in> set xs \<Longrightarrow> P u \<Longrightarrow> f x u = Some v \<Longrightarrow> P v"
  shows "P t"
  using assms
proof (induction xs arbitrary: s)
  case (Cons x xs)
  then obtain u where u: "f x s = Some u" "foldM f xs u = Some t"
    by (cases "f x s") auto
  have pu: "P u" using Cons.prems(3) [of x s u] Cons.prems(2) u(1) by simp
  show ?case by (rule Cons.IH [OF u(2) pu]) (meson Cons.prems(3) list.set_intros(2))
qed simp

section \<open>Signed comparison of small words\<close>

lemma sint_of_small_nat: "n < 2147483648 \<Longrightarrow> sint (of_nat n :: u32) = int n"
  using sint_sbintrunc' [of "int n", where 'a = 32] by (simp add: signed_take_bit_int_eq_self)

lemma sint_of_big_nat:
  assumes "2147483648 \<le> n" and "n < 4294967296"
  shows "sint (of_nat n :: u32) = int n - 4294967296"
proof -
  have "(of_nat n :: u32) = of_int (int n - 4294967296)" by simp
  then have "sint (of_nat n :: u32) = signed_take_bit 31 (int n - 4294967296)"
    using sint_sbintrunc' [of "int n - 4294967296", where 'a = 32] by (simp only:) simp
  then show ?thesis using assms by (simp add: signed_take_bit_int_eq_self)
qed

lemma sless_of_small_nat:
  "m < 2147483648 \<Longrightarrow> n < 2147483648 \<Longrightarrow> (of_nat m :: u32) <s of_nat n \<longleftrightarrow> m < n"
  by (simp add: word_sless_alt sint_of_small_nat)

lemma of_nat_u32_eq:
  assumes "m < 4294967296" and "n < 4294967296"
  shows "(of_nat m :: u32) = of_nat n \<longleftrightarrow> m = n"
proof
  assume "(of_nat m :: u32) = of_nat n"
  then have "unat (of_nat m :: u32) = unat (of_nat n :: u32)" by simp
  with assms show "m = n" by (simp add: unat_of_nat)
qed simp

lemma of_nat_u32_eq_0: "m < 4294967296 \<Longrightarrow> (of_nat m :: u32) = 0 \<longleftrightarrow> m = 0"
  using of_nat_u32_eq [of m 0] by simp

section \<open>Singly linked chains\<close>

text \<open>
  \<open>chain nxt nodes p xs\<close>: from the address \<open>p\<close> the successor field \<open>nxt\<close> of the nodes leads through the
  addresses \<open>xs\<close> to the null pointer.
\<close>

fun chain :: "('n \<Rightarrow> addr) \<Rightarrow> (addr \<rightharpoonup> 'n) \<Rightarrow> addr \<Rightarrow> addr list \<Rightarrow> bool" where
  "chain nxt nodes p [] = (p = NULL)"
| "chain nxt nodes p (x # xs) =
     (p = x \<and> x \<noteq> NULL \<and> (case nodes x of None \<Rightarrow> False | Some n \<Rightarrow> chain nxt nodes (nxt n) xs))"

lemma chain_nth:
  assumes "chain nxt nodes p xs" and "i < length xs"
  shows "\<exists>n. nodes (xs ! i) = Some n \<and> xs ! i \<noteq> NULL \<and>
    nxt n = (if Suc i < length xs then xs ! Suc i else NULL)"
  using assms
proof (induction nxt nodes p xs arbitrary: i rule: chain.induct)
  case (2 nxt nodes p x xs)
  then obtain n where n: "nodes x = Some n" "chain nxt nodes (nxt n) xs" by (auto split: option.splits)
  show ?case
  proof (cases i)
    case 0
    with 2 n show ?thesis by (cases xs) (auto split: option.splits)
  next
    case (Suc j)
    with 2(1) [OF n, of j] 2(3) show ?thesis by (auto split: if_splits)
  qed
qed simp

lemma chain_hd: "chain nxt nodes p xs \<Longrightarrow> xs \<noteq> [] \<Longrightarrow> p = xs ! 0"
  by (cases xs) auto

lemma chain_last:
  assumes "chain nxt nodes p xs" and "xs \<noteq> []"
  shows "\<exists>n. nodes (last xs) = Some n \<and> nxt n = NULL"
  using chain_nth [OF assms(1), of "length xs - 1"] assms(2) by (auto simp: last_conv_nth)

lemma chain_dom: "chain nxt nodes p xs \<Longrightarrow> x \<in> set xs \<Longrightarrow> nodes x \<noteq> None \<and> x \<noteq> NULL"
  by (induction nxt nodes p xs rule: chain.induct) (auto split: option.splits)

lemma chain_cong:
  assumes "chain nxt nodes p xs" and "\<And>x. x \<in> set xs \<Longrightarrow> map_option nxt (nodes' x) = map_option nxt (nodes x)"
  shows "chain nxt nodes' p xs"
  using assms
proof (induction nxt nodes p xs rule: chain.induct)
  case (2 nxt nodes p x xs)
  then obtain n where n: "nodes x = Some n" "chain nxt nodes (nxt n) xs" by (auto split: option.splits)
  moreover obtain n' where "nodes' x = Some n'" "nxt n' = nxt n" using 2(3) [of x] n(1) by auto
  ultimately show ?case using 2 by auto
qed simp

lemma not_last_butlast: "distinct xs \<Longrightarrow> xs \<noteq> [] \<Longrightarrow> last xs \<notin> set (butlast xs)"
  by (induction xs rule: rev_induct) auto

text \<open>Linking a fresh node behind the last one.\<close>

lemma chain_append:
  assumes "chain nxt nodes p xs" and "xs \<noteq> []" and "distinct xs" and "a \<notin> set xs" and "a \<noteq> NULL"
    and "nodes' (last xs) = Some n" and "nxt n = a" and "nodes' a = Some e" and "nxt e = NULL"
    and "\<And>x. x \<in> set (butlast xs) \<Longrightarrow> map_option nxt (nodes' x) = map_option nxt (nodes x)"
  shows "chain nxt nodes' p (xs @ [a])"
  using assms
proof (induction nxt nodes p xs rule: chain.induct)
  case (2 nxt nodes p x xs)
  show ?case
  proof (cases xs)
    case Nil
    with 2 show ?thesis by auto
  next
    case (Cons y ys)
    obtain m where m: "nodes x = Some m" "chain nxt nodes (nxt m) xs" using 2(2) by (auto split: option.splits)
    obtain m' where m': "nodes' x = Some m'" "nxt m' = nxt m" using 2(11) [of x] m(1) Cons by auto
    have "chain nxt nodes' (nxt m) (xs @ [a])" using 2(1) [OF m] 2(3-) Cons by auto
    with m' 2(2) show ?thesis by (auto simp: m(1))
  qed
qed simp

section \<open>Doubly linked chains\<close>

text \<open>
  \<open>linked n p xs\<close>: the cells of \<open>xs\<close> are joined by their successor pointers \<open>n\<close> and, in the
  other direction, by their predecessor pointers \<open>p\<close>.
\<close>

fun linked :: "('p \<Rightarrow> 'p) \<Rightarrow> ('p \<Rightarrow> 'p) \<Rightarrow> 'p list \<Rightarrow> bool" where
  "linked n p [] = True"
| "linked n p [x] = True"
| "linked n p (x # y # zs) = (n x = y \<and> p y = x \<and> linked n p (y # zs))"

lemma linked_append:
  "linked n p (xs @ ys) \<longleftrightarrow>
     linked n p xs \<and> linked n p ys \<and>
     (xs \<noteq> [] \<longrightarrow> ys \<noteq> [] \<longrightarrow> n (last xs) = hd ys \<and> p (hd ys) = last xs)"
proof (induction n p xs rule: linked.induct)
  case (2 n p x)
  then show ?case by (cases ys) auto
qed auto

lemma linked_appendD1: "linked n p (xs @ ys) \<Longrightarrow> linked n p xs"
  and linked_appendD2: "linked n p (xs @ ys) \<Longrightarrow> linked n p ys"
  by (simp_all add: linked_append)

lemma linked_overlap:
  assumes "linked n p (xs @ [x])" and "linked n p (x # ys)"
  shows "linked n p (xs @ x # ys)"
  using assms by (auto simp: linked_append)

lemma linked_cong:
  assumes "linked n p xs"
    and "\<And>x. x \<in> set (butlast xs) \<Longrightarrow> n' x = n x"
    and "\<And>x. x \<in> set (tl xs) \<Longrightarrow> p' x = p x"
  shows "linked n' p' xs"
  using assms
proof (induction n p xs rule: linked.induct)
  case (3 n p x y zs)
  then show ?case by (cases zs) auto
qed auto

lemma linked_mono:
  assumes "linked n p xs" and "\<And>x. x \<in> set xs \<Longrightarrow> n' x = n x \<and> p' x = p x"
  shows "linked n' p' xs"
  using assms by (induction n p xs rule: linked.induct) auto

end
