(* ===== verification/Scheduler.thy ===== *)
theory Scheduler
  imports Beryllium_Prelude
begin

text \<open>
  Threads and the scheduler's run queue: \<^verbatim>\<open>src/kernel/thread.c\<close> and \<^verbatim>\<open>src/kernel/scheduler.c\<close>. The
  queue is a singly linked list of \<open>tlist\<close> nodes reached from \<open>tqueue\<close>; \<open>qnodes\<close> is the memory these
  nodes live in, and reading an address that holds no node is a wild dereference. A function that
  allocates takes the address \<^verbatim>\<open>malloc\<close> returned as its first argument. The log messages are not
  part of the state, and \<^verbatim>\<open>thread_switch\<close> is only named in a comment of the source.
\<close>

record thread =
  t_esp :: u32
  t_ebp :: u32
  t_ebx :: u32
  t_esi :: u32
  t_edi :: u32
  t_eflags :: u32
  t_tid :: u32
  t_level :: u8
  t_owner_pid :: u32
  t_stack :: addr
  t_stack_ptr :: addr
  t_status :: u32

record tlist =
  tl_next :: addr
  tl_thread :: addr

record sched =
  qnodes :: "addr \<rightharpoonup> tlist"
  tqueue :: addr
  tcurrent :: addr
  scheduler_state :: bool
  threads :: "addr \<rightharpoonup> thread"
  thread_id :: u32
  current_thread :: addr

section \<open>The run queue\<close>

definition scheduler_update :: "'a sched_scheme \<Rightarrow> 'a sched_scheme option" where
  "scheduler_update s =
     (if \<not> scheduler_state s then Some s
      else do {
        cur \<leftarrow> qnodes s (tcurrent s);
        let c = (if tl_next cur = NULL then tqueue s else tl_next cur);
        node \<leftarrow> qnodes s c;
        Some (s\<lparr>tcurrent := c\<rparr>)
      })"

text \<open>The loop that looks for the last node; it has no end on a cyclic list.\<close>

partial_function (option) queue_end :: "(addr \<rightharpoonup> tlist) \<Rightarrow> addr \<Rightarrow> addr option" where
  "queue_end nodes test =
     (case nodes test of
        None \<Rightarrow> None
      | Some n \<Rightarrow> (if tl_next n \<noteq> NULL then queue_end nodes (tl_next n) else Some test))"

definition scheduler_add_thread :: "addr \<Rightarrow> addr \<Rightarrow> 'a sched_scheme \<Rightarrow> 'a sched_scheme option" where
  "scheduler_add_thread a thread s = do {
     let nodes = (qnodes s)(a \<mapsto> \<lparr>tl_next = NULL, tl_thread = thread\<rparr>);
     test \<leftarrow> queue_end nodes (tqueue s);
     n \<leftarrow> nodes test;
     Some (s\<lparr>qnodes := nodes(test \<mapsto> n\<lparr>tl_next := a\<rparr>), scheduler_state := True\<rparr>)
   }"

text \<open>\<^verbatim>\<open>scheduler_init\<close> up to the registration of its timer, which the timer theory adds.\<close>

definition scheduler_start :: "addr \<Rightarrow> addr \<Rightarrow> 'a sched_scheme \<Rightarrow> 'a sched_scheme" where
  "scheduler_start a first_thread s =
     s\<lparr>qnodes := (qnodes s)(a \<mapsto> \<lparr>tl_next = NULL, tl_thread = first_thread\<rparr>), tqueue := a, tcurrent := a\<rparr>"

section \<open>Threads\<close>

text \<open>
  \<^verbatim>\<open>thread_create\<close> lays out the initial stack: the words are pushed downwards from the stack base
  plus \<^verbatim>\<open>0x500\<close> elements of four bytes. The writes are returned as a list of address and value.
  \<open>exit_addr\<close> is the address of \<^verbatim>\<open>thread_exit\<close>.
\<close>

definition zeroed_thread :: thread where
  "zeroed_thread = \<lparr>t_esp = 0, t_ebp = 0, t_ebx = 0, t_esi = 0, t_edi = 0, t_eflags = 0, t_tid = 0,
     t_level = 0, t_owner_pid = 0, t_stack = NULL, t_stack_ptr = NULL, t_status = 0\<rparr>"

definition stack_frame :: "u32 \<Rightarrow> addr \<Rightarrow> u32 \<Rightarrow> (addr \<times> u32) list" where
  "stack_frame exit_addr stack fn =
     (let stack_ptr = stack + 4 * 0x500
      in [(stack_ptr - 4, exit_addr), (stack_ptr - 8, fn), (stack_ptr - 12, 0)])"

definition thread_create ::
  "addr \<Rightarrow> addr \<Rightarrow> u32 \<Rightarrow> u8 \<Rightarrow> u32 \<Rightarrow> u32 \<Rightarrow> 'a sched_scheme \<Rightarrow> 'a sched_scheme \<times> (addr \<times> u32) list" where
  "thread_create thread stack exit_addr level pid fn s =
     (let pushed = stack_frame exit_addr stack fn;
          stack_ptr = of_nat (stack + 4 * 0x500 - 12);
          t = zeroed_thread\<lparr>t_tid := thread_id s, t_level := level, t_owner_pid := pid, t_stack := stack,
                t_ebp := stack_ptr, t_esp := stack_ptr, t_eflags := 0x200\<rparr>
      in (s\<lparr>threads := (threads s)(thread \<mapsto> t), thread_id := thread_id s + 1\<rparr>, pushed))"

text \<open>
  \<^verbatim>\<open>threading_start\<close> leaves all fields but the identifier as \<^verbatim>\<open>malloc\<close> gave them (\<open>junk\<close>).
\<close>

definition threading_start :: "addr \<Rightarrow> thread \<Rightarrow> 'a sched_scheme \<Rightarrow> 'a sched_scheme" where
  "threading_start thread junk s =
     s\<lparr>threads := (threads s)(thread \<mapsto> junk\<lparr>t_tid := thread_id s\<rparr>), thread_id := thread_id s + 1,
       current_thread := thread\<rparr>"

text \<open>\<^verbatim>\<open>thread_exit\<close> updates the scheduler once and then spins.\<close>

partial_function (option) spin :: "'s \<Rightarrow> 's option" where
  "spin s = spin s"

definition thread_exit :: "'a sched_scheme \<Rightarrow> 'a sched_scheme option" where
  "thread_exit s = Option.bind (scheduler_update s) spin"

section \<open>The queue as a list\<close>

abbreviation tpath :: "(addr \<rightharpoonup> tlist) \<Rightarrow> addr \<Rightarrow> addr list \<Rightarrow> bool" where
  "tpath \<equiv> chain tl_next"

definition sched_ok :: "'a sched_scheme \<Rightarrow> addr list \<Rightarrow> bool" where
  "sched_ok s xs \<longleftrightarrow> xs \<noteq> [] \<and> distinct xs \<and> tpath (qnodes s) (tqueue s) xs \<and> tcurrent s \<in> set xs"

lemma queue_end_last:
  assumes "tpath nodes p xs" and "xs \<noteq> []"
  shows "queue_end nodes p = Some (last xs)"
  using assms
proof (induction xs arbitrary: p)
  case (Cons x xs)
  then obtain n where n: "nodes x = Some n" "tpath nodes (tl_next n) xs" "p = x"
    by (auto split: option.splits)
  show ?case
  proof (cases xs)
    case Nil
    with n show ?thesis by (subst queue_end.simps) simp
  next
    case ys: (Cons y ys)
    with n(2) have "tl_next n \<noteq> NULL" by simp
    with Cons.IH [OF n(2)] n ys show ?thesis by (subst queue_end.simps) simp
  qed
qed simp

lemma scheduler_update_step:
  assumes "sched_ok s xs" and "scheduler_state s" and "i < length xs" and "tcurrent s = xs ! i"
  shows "scheduler_update s = Some (s\<lparr>tcurrent := xs ! (Suc i mod length xs)\<rparr>)"
proof -
  have p: "tpath (qnodes s) (tqueue s) xs" and ne: "xs \<noteq> []" using assms(1) by (auto simp: sched_ok_def)
  obtain n where n: "qnodes s (xs ! i) = Some n" "tl_next n = (if Suc i < length xs then xs ! Suc i else NULL)"
    using chain_nth [OF p assms(3)] by auto
  have j: "Suc i mod length xs < length xs" using ne by simp
  obtain m where m: "qnodes s (xs ! (Suc i mod length xs)) = Some m" "xs ! (Suc i mod length xs) \<noteq> NULL"
    using chain_nth [OF p j] by auto
  have "(if tl_next n = NULL then tqueue s else tl_next n) = xs ! (Suc i mod length xs)"
  proof (cases "Suc i < length xs")
    case True
    with n m show ?thesis by auto
  next
    case False
    with assms(3) have "Suc i = length xs" by simp
    with n chain_hd [OF p ne] show ?thesis by simp
  qed
  with n m assms show ?thesis by (simp add: scheduler_update_def)
qed

section \<open>The round robin contract\<close>

text \<open>
  What the timer relies on: every call moves on to the next entry of a fixed list and comes back
  to the first one after the last.
\<close>

locale round_robin =
  fixes queue :: "'s \<Rightarrow> 'e list \<Rightarrow> bool" and current :: "'s \<Rightarrow> 'e" and step :: "'s \<Rightarrow> 's option"
  assumes current_in: "queue s xs \<Longrightarrow> \<exists>i < length xs. current s = xs ! i"
    and step_next: "queue s xs \<Longrightarrow> i < length xs \<Longrightarrow> current s = xs ! i \<Longrightarrow>
      \<exists>s'. step s = Some s' \<and> queue s' xs \<and> current s' = xs ! (Suc i mod length xs)"
begin

lemma run:
  assumes "queue s xs" and "i < length xs" and "current s = xs ! i"
  shows "\<exists>s'. times n step s = Some s' \<and> queue s' xs \<and> current s' = xs ! ((i + n) mod length xs)"
proof -
  have "\<exists>s'. times n step s = Some s' \<and> (queue s' xs \<and> current s' = xs ! ((i + n) mod length xs))"
  proof (rule times_invariant [where P = "\<lambda>k t. queue t xs \<and> current t = xs ! ((i + k) mod length xs)"])
    show "queue s xs \<and> current s = xs ! ((i + 0) mod length xs)" using assms by simp
  next
    fix k t
    assume t: "queue t xs \<and> current t = xs ! ((i + k) mod length xs)"
    have "(i + k) mod length xs < length xs" using assms(2) by (intro mod_less_divisor) auto
    from step_next [OF conjunct1 [OF t] this conjunct2 [OF t]]
    show "\<exists>t'. step t = Some t' \<and> queue t' xs \<and> current t' = xs ! ((i + Suc k) mod length xs)"
      by (simp add: mod_Suc_eq)
  qed
  then show ?thesis by simp
qed

lemma every_entry_runs:
  assumes "queue s xs" and "e \<in> set xs"
  shows "\<exists>n < length xs. \<exists>s'. times n step s = Some s' \<and> current s' = e"
proof -
  obtain i where i: "i < length xs" "current s = xs ! i" using current_in [OF assms(1)] by blast
  obtain j where j: "j < length xs" "e = xs ! j" using assms(2) by (auto simp: in_set_conv_nth)
  let ?n = "(j + length xs - i) mod length xs"
  have "(i + ?n) mod length xs = j" using i j by (simp add: mod_add_right_eq)
  moreover have "?n < length xs" using i(1) by (intro mod_less_divisor) auto
  ultimately show ?thesis using run [OF assms(1) i, of ?n] j by auto
qed

end

interpretation sched: round_robin "\<lambda>s xs. sched_ok s xs \<and> scheduler_state s" tcurrent scheduler_update
proof
  fix s :: "'a sched_scheme" and xs
  assume "sched_ok s xs \<and> scheduler_state s"
  then show "\<exists>i < length xs. tcurrent s = xs ! i" by (auto simp: sched_ok_def in_set_conv_nth)
next
  fix s :: "'a sched_scheme" and xs i
  assume ok: "sched_ok s xs \<and> scheduler_state s" and i: "i < length xs" "tcurrent s = xs ! i"
  have "sched_ok (s\<lparr>tcurrent := xs ! (Suc i mod length xs)\<rparr>) xs"
    using ok i by (auto simp: sched_ok_def intro!: nth_mem)
  then show "\<exists>s'. scheduler_update s = Some s' \<and> (sched_ok s' xs \<and> scheduler_state s') \<and>
      tcurrent s' = xs ! (Suc i mod length xs)"
    using scheduler_update_step [OF _ _ i] ok by auto
qed

lemma scheduler_add_thread_ok:
  assumes "sched_ok s xs" and "a \<noteq> NULL" and "qnodes s a = None"
  shows "\<exists>s'. scheduler_add_thread a th s = Some s' \<and> sched_ok s' (xs @ [a]) \<and> scheduler_state s' \<and>
    tcurrent s' = tcurrent s \<and> map_option tl_thread (qnodes s' a) = Some th"
proof -
  have p: "tpath (qnodes s) (tqueue s) xs" and ne: "xs \<noteq> []" and d: "distinct xs" and c: "tcurrent s \<in> set xs"
    using assms(1) by (auto simp: sched_ok_def)
  have nin: "a \<notin> set xs"
  proof
    assume "a \<in> set xs"
    then obtain i where "i < length xs" "xs ! i = a" by (auto simp: in_set_conv_nth)
    with chain_nth [OF p, of i] assms(3) show False by auto
  qed
  let ?nodes = "(qnodes s)(a \<mapsto> \<lparr>tl_next = NULL, tl_thread = th\<rparr>)"
  have p': "tpath ?nodes (tqueue s) xs" using nin by (intro chain_cong [OF p]) auto
  obtain n where n: "?nodes (last xs) = Some n"
    using chain_nth [OF p', of "length xs - 1"] ne by (auto simp: last_conv_nth)
  have "scheduler_add_thread a th s =
      Some (s\<lparr>qnodes := ?nodes(last xs \<mapsto> n\<lparr>tl_next := a\<rparr>), scheduler_state := True\<rparr>)"
    unfolding scheduler_add_thread_def Let_def queue_end_last [OF p' ne] using n by simp
  moreover have "tpath (?nodes(last xs \<mapsto> n\<lparr>tl_next := a\<rparr>)) (tqueue s) (xs @ [a])"
  proof -
    have "last xs \<noteq> a" "last xs \<notin> set (butlast xs)" using nin ne d not_last_butlast by auto
    then show ?thesis using nin ne d assms(2) n
      by (intro chain_append [OF p', where n = "n\<lparr>tl_next := a\<rparr>" and e = "\<lparr>tl_next = NULL, tl_thread = th\<rparr>"]) auto
  qed
  moreover have "a \<noteq> last xs" using nin ne by auto
  ultimately show ?thesis using nin d c by (auto simp: sched_ok_def)
qed

section \<open>Properties\<close>

text \<open>
  Property C18. Adding a thread appends its node at the end of the run queue and starts the
  scheduler; from then on \<^verbatim>\<open>scheduler_update\<close> goes round the queue in order and reaches every thread,
  the new one included, within one round.
\<close>

theorem scheduler_round_robin:
  assumes "sched_ok s xs" and "a \<noteq> NULL" and "qnodes s a = None"
  shows "\<exists>s'. scheduler_add_thread a th s = Some s' \<and> sched_ok s' (xs @ [a]) \<and>
    (\<forall>e \<in> set (xs @ [a]). \<exists>n \<le> length xs. \<exists>t. times n scheduler_update s' = Some t \<and> tcurrent t = e)"
proof -
  obtain s' where s': "scheduler_add_thread a th s = Some s'" "sched_ok s' (xs @ [a]) \<and> scheduler_state s'"
    using scheduler_add_thread_ok [OF assms] by blast
  have "\<exists>n \<le> length xs. \<exists>t. times n scheduler_update s' = Some t \<and> tcurrent t = e" if "e \<in> set (xs @ [a])" for e
    using sched.every_entry_runs [OF s'(2) that] by (auto simp: less_Suc_eq_le)
  with s' show ?thesis by blast
qed

theorem scheduler_round_robin_witness:
  "\<exists>s'. scheduler_add_thread 8 90
      (scheduler_start 4 80 \<lparr>qnodes = Map.empty, tqueue = 0, tcurrent = 0, scheduler_state = False,
         threads = Map.empty, thread_id = 0, current_thread = 0\<rparr>) = Some s' \<and> sched_ok s' [4, 8]"
  using scheduler_round_robin [of "scheduler_start 4 80 \<lparr>qnodes = Map.empty, tqueue = 0, tcurrent = 0,
    scheduler_state = False, threads = Map.empty, thread_id = 0, current_thread = 0\<rparr>" "[4]" 8 90]
  by (auto simp: sched_ok_def scheduler_start_def)

text \<open>
  The initial stack of a thread lies outside the block allocated for it: the pointer
  arithmetic counts words, and each of the words pushed is at least a thousand bytes behind the
  end of the 4096 byte block.
\<close>

theorem thread_create_stack_outside:
  "list_all (\<lambda>(p, v). stack + 0x1000 + 1000 \<le> p) (snd (thread_create thread stack exit_addr level pid fn s))"
  by (simp add: thread_create_def stack_frame_def Let_def)

end
