(* ===== verification/C_String.thy ===== *)
theory C_String
  imports Beryllium_Prelude
begin

text \<open>
  The byte and string routines of \<^verbatim>\<open>src/kernel/lib/string.c\<close> over a flat byte memory.
  A string is the bytes from its address up to the first zero byte. The loops that scan
  for a zero byte are \<^theory_text>\<open>partial_function\<close>s: \<open>None\<close> is a scan that never meets one.
  \<^verbatim>\<open>memcpy\<close> and \<^verbatim>\<open>memset\<close> move 32 bit words first and the remaining bytes after, as the
  source does; words are little-endian, as on the x86 and ARM targets.
\<close>

unbundle bit_operations_syntax

section \<open>Memory\<close>

type_synonym mem = "addr \<Rightarrow> u8"

definition load32 :: "mem \<Rightarrow> addr \<Rightarrow> u32" where
  "load32 m a = ucast (m a) OR push_bit 8 (ucast (m (a + 1))) OR
     push_bit 16 (ucast (m (a + 2))) OR push_bit 24 (ucast (m (a + 3)))"

definition store32 :: "mem \<Rightarrow> addr \<Rightarrow> u32 \<Rightarrow> mem" where
  "store32 m a w = m(a := ucast w, a + 1 := ucast (drop_bit 8 w),
     a + 2 := ucast (drop_bit 16 w), a + 3 := ucast (drop_bit 24 w))"

section \<open>Block operations\<close>

definition memcpy :: "mem \<Rightarrow> addr \<Rightarrow> addr \<Rightarrow> nat \<Rightarrow> mem" where
  "memcpy m dest src n =
     (let num_dwords = n div 4; num_bytes = n mod 4;
          dest8 = dest + num_dwords * 4; src8 = src + num_dwords * 4;
          m1 = fold (\<lambda>i m. store32 m (dest + 4 * i) (load32 m (src + 4 * i))) [0..<num_dwords] m
      in fold (\<lambda>i m. m(dest8 + i := m (src8 + i))) [0..<num_bytes] m1)"

definition memset_val32 :: "u32 \<Rightarrow> u32" where
  "memset_val32 val = val OR push_bit 8 val OR push_bit 16 val OR push_bit 24 val"

definition memset :: "mem \<Rightarrow> addr \<Rightarrow> u32 \<Rightarrow> nat \<Rightarrow> mem" where
  "memset m dest val n =
     (let num_dwords = n div 4; num_bytes = n mod 4;
          dest8 = dest + num_dwords * 4; val8 = ucast val;
          val32 = memset_val32 val;
          m1 = fold (\<lambda>i m. store32 m (dest + 4 * i) val32) [0..<num_dwords] m
      in fold (\<lambda>i m. m(dest8 + i := val8)) [0..<num_bytes] m1)"

definition memmove :: "mem \<Rightarrow> addr \<Rightarrow> addr \<Rightarrow> nat \<Rightarrow> mem" where
  "memmove m dest src n =
     (if src < dest
      then fold (\<lambda>i m. m(dest + (i - 1) := m (src + (i - 1)))) (rev [1..<n + 1]) m
      else fold (\<lambda>i m. m(dest + i := m (src + i))) [0..<n] m)"

section \<open>Strings\<close>

partial_function (option) strlen_loop :: "mem \<Rightarrow> addr \<Rightarrow> nat \<Rightarrow> nat option" where
  "strlen_loop m wrk retval =
     (if m wrk \<noteq> 0 then strlen_loop m (wrk + 1) (retval + 1) else Some retval)"

definition strlen :: "mem \<Rightarrow> addr \<Rightarrow> nat option" where
  "strlen m str = strlen_loop m str 0"

text \<open>The difference is one of signed bytes, as on the PC. On ARM \<^verbatim>\<open>char\<close> is unsigned, which changes the sign of some non-zero
  results and nothing else; the kernel only asks whether the result is zero.\<close>

partial_function (option) strcmp :: "mem \<Rightarrow> addr \<Rightarrow> addr \<Rightarrow> int option" where
  "strcmp m s1 s2 =
     (if m s1 = m s2 \<and> m s1 \<noteq> 0 then strcmp m (s1 + 1) (s2 + 1)
      else Some (if m s1 = m s2 then 0 else sint (m s1) - sint (m s2)))"

definition strcpy :: "mem \<Rightarrow> addr \<Rightarrow> addr \<Rightarrow> mem option" where
  "strcpy m dest src = do {
     len \<leftarrow> strlen m src;
     Some (memcpy m dest src (len + 1))
   }"

text \<open>The inner loop of \<^verbatim>\<open>strspn\<close> and \<^verbatim>\<open>strpbrk\<close>: where the scan of the set stops.\<close>

partial_function (option) scan_accept :: "mem \<Rightarrow> addr \<Rightarrow> u8 \<Rightarrow> addr option" where
  "scan_accept m acc c =
     (if m acc \<noteq> 0 \<and> c \<noteq> m acc then scan_accept m (acc + 1) c else Some acc)"

partial_function (option) strspn_loop :: "mem \<Rightarrow> addr \<Rightarrow> addr \<Rightarrow> addr option" where
  "strspn_loop m str accept =
     (if m str = 0 then Some str
      else do {
        acc \<leftarrow> scan_accept m accept (m str);
        if m acc = 0 then Some str else strspn_loop m (str + 1) accept
      })"

definition strspn :: "mem \<Rightarrow> addr \<Rightarrow> addr \<Rightarrow> nat option" where
  "strspn m str accept = do {
     e \<leftarrow> strspn_loop m str accept;
     Some (e - str)
   }"

text \<open>The loop of \<^verbatim>\<open>strpbrk\<close> leaves with both \<^verbatim>\<open>str\<close> and \<^verbatim>\<open>acc\<close>.\<close>

partial_function (option) strpbrk_loop ::
  "mem \<Rightarrow> addr \<Rightarrow> addr \<Rightarrow> addr \<Rightarrow> (addr \<times> addr) option" where
  "strpbrk_loop m str accept acc =
     (if m str = 0 then Some (str, acc)
      else do {
        acc' \<leftarrow> scan_accept m accept (m str);
        if m acc' \<noteq> 0 then Some (str, acc') else strpbrk_loop m (str + 1) accept acc'
      })"

definition strpbrk :: "mem \<Rightarrow> addr \<Rightarrow> addr \<Rightarrow> addr option" where
  "strpbrk m str accept =
     (if m str = 0 then Some NULL
      else do {
        (str', acc) \<leftarrow> strpbrk_loop m str accept accept;
        if m acc = 0 then Some NULL else Some str'
      })"

partial_function (option) lfind_loop :: "mem \<Rightarrow> addr \<Rightarrow> u8 \<Rightarrow> nat \<Rightarrow> nat option" where
  "lfind_loop m str accept i =
     (if m (str + i) \<noteq> accept then lfind_loop m str accept (i + 1) else Some i)"

definition lfind :: "mem \<Rightarrow> addr \<Rightarrow> u8 \<Rightarrow> addr option" where
  "lfind m str accept = do {
     i \<leftarrow> lfind_loop m str accept 0;
     Some (str + i)
   }"

text \<open>
  \<^verbatim>\<open>strtok_r\<close> takes the value of \<^verbatim>\<open>*saveptr\<close> and returns the token, the memory in which the
  token is terminated, and the new value of \<^verbatim>\<open>*saveptr\<close>.
\<close>

definition strtok_r :: "mem \<Rightarrow> addr \<Rightarrow> addr \<Rightarrow> addr \<Rightarrow> (addr \<times> mem \<times> addr) option" where
  "strtok_r m str delim saveptr = do {
     let str0 = (if str = NULL then saveptr else str);
     k \<leftarrow> strspn m str0 delim;
     let str1 = str0 + k;
     if m str1 = 0 then Some (NULL, m, str1)
     else do {
       let token = str1;
       str2 \<leftarrow> strpbrk m token delim;
       if str2 = NULL
       then do { e \<leftarrow> lfind m token 0; Some (token, m, e) }
       else Some (token, m(str2 := 0), str2 + 1)
     }
   }"


text \<open>
  How the path code of \<^verbatim>\<open>vfs.c\<close> drives it: the first call passes the buffer, every later one
  the null pointer, and each token is copied before the next call.
\<close>

partial_function (option) read_cstr :: "mem \<Rightarrow> addr \<Rightarrow> u8 list option" where
  "read_cstr m p =
     (if m p = 0 then Some [] else do { cs \<leftarrow> read_cstr m (p + 1); Some (m p # cs) })"

partial_function (option) strtok_loop ::
  "mem \<Rightarrow> addr \<Rightarrow> addr \<Rightarrow> addr \<Rightarrow> u8 list list option" where
  "strtok_loop m pch save delim =
     (if pch = NULL then Some []
      else do {
        s \<leftarrow> read_cstr m pch;
        (pch', m', save') \<leftarrow> strtok_r m NULL delim save;
        ts \<leftarrow> strtok_loop m' pch' save' delim;
        Some (s # ts)
      })"

lemmas string_loops_code [code] =
  strlen_loop.simps strcmp.simps scan_accept.simps strspn_loop.simps strpbrk_loop.simps
  lfind_loop.simps read_cstr.simps strtok_loop.simps

definition strtok_all :: "mem \<Rightarrow> addr \<Rightarrow> addr \<Rightarrow> u8 list list option" where
  "strtok_all m path delim = do {
     (pch, m', save) \<leftarrow> strtok_r m path delim NULL;
     strtok_loop m' pch save delim
   }"

section \<open>Words in memory\<close>

lemma ucast_load32_0: "(ucast (load32 m a) :: u8) = m a"
  by (rule bit_word_eqI) (auto simp: load32_def bit_simps)

lemma ucast_load32_8: "(ucast (drop_bit 8 (load32 m a)) :: u8) = m (a + 1)"
  by (rule bit_word_eqI) (auto simp: load32_def bit_simps dest: bit_imp_le_length)

lemma ucast_load32_16: "(ucast (drop_bit 16 (load32 m a)) :: u8) = m (a + 2)"
  by (rule bit_word_eqI) (auto simp: load32_def bit_simps dest: bit_imp_le_length)

lemma ucast_load32_24: "(ucast (drop_bit 24 (load32 m a)) :: u8) = m (a + 3)"
  by (rule bit_word_eqI) (auto simp: load32_def bit_simps dest: bit_imp_le_length)

lemmas ucast_load32 = ucast_load32_0 ucast_load32_8 ucast_load32_16 ucast_load32_24

lemma store32_load32:
  "store32 m d (load32 m s) = (\<lambda>a. if d \<le> a \<and> a < d + 4 then m (s + (a - d)) else m a)"
proof
  fix a
  consider "a = d" | "a = d + 1" | "a = d + 2" | "a = d + 3" | "a < d" | "d + 4 \<le> a"
    by linarith
  then show "store32 m d (load32 m s) a = (if d \<le> a \<and> a < d + 4 then m (s + (a - d)) else m a)"
    by cases (auto simp: store32_def ucast_load32 fun_upd_def)
qed

text \<open>The effect of copying \<open>n\<close> bytes at once, the meaning of the block operations.\<close>

definition copied :: "mem \<Rightarrow> addr \<Rightarrow> addr \<Rightarrow> nat \<Rightarrow> mem" where
  "copied m d s n = (\<lambda>a. if d \<le> a \<and> a < d + n then m (s + (a - d)) else m a)"

definition filled :: "mem \<Rightarrow> addr \<Rightarrow> u8 \<Rightarrow> nat \<Rightarrow> mem" where
  "filled m d v n = (\<lambda>a. if d \<le> a \<and> a < d + n then v else m a)"

lemma copied_0 [simp]: "copied m d s 0 = m"
  by (rule ext) (auto simp: copied_def)

lemma filled_0 [simp]: "filled m d v 0 = m"
  by (rule ext) (auto simp: filled_def)

text \<open>One more unit of a forward copy, when the bytes still to be read are not yet overwritten.\<close>

lemma copied_step:
  assumes "d \<le> s \<or> s + n + k \<le> d"
  shows "copied (copied m d s n) (d + n) (s + n) k = copied m d s (n + k)"
  using assms by (fastforce simp: copied_def)

lemma copied_one: "copied m d s 1 = m(d := m s)"
  by (auto simp: copied_def)

lemma copy_units:
  assumes "d \<le> s \<or> s + k * n \<le> d"
  shows "fold (\<lambda>i m. copied m (d + k * i) (s + k * i) k) [0..<n] m = copied m d s (k * n)"
  using assms
proof (induction n)
  case (Suc n)
  have IH: "fold (\<lambda>i m. copied m (d + k * i) (s + k * i) k) [0..<n] m = copied m d s (k * n)"
    by (rule Suc.IH) (use Suc.prems in auto)
  have "copied (copied m d s (k * n)) (d + k * n) (s + k * n) k = copied m d s (k * n + k)"
    by (rule copied_step) (use Suc.prems in auto)
  moreover have "k * n + k = k * Suc n" by simp
  ultimately show ?case by (simp only: fold_upt_Suc IH)
qed simp

lemma memcpy_dwords:
  assumes "d \<le> s \<or> s + 4 * n \<le> d"
  shows "fold (\<lambda>i m. store32 m (d + 4 * i) (load32 m (s + 4 * i))) [0..<n] m = copied m d s (4 * n)"
  using copy_units [OF assms, of m] by (simp only: store32_load32 copied_def [symmetric])

lemma copy_bytes:
  assumes "d \<le> s \<or> s + n \<le> d"
  shows "fold (\<lambda>i m. m(d + i := m (s + i))) [0..<n] m = copied m d s n"
  using copy_units [of d s 1 n m] assms by (simp only: copied_one mult_1)

lemma memcpy_copied:
  assumes "d \<le> s \<or> s + n \<le> d"
  shows "memcpy m d s n = copied m d s n"
proof -
  have n: "4 * (n div 4) + n mod 4 = n" by simp
  have dw: "d \<le> s \<or> s + 4 * (n div 4) \<le> d" using assms by auto
  have bt: "d + 4 * (n div 4) \<le> s + 4 * (n div 4) \<or> s + 4 * (n div 4) + n mod 4 \<le> d + 4 * (n div 4)"
    using assms n by linarith
  have "copied (copied m d s (4 * (n div 4))) (d + 4 * (n div 4)) (s + 4 * (n div 4)) (n mod 4)
      = copied m d s (4 * (n div 4) + n mod 4)"
    by (rule copied_step) (use assms n in linarith)
  then show ?thesis
    unfolding memcpy_def Let_def
    by (simp only: memcpy_dwords [OF dw] copy_bytes [OF bt] mult.commute [of _ 4] n)
qed

lemma memmove_down:
  assumes "s < d"
  shows "fold (\<lambda>i m. m(d + (i - 1) := m (s + (i - 1)))) (rev [1..<n + 1]) m = copied m d s n"
proof (induction n arbitrary: m)
  case (Suc n)
  have "rev [1..<Suc n + 1] = Suc n # rev [1..<n + 1]" by simp
  moreover have "copied (m(d + n := m (s + n))) d s n = copied m d s (Suc n)"
    using assms by (fastforce simp: copied_def)
  ultimately show ?case
    by (simp only: fold_simps o_apply Suc.IH diff_Suc_1)
qed simp

lemma memmove_copied: "memmove m d s n = copied m d s n"
  using memmove_down [of s d n m] copy_bytes [of d s n m]
  by (cases "s < d") (simp_all add: memmove_def)

lemma memset_val32_byte:
  assumes "val < 256"
  shows "(ucast (memset_val32 val) :: u8) = ucast val"
    and "(ucast (drop_bit 8 (memset_val32 val)) :: u8) = ucast val"
    and "(ucast (drop_bit 16 (memset_val32 val)) :: u8) = ucast val"
    and "(ucast (drop_bit 24 (memset_val32 val)) :: u8) = ucast val"
proof -
  have hi: "\<not> bit val k" if "8 \<le> k" for k
  proof -
    have "take_bit 8 val = val"
      using assms by (simp add: take_bit_eq_mod word_unat_eq_iff unat_mod word_less_nat_alt)
    then show ?thesis using that by (metis bit_take_bit_iff leD)
  qed
  show "(ucast (memset_val32 val) :: u8) = ucast val"
    "(ucast (drop_bit 8 (memset_val32 val)) :: u8) = ucast val"
    "(ucast (drop_bit 16 (memset_val32 val)) :: u8) = ucast val"
    "(ucast (drop_bit 24 (memset_val32 val)) :: u8) = ucast val"
    by (rule bit_word_eqI, auto simp: memset_val32_def bit_simps hi)+
qed


lemma filled_step: "filled (filled m d v n) (d + n) v k = filled m d v (n + k)"
  by (fastforce simp: filled_def)

lemma store32_filled:
  assumes "val < 256"
  shows "store32 m d (memset_val32 val) = filled m d (ucast val) 4"
proof
  fix a
  consider "a = d" | "a = d + 1" | "a = d + 2" | "a = d + 3" | "a < d" | "d + 4 \<le> a"
    by linarith
  then show "store32 m d (memset_val32 val) a = filled m d (ucast val) 4 a"
    by cases (auto simp: store32_def filled_def memset_val32_byte [OF assms])
qed

lemma fill_units: "fold (\<lambda>i m. filled m (d + k * i) v k) [0..<n] m = filled m d v (k * n)"
proof (induction n)
  case (Suc n)
  have "k * n + k = k * Suc n" by simp
  then show ?case by (simp only: fold_upt_Suc Suc filled_step)
qed simp

lemma memset_dwords:
  assumes "val < 256"
  shows "fold (\<lambda>i m. store32 m (d + 4 * i) (memset_val32 val)) [0..<n] m
     = filled m d (ucast val) (4 * n)"
  by (simp only: store32_filled [OF assms] fill_units)

lemma filled_one: "filled m d v 1 = m(d := v)"
  by (auto simp: filled_def)

lemma fill_bytes: "fold (\<lambda>i m. m(d + i := v)) [0..<n] m = filled m d v n"
  using fill_units [of d 1 v n m] by (simp only: filled_one mult_1)

lemma memset_filled:
  assumes "val < 256"
  shows "memset m d val n = filled m d (ucast val) n"
proof -
  have "4 * (n div 4) + n mod 4 = n" by simp
  then show ?thesis
    unfolding memset_def Let_def
    by (simp only: mult.commute [of _ 4] memset_dwords [OF assms] fill_bytes filled_step)
qed

section \<open>Strings in memory\<close>

text \<open>\<open>cstr m p s\<close>: the bytes \<open>s\<close>, none of them zero, stand at \<open>p\<close>, and a zero byte ends them.\<close>

fun cstr :: "mem \<Rightarrow> addr \<Rightarrow> u8 list \<Rightarrow> bool" where
  "cstr m p [] = (m p = 0)"
| "cstr m p (c # cs) = (m p = c \<and> c \<noteq> 0 \<and> cstr m (p + 1) cs)"

lemma cstr_append:
  "cstr m p (s @ t) \<longleftrightarrow> (\<forall>i < length s. m (p + i) = s ! i \<and> s ! i \<noteq> 0) \<and> cstr m (p + length s) t"
  by (induction s arbitrary: p) (auto simp: less_Suc_eq_0_disj nth_Cons split: nat.splits)

lemma cstr_iff:
  "cstr m p s \<longleftrightarrow> (\<forall>i < length s. m (p + i) = s ! i \<and> s ! i \<noteq> 0) \<and> m (p + length s) = 0"
  using cstr_append [of m p s "[]"] by simp

lemma cstr_cong:
  "(\<And>a. p \<le> a \<Longrightarrow> a \<le> p + length s \<Longrightarrow> m' a = m a) \<Longrightarrow> cstr m' p s = cstr m p s"
  by (simp add: cstr_iff)

lemma cstr_zero: "cstr m p s \<Longrightarrow> m p = 0 \<longleftrightarrow> s = []"
  by (cases s) auto

lemma strlen_loop_cstr: "cstr m p s \<Longrightarrow> strlen_loop m p r = Some (r + length s)"
  by (induction s arbitrary: p r) (simp_all add: strlen_loop.simps)

lemma strlen_cstr: "cstr m p s \<Longrightarrow> strlen m p = Some (length s)"
  by (simp add: strlen_def strlen_loop_cstr)

lemma strcpy_cstr:
  assumes "cstr m src s" and "dest \<le> src \<or> src + length s < dest"
  shows "strcpy m dest src = Some (copied m dest src (length s + 1))"
  using assms memcpy_copied [of dest src "length s + 1" m] by (auto simp: strcpy_def strlen_cstr)

lemma copied_cstr: "cstr m src s \<Longrightarrow> cstr (copied m dest src (length s + 1)) dest s"
  by (simp add: cstr_iff copied_def)

text \<open>The value \<^verbatim>\<open>strcmp\<close> computes on two strings.\<close>

fun strcmp_val :: "u8 list \<Rightarrow> u8 list \<Rightarrow> int" where
  "strcmp_val [] [] = 0"
| "strcmp_val [] (d # ds) = 0 - sint d"
| "strcmp_val (c # cs) [] = sint c"
| "strcmp_val (c # cs) (d # ds) = (if c = d then strcmp_val cs ds else sint c - sint d)"

lemma strcmp_cstr: "cstr m p s \<Longrightarrow> cstr m q t \<Longrightarrow> strcmp m p q = Some (strcmp_val s t)"
proof (induction s t arbitrary: p q rule: strcmp_val.induct)
  case (4 c cs d ds)
  then show ?case by (simp add: strcmp.simps [of m p q])
qed (simp_all add: strcmp.simps)

lemma sint_inject: "sint (c :: u8) = sint d \<longleftrightarrow> c = d"
  by (auto intro: signed_word_eqI)

lemma sint_eq_0: "sint (c :: u8) = 0 \<longleftrightarrow> c = 0"
  using sint_inject [of c 0] by simp

lemma strcmp_val_0:
  "\<lbrakk>0 \<notin> set s; 0 \<notin> set t\<rbrakk> \<Longrightarrow> strcmp_val s t = 0 \<longleftrightarrow> s = t"
proof (induction s t rule: strcmp_val.induct)
  case (4 c cs d ds)
  then show ?case by (auto simp: sint_inject)
qed (auto simp: sint_eq_0)

lemma cstr_nonzero: "cstr m p s \<Longrightarrow> 0 \<notin> set s"
  by (induction s arbitrary: p) auto


section \<open>Tokenising\<close>

text \<open>The bytes of a string up to, and from, the first byte of the set \<open>D\<close>.\<close>

abbreviation skip_delims :: "u8 set \<Rightarrow> u8 list \<Rightarrow> u8 list" where
  "skip_delims D s \<equiv> dropWhile (\<lambda>c. c \<in> D) s"

abbreviation token_of :: "u8 set \<Rightarrow> u8 list \<Rightarrow> u8 list" where
  "token_of D s \<equiv> takeWhile (\<lambda>c. c \<notin> D) s"

abbreviation after_token :: "u8 set \<Rightarrow> u8 list \<Rightarrow> u8 list" where
  "after_token D s \<equiv> dropWhile (\<lambda>c. c \<notin> D) s"

lemma scan_accept_cstr:
  "cstr m acc ds \<Longrightarrow> c \<noteq> 0 \<Longrightarrow>
   \<exists>e. scan_accept m acc c = Some e \<and> (m e = 0 \<longleftrightarrow> c \<notin> set ds)"
proof (induction ds arbitrary: acc)
  case (Cons d ds)
  then show ?case by (cases "c = d") (auto simp: scan_accept.simps [of m acc])
qed (simp add: scan_accept.simps)

lemma strspn_loop_cstr:
  assumes "cstr m accept ds"
  shows "cstr m p s \<Longrightarrow>
    strspn_loop m p accept = Some (p + (length s - length (skip_delims (set ds) s)))"
proof (induction s arbitrary: p)
  case (Cons c cs)
  then obtain e where e: "scan_accept m accept c = Some e" "m e = 0 \<longleftrightarrow> c \<notin> set ds"
    using scan_accept_cstr [OF assms] by fastforce
  have "length (skip_delims (set ds) cs) \<le> length cs"
    by (rule length_dropWhile_le)
  with Cons e show ?case by (simp add: strspn_loop.simps [of m p] Suc_diff_le)
qed (simp add: strspn_loop.simps)

lemma strspn_cstr:
  assumes "cstr m accept ds" and "cstr m p s"
  shows "strspn m p accept = Some (length s - length (skip_delims (set ds) s))"
  using strspn_loop_cstr [OF assms] by (simp add: strspn_def)

lemma strpbrk_loop_cstr:
  assumes "cstr m accept ds"
  shows "cstr m p s \<Longrightarrow> s \<noteq> [] \<Longrightarrow> \<exists>acc'.
    strpbrk_loop m p accept acc = Some (p + length (token_of (set ds) s), acc') \<and>
    (m acc' = 0 \<longleftrightarrow> after_token (set ds) s = [])"
proof (induction s arbitrary: p acc)
  case (Cons c cs)
  then obtain e where e: "scan_accept m accept c = Some e" "m e = 0 \<longleftrightarrow> c \<notin> set ds"
    using scan_accept_cstr [OF assms] by fastforce
  show ?case
  proof (cases "c \<in> set ds \<or> cs = []")
    case True
    with Cons.prems e show ?thesis
      by (auto simp: strpbrk_loop.simps [of m p] strpbrk_loop.simps [of m "Suc p"])
  next
    case False
    with Cons.prems Cons.IH [of "p + 1" e] e show ?thesis
      by (auto simp: strpbrk_loop.simps [of m p])
  qed
qed simp

lemma strpbrk_cstr:
  assumes "cstr m accept ds" and "cstr m p s" and "p \<noteq> NULL"
  shows "strpbrk m p accept =
    Some (if after_token (set ds) s = [] then NULL else p + length (token_of (set ds) s))"
proof (cases "s = []")
  case False
  then show ?thesis
    using strpbrk_loop_cstr [OF assms(1,2) False, of accept] assms cstr_zero [OF assms(2)]
    by (auto simp: strpbrk_def)
qed (use assms in \<open>simp add: strpbrk_def\<close>)

lemma lfind_loop_cstr:
  assumes "cstr m p s" and "i \<le> length s"
  shows "lfind_loop m p 0 i = Some (length s)"
  using assms(2)
proof (induction "length s - i" arbitrary: i)
  case 0
  with assms(1) show ?case by (auto simp: lfind_loop.simps [of m p 0 i] cstr_iff)
next
  case (Suc n)
  then have "m (p + i) \<noteq> 0" using assms(1) by (auto simp: cstr_iff)
  with Suc show ?case by (simp add: lfind_loop.simps [of m p 0 i])
qed

lemma lfind_cstr: "cstr m p s \<Longrightarrow> lfind m p 0 = Some (p + length s)"
  using lfind_loop_cstr [of m p s 0] by (simp add: lfind_def)

lemma cstr_drop: "cstr m p s \<Longrightarrow> k \<le> length s \<Longrightarrow> cstr m (p + k) (drop k s)"
  using cstr_append [of m p "take k s" "drop k s"] by simp

lemma cstr_dropWhile:
  "cstr m p s \<Longrightarrow> cstr m (p + (length s - length (dropWhile P s))) (dropWhile P s)"
proof -
  have "dropWhile P s = drop (length s - length (dropWhile P s)) s"
    by (metis append_eq_conv_conj length_append takeWhile_dropWhile_id add_diff_cancel_right')
  then show "cstr m p s \<Longrightarrow> ?thesis"
    using cstr_drop [of m p s "length s - length (dropWhile P s)"] by simp
qed


text \<open>The maximal runs of bytes outside \<open>D\<close>, in order: what a tokeniser promises.\<close>

function tokens :: "('a \<Rightarrow> bool) \<Rightarrow> 'a list \<Rightarrow> 'a list list" where
  "tokens D s =
     (let s1 = dropWhile D s
      in if s1 = [] then []
         else takeWhile (\<lambda>c. \<not> D c) s1 # tokens D (tl (dropWhile (\<lambda>c. \<not> D c) s1)))"
  by pat_completeness auto
termination
proof (relation "measure (\<lambda>(D, s). length s)")
  fix D :: "'a \<Rightarrow> bool" and s s1
  assume s1: "s1 = dropWhile D s" "s1 \<noteq> []"
  have "length (tl (dropWhile (\<lambda>c. \<not> D c) s1)) < length s1"
    using s1(2) [folded length_greater_0_conv] length_dropWhile_le [of "\<lambda>c. \<not> D c" s1]
    unfolding length_tl by linarith
  also have "\<dots> \<le> length s" unfolding s1(1) by (rule length_dropWhile_le)
  finally show "((D, tl (dropWhile (\<lambda>c. \<not> D c) s1)), D, s) \<in> measure (\<lambda>(D, s). length s)"
    by simp
qed simp

declare tokens.simps [simp del]

lemma read_cstr_cstr: "cstr m p s \<Longrightarrow> read_cstr m p = Some s"
  by (induction s arbitrary: p) (simp_all add: read_cstr.simps)

text \<open>
  One call of \<^verbatim>\<open>strtok_r\<close> on a string \<open>s\<close> at \<open>p\<close>: either only delimiters are left, or it
  returns a fresh terminated token and leaves the rest of \<open>s\<close> behind \<^verbatim>\<open>*saveptr\<close>. Bytes
  outside the string and bytes before the token are untouched.
\<close>

lemma strtok_r_none:
  assumes "cstr m d ds" "cstr m p s" "p = (if str = NULL then sv else str)"
    and "skip_delims (set ds) s = []"
  shows "strtok_r m str d sv = Some (NULL, m, p + length s)"
  using strspn_cstr [OF assms(1,2)] assms(2,4)
  unfolding strtok_r_def Let_def assms(3) [symmetric] by (simp add: cstr_iff)

lemma strtok_r_some:
  assumes ds: "cstr m d ds" and s: "cstr m p s" and p: "p = (if str = NULL then sv else str)"
    and s1: "s1 = skip_delims (set ds) s" "s1 \<noteq> []" and "p \<noteq> NULL"
  shows "\<exists>tok m' sv'. strtok_r m str d sv = Some (tok, m', sv') \<and> tok \<noteq> NULL \<and>
    cstr m' tok (token_of (set ds) s1) \<and> cstr m' sv' (tl (after_token (set ds) s1)) \<and>
    p \<le> sv' \<and> sv' + length (tl (after_token (set ds) s1)) = p + length s \<and>
    (\<forall>a. a < p \<or> p + length s < a \<longrightarrow> m' a = m a)"
proof -
  define tok where "tok = p + (length s - length s1)"
  define t where "t = token_of (set ds) s1"
  define r where "r = after_token (set ds) s1"
  have tok: "cstr m tok s1" "tok \<noteq> NULL" and le: "length s1 \<le> length s"
    using cstr_dropWhile [OF s, of "\<lambda>c. c \<in> set ds"] \<open>p \<noteq> NULL\<close>
      length_dropWhile_le [of "\<lambda>c. c \<in> set ds" s]
    by (auto simp: s1(1) tok_def)
  have pos: "p \<le> tok" "tok + length s1 = p + length s" using le by (simp_all add: tok_def)
  have nz: "m tok \<noteq> 0" using tok(1) s1(2) cstr_zero by blast
  have split: "s1 = t @ r" by (simp add: t_def r_def)
  have step: "strtok_r m str d sv =
      (if r = [] then Some (tok, m, tok + length s1)
       else Some (tok, m(tok + length t := 0), tok + length t + 1))"
    using strspn_cstr [OF ds s] strpbrk_cstr [OF ds tok] lfind_cstr [OF tok(1)] nz tok(2)
    unfolding strtok_r_def Let_def p [symmetric]
    by (simp add: s1(1) [symmetric] tok_def [symmetric] t_def [symmetric] r_def [symmetric]
        del: dropWhile_eq_Nil_conv)
  show ?thesis
    unfolding t_def [symmetric] r_def [symmetric]
  proof (cases "r = []")
    case True
    then show "\<exists>tok m' sv'. strtok_r m str d sv = Some (tok, m', sv') \<and> tok \<noteq> NULL \<and>
      cstr m' tok t \<and> cstr m' sv' (tl r) \<and> p \<le> sv' \<and> sv' + length (tl r) = p + length s \<and>
      (\<forall>a. a < p \<or> p + length s < a \<longrightarrow> m' a = m a)"
      using step tok s split pos by (simp add: cstr_iff)
  next
    case False
    let ?m = "m(tok + length t := 0)"
    have bytes: "\<forall>i < length t. m (tok + i) = t ! i \<and> t ! i \<noteq> 0" "cstr m (tok + length t) r"
      using tok(1) cstr_append [of m tok t r] split by simp_all
    from False have r: "r = hd r # tl r" by simp
    with bytes(2) have "cstr m (tok + length t + 1) (tl r)"
      by (metis cstr.simps(2))
    then have "cstr ?m (tok + length t + 1) (tl r)"
      by (rule cstr_cong [THEN iffD2, rotated]) simp
    moreover have "cstr ?m tok t" using bytes(1) by (simp add: cstr_iff)
    moreover have "length (tl r) + 1 = length r" using False by simp
    moreover have "length t + length r = length s1" using split by simp
    ultimately show "\<exists>tok m' sv'. strtok_r m str d sv = Some (tok, m', sv') \<and> tok \<noteq> NULL \<and>
      cstr m' tok t \<and> cstr m' sv' (tl r) \<and> p \<le> sv' \<and> sv' + length (tl r) = p + length s \<and>
      (\<forall>a. a < p \<or> p + length s < a \<longrightarrow> m' a = m a)"
      using False tok(2) step pos by (auto simp del: length_tl)
  qed
qed

text \<open>The whole loop, by induction on the string that is left behind \<^verbatim>\<open>*saveptr\<close>.\<close>

lemma strtok_loop_cstr:
  assumes "cstr m d ds" and "cstr m pch t" and "pch \<noteq> NULL" and "cstr m save s" and "save \<noteq> NULL"
    and "d + length ds < save \<or> save + length s < d"
  shows "strtok_loop m pch save d = Some (t # tokens (\<lambda>c. c \<in> set ds) s)"
  using assms
proof (induction "\<lambda>c. c \<in> set ds" s arbitrary: m pch t save rule: tokens.induct)
  case (1 s)
  define s1 where "s1 = skip_delims (set ds) s"
  note loop = strtok_loop.simps [of m pch save d] read_cstr_cstr [OF "1.prems"(2)]
  show ?case
  proof (cases "s1 = []")
    case True
    with "1.prems" show ?thesis
      by (simp add: loop strtok_r_none [OF "1.prems"(1,4)] tokens.simps [of _ s] s1_def
          strtok_loop.simps [of _ 0] del: dropWhile_eq_Nil_conv)
  next
    case False
    from strtok_r_some [OF "1.prems"(1,4) _ s1_def False, of NULL save] "1.prems"(5)
    obtain tok m' sv' where st: "strtok_r m NULL d save = Some (tok, m', sv')" "tok \<noteq> NULL"
      "cstr m' tok (token_of (set ds) s1)" "cstr m' sv' (tl (after_token (set ds) s1))"
      "save \<le> sv'" "sv' + length (tl (after_token (set ds) s1)) = save + length s"
      "\<forall>a. a < save \<or> save + length s < a \<longrightarrow> m' a = m a"
      by auto
    have d': "cstr m' d ds"
      using "1.prems"(1) by (rule cstr_cong [THEN iffD2, rotated]) (use st(7) "1.prems"(6) in auto)
    have "strtok_loop m' tok sv' d =
        Some (token_of (set ds) s1 # tokens (\<lambda>c. c \<in> set ds) (tl (after_token (set ds) s1)))"
      by (rule "1.hyps" [OF s1_def False d' st(3,2,4)]) (use st(5,6) "1.prems"(5,6) in auto)
    with False "1.prems"(3) show ?thesis
      by (simp add: loop st(1) tokens.simps [of _ s] s1_def [symmetric])
  qed
qed


lemma strtok_all_cstr:
  assumes "cstr m d ds" and "cstr m p s" and "p \<noteq> NULL"
    and "d + length ds < p \<or> p + length s < d"
  shows "strtok_all m p d = Some (tokens (\<lambda>c. c \<in> set ds) s)"
proof -
  define s1 where "s1 = skip_delims (set ds) s"
  show ?thesis
  proof (cases "s1 = []")
    case True
    with assms show ?thesis
      by (simp add: strtok_all_def strtok_r_none [OF assms(1,2)] tokens.simps [of _ s] s1_def
          strtok_loop.simps [of _ 0] del: dropWhile_eq_Nil_conv)
  next
    case False
    from strtok_r_some [OF assms(1,2) _ s1_def False, of p NULL] assms(3)
    obtain tok m' sv' where st: "strtok_r m p d NULL = Some (tok, m', sv')" "tok \<noteq> NULL"
      "cstr m' tok (token_of (set ds) s1)" "cstr m' sv' (tl (after_token (set ds) s1))"
      "p \<le> sv'" "sv' + length (tl (after_token (set ds) s1)) = p + length s"
      "\<forall>a. a < p \<or> p + length s < a \<longrightarrow> m' a = m a"
      by auto
    have "cstr m' d ds"
      using assms(1) by (rule cstr_cong [THEN iffD2, rotated]) (use st(7) assms(4) in auto)
    then have "strtok_loop m' tok sv' d =
        Some (token_of (set ds) s1 # tokens (\<lambda>c. c \<in> set ds) (tl (after_token (set ds) s1)))"
      by (rule strtok_loop_cstr) (use st assms(3,4) in auto)
    with False show ?thesis
      by (simp add: strtok_all_def st(1) tokens.simps [of _ s] s1_def [symmetric])
  qed
qed

text \<open>What the token list is: no token is empty or holds a delimiter, and joining tokens with
  one delimiter each and splitting again gives the same tokens.\<close>

lemma tokens_Nil [simp]: "tokens D [] = []"
  by (simp add: tokens.simps)

lemma tokens_clean: "t \<in> set (tokens D s) \<Longrightarrow> t \<noteq> [] \<and> (\<forall>c \<in> set t. \<not> D c)"
proof (induction D s rule: tokens.induct)
  case (1 D s)
  define s1 where "s1 = dropWhile D s"
  from "1.prems" have ne: "s1 \<noteq> []"
    and t: "t = takeWhile (\<lambda>c. \<not> D c) s1 \<or> t \<in> set (tokens D (tl (dropWhile (\<lambda>c. \<not> D c) s1)))"
    by (auto simp: tokens.simps [of D s] s1_def [symmetric] Let_def split: if_splits)
  from ne have "\<not> D (hd s1)" unfolding s1_def by (rule hd_dropWhile)
  with ne have "takeWhile (\<lambda>c. \<not> D c) s1 \<noteq> []" by (cases s1) auto
  moreover have "\<forall>c \<in> set (takeWhile (\<lambda>c. \<not> D c) s1). \<not> D c" by (blast dest: set_takeWhileD)
  ultimately show ?case using t "1.IH" [OF s1_def ne] by metis
qed

lemma tokens_skip: "D c \<Longrightarrow> tokens D (c # s) = tokens D s"
  unfolding tokens.simps [of D "c # s"] tokens.simps [of D s] by (simp only: dropWhile.simps if_True)

lemma tokens_all:
  assumes "t \<noteq> []" and "\<forall>c \<in> set t. \<not> D c"
  shows "tokens D t = [t]"
proof -
  have "dropWhile D t = t" using assms by (cases t) auto
  moreover have "takeWhile (\<lambda>c. \<not> D c) t = t" "dropWhile (\<lambda>c. \<not> D c) t = []"
    using assms by (simp_all add: takeWhile_eq_all_conv)
  ultimately show ?thesis
    by (simp only: tokens.simps [of D t] Let_def assms(1) if_False list.sel tokens_Nil simp_thms)
qed

lemma tokens_cut:
  assumes "t \<noteq> []" and "\<forall>c \<in> set t. \<not> D c" and "D c"
  shows "tokens D (t @ c # r) = t # tokens D r"
proof -
  have "dropWhile D (t @ c # r) = t @ c # r" using assms by (cases t) auto
  moreover have "takeWhile (\<lambda>c. \<not> D c) (t @ c # r) = t" "dropWhile (\<lambda>c. \<not> D c) (t @ c # r) = c # r"
    using assms by (simp_all add: takeWhile_append2 dropWhile_append2)
  ultimately show ?thesis by (subst tokens.simps) (simp add: Let_def)
qed

lemma tokens_join:
  assumes "\<forall>t \<in> set ts. t \<noteq> [] \<and> (\<forall>c \<in> set t. \<not> D c)" and "D c"
  shows "tokens D (concat (map (\<lambda>t. c # t) ts)) = ts"
  using assms(1)
proof (induction ts)
  case (Cons t ts)
  show ?case
  proof (cases ts)
    case Nil
    with Cons.prems show ?thesis by (simp add: tokens_skip assms(2) tokens_all)
  next
    case (Cons u us)
    with Cons.prems Cons.IH show ?thesis
      by (simp add: tokens_skip assms(2) tokens_cut)
  qed
qed simp


section \<open>Properties\<close>

text \<open>
  Property C28. \<^verbatim>\<open>memmove\<close> moves \<open>n\<close> bytes correctly whatever the overlap of the two areas: the
  destination afterwards holds the bytes the source held before, and nothing else changes.
\<close>

theorem memmove_correct:
  "memmove m dest src n =
     (\<lambda>a. if dest \<le> a \<and> a < dest + n then m (src + (a - dest)) else m a)"
  by (simp only: memmove_copied copied_def)

text \<open>
  \<^verbatim>\<open>memcpy\<close>, which copies words and then the odd bytes, has the effect of a byte
  by byte copy when the areas are disjoint and also when the destination starts below the
  source (the scrolling and shifting uses).
\<close>

theorem memcpy_correct:
  assumes "dest \<le> src \<or> src + n \<le> dest"
  shows "memcpy m dest src n =
     (\<lambda>a. if dest \<le> a \<and> a < dest + n then m (src + (a - dest)) else m a)"
  using memcpy_copied [OF assms] by (simp only: copied_def)

theorem memcpy_correct_witness:
  "(10::nat) \<le> 12 \<and> memcpy (\<lambda>a. of_nat a) 10 12 7 14 = 16 \<and> memcpy (\<lambda>a. of_nat a) 10 12 7 17 = 17"
proof -
  have "(10::nat) \<le> 12 \<or> 12 + 7 \<le> (10::nat)" by simp
  from memcpy_correct [OF this, of "\<lambda>a. of_nat a"] show ?thesis by simp
qed

text \<open>
  \<^verbatim>\<open>memset\<close> fills exactly \<open>n\<close> bytes with the given byte, for every value that fits
  a byte; the word loop and the byte loop agree there.
\<close>

theorem memset_correct:
  assumes "val < 256"
  shows "memset m dest val n = (\<lambda>a. if dest \<le> a \<and> a < dest + n then ucast val else m a)"
  using memset_filled [OF assms] by (simp only: filled_def)

theorem memset_correct_witness:
  "(7::u32) < 256 \<and> memset (\<lambda>a. 0) 100 7 6 105 = 7 \<and> memset (\<lambda>a. 0) 100 7 6 106 = 0"
proof -
  have "(7::u32) < 256" by simp
  from memset_correct [OF this, of "\<lambda>a. 0" 100 6] this show ?thesis by simp
qed

text \<open>
  \<^verbatim>\<open>strcmp\<close> returns, and it returns zero exactly on equal strings.
\<close>

theorem strcmp_zero_iff:
  assumes "cstr m p s" and "cstr m q t"
  shows "\<exists>r. strcmp m p q = Some r \<and> (r = 0 \<longleftrightarrow> s = t)"
  using strcmp_cstr [OF assms] strcmp_val_0 [of s t] cstr_nonzero [OF assms(1)] cstr_nonzero [OF assms(2)]
  by simp

theorem strcmp_zero_iff_witness:
  "\<exists>r. strcmp ((\<lambda>a. 0)(1 := 46, 2 := 46, 8 := 46)) 1 8 = Some r \<and> (r = 0 \<longleftrightarrow> [46, 46] = [46 :: u8])"
  by (rule strcmp_zero_iff) simp_all

text \<open>
  \<^verbatim>\<open>strcpy\<close> returns and leaves a copy of the string at the destination, with the
  source string and every byte outside the copy unchanged.
\<close>

theorem strcpy_correct:
  assumes "cstr m src s" and "dest + length s < src \<or> src + length s < dest"
  shows "\<exists>m'. strcpy m dest src = Some m' \<and> cstr m' dest s \<and> cstr m' src s \<and>
     (\<forall>a. a < dest \<or> dest + length s < a \<longrightarrow> m' a = m a)"
proof -
  have "strcpy m dest src = Some (copied m dest src (length s + 1))"
    by (rule strcpy_cstr) (use assms in auto)
  moreover have "cstr (copied m dest src (length s + 1)) src s"
    using assms(1) by (rule cstr_cong [THEN iffD2, rotated]) (use assms(2) in \<open>auto simp: copied_def\<close>)
  ultimately show ?thesis
    using copied_cstr [OF assms(1), of dest] by (auto simp: copied_def)
qed

theorem strcpy_correct_witness:
  "\<exists>m'. strcpy ((\<lambda>a. 0)(1 := 65, 2 := 66)) 8 1 = Some m' \<and> cstr m' 8 [65, 66] \<and> cstr m' 1 [65, 66] \<and>
     (\<forall>a. a < 8 \<or> 8 + length [65 :: u8, 66] < a \<longrightarrow> m' a = ((\<lambda>a. 0)(1 := 65, 2 := 66)) a)"
  by (rule strcpy_correct) simp_all

text \<open>
  Property C29. Driving \<^verbatim>\<open>strtok_r\<close> over a string the way the path code does terminates and
  yields the maximal delimiter-free runs of the string, in order.
\<close>

theorem strtok_all_tokens:
  assumes "cstr m delim ds" and "cstr m path s" and "path \<noteq> NULL"
    and "delim + length ds < path \<or> path + length s < delim"
  shows "strtok_all m path delim = Some (tokens (\<lambda>c. c \<in> set ds) s)"
  using assms by (rule strtok_all_cstr)

theorem strtok_all_tokens_witness:
  "strtok_all ((\<lambda>a. 0)(1 := 47, 10 := 47, 11 := 65, 12 := 47, 13 := 47, 14 := 66)) 10 1
     = Some [[65], [66]]"
proof -
  let ?m = "(\<lambda>a. 0)(1 := 47, 10 := 47, 11 := 65, 12 := 47, 13 := 47, 14 := 66) :: mem"
  have "strtok_all ?m 10 1 = Some (tokens (\<lambda>c. c \<in> set [47]) [47, 65, 47, 47, 66])"
    by (rule strtok_all_tokens) simp_all
  moreover have "tokens (\<lambda>c. c \<in> set [47 :: u8]) [47, 65, 47, 47, 66] = [[65], [66]]"
    by (simp add: tokens.simps)
  ultimately show ?thesis by simp
qed

end
