(* ===== verification/Vfs_Path.thy ===== *)
theory Vfs_Path
  imports C_String
begin

text \<open>
  Path handling of \<^verbatim>\<open>src/kernel/vfs.c\<close>: the stack-based canonicalizer and the splitting of a
  path at its separators. Strings are lists of bytes without the terminator; the tokenizer is
  the function \<open>tokens\<close>, which \<open>C_String\<close> proves equal to the loop over \<^verbatim>\<open>strtok_r\<close>. The list the
  source uses as a stack is a HOL list with its top at the end.
\<close>

type_synonym cstring = "u8 list"

definition str :: "string \<Rightarrow> cstring" where
  "str s = map of_char s"

abbreviation PATH_SEPARATOR :: u8 where "PATH_SEPARATOR \<equiv> 47"

definition PATH_UP :: cstring where "PATH_UP = str ''..''"
definition PATH_DOT :: cstring where "PATH_DOT = str ''.''"

section \<open>The canonicalizer\<close>

definition path_tokens :: "cstring \<Rightarrow> cstring list" where
  "path_tokens = tokens (\<lambda>c. c = PATH_SEPARATOR)"

text \<open>One element of the input path: up pops the stack, a dot does nothing.\<close>

definition push_element :: "cstring \<Rightarrow> cstring list \<Rightarrow> cstring list" where
  "push_element pch out =
     (if pch = PATH_UP then butlast out
      else if pch = PATH_DOT then out
      else out @ [pch])"

definition join_path :: "cstring list \<Rightarrow> cstring" where
  "join_path out =
     (let size = sum_list (map (\<lambda>item. length item + 1) out)
      in if size = 0 then [PATH_SEPARATOR]
         else concat (map (\<lambda>item. PATH_SEPARATOR # item) out))"

definition canonicalize_path :: "cstring \<Rightarrow> cstring \<Rightarrow> cstring" where
  "canonicalize_path cwd input =
     (let out = (if length input \<noteq> 0 \<and> input ! 0 \<noteq> PATH_SEPARATOR then path_tokens cwd else []);
          out' = fold push_element (path_tokens input) out
      in join_path out')"

section \<open>Lemmas\<close>

definition clean_element :: "cstring \<Rightarrow> bool" where
  "clean_element t \<longleftrightarrow> t \<noteq> [] \<and> PATH_SEPARATOR \<notin> set t"

definition plain_element :: "cstring \<Rightarrow> bool" where
  "plain_element t \<longleftrightarrow> clean_element t \<and> t \<noteq> PATH_UP \<and> t \<noteq> PATH_DOT"

lemma path_tokens_clean: "t \<in> set (path_tokens s) \<Longrightarrow> clean_element t"
  using tokens_clean [of t "\<lambda>c. c = PATH_SEPARATOR" s] by (auto simp: path_tokens_def clean_element_def)

lemma join_path_simps: "join_path [] = [PATH_SEPARATOR]"
  "xs \<noteq> [] \<Longrightarrow> join_path xs = concat (map (\<lambda>item. PATH_SEPARATOR # item) xs)"
  by (cases xs; simp add: join_path_def)+

lemma join_path_absolute: "\<exists>r. join_path xs = PATH_SEPARATOR # r"
  by (cases xs) (auto simp: join_path_simps)

lemma path_tokens_join:
  assumes "\<forall>t \<in> set ts. clean_element t"
  shows "path_tokens (join_path ts) = ts"
proof (cases "ts = []")
  case True
  then show ?thesis by (simp add: join_path_simps path_tokens_def tokens_skip)
next
  case False
  then show ?thesis
    using tokens_join [of ts "\<lambda>c. c = PATH_SEPARATOR" PATH_SEPARATOR] assms
    by (auto simp: join_path_simps path_tokens_def clean_element_def)
qed

lemma push_element_plain:
  assumes "clean_element t" and "\<forall>x \<in> set out. plain_element x"
  shows "\<forall>x \<in> set (push_element t out). plain_element x"
  using assms by (auto simp: push_element_def plain_element_def dest: in_set_butlastD)

lemma fold_push_plain:
  assumes "\<forall>t \<in> set ts. clean_element t" and "\<forall>x \<in> set out. plain_element x"
  shows "\<forall>x \<in> set (fold push_element ts out). plain_element x"
  using assms
proof (induction ts arbitrary: out)
  case (Cons t ts)
  then show ?case using Cons.IH [OF _ push_element_plain, of t out] by simp
qed simp

lemma fold_push_all_plain:
  assumes "\<forall>t \<in> set ts. plain_element t"
  shows "fold push_element ts out = out @ ts"
  using assms by (induction ts arbitrary: out) (auto simp: push_element_def plain_element_def)

text \<open>The stack after reading a path.\<close>

definition path_stack :: "cstring \<Rightarrow> cstring \<Rightarrow> cstring list" where
  "path_stack cwd input = fold push_element (path_tokens input)
     (if length input \<noteq> 0 \<and> input ! 0 \<noteq> PATH_SEPARATOR then path_tokens cwd else [])"

lemma canonicalize_path_stack: "canonicalize_path cwd input = join_path (path_stack cwd input)"
  by (simp add: canonicalize_path_def path_stack_def)

lemma path_stack_plain:
  assumes "\<forall>t \<in> set (path_tokens cwd). plain_element t"
  shows "\<forall>t \<in> set (path_stack cwd input). plain_element t"
  unfolding path_stack_def using assms path_tokens_clean by (intro fold_push_plain) auto

lemma path_tokens_canonical:
  assumes "\<forall>t \<in> set (path_tokens cwd). plain_element t"
  shows "path_tokens (canonicalize_path cwd input) = path_stack cwd input"
  unfolding canonicalize_path_stack
  using path_stack_plain [OF assms] by (intro path_tokens_join) (auto simp: plain_element_def)

section \<open>Properties\<close>

text \<open>
  Property C27. A canonicalized path is absolute, holds no empty element, no \<^verbatim>\<open>.\<close> and no \<^verbatim>\<open>..\<close>,
  for every input, as long as the working directory is such a path.
\<close>

theorem canonicalize_path_clean:
  assumes "\<forall>t \<in> set (path_tokens cwd). plain_element t"
  shows "(\<exists>r. canonicalize_path cwd input = PATH_SEPARATOR # r) \<and>
    (\<forall>t \<in> set (path_tokens (canonicalize_path cwd input)). plain_element t) \<and>
    canonicalize_path cwd input = join_path (path_tokens (canonicalize_path cwd input))"
  using path_stack_plain [OF assms] path_tokens_canonical [OF assms] join_path_absolute
  by (simp add: canonicalize_path_stack)

theorem canonicalize_path_clean_witness:
  "(\<exists>r. canonicalize_path (str ''/'') (str ''a/../b//./c'') = PATH_SEPARATOR # r) \<and>
    list_all plain_element (path_tokens (canonicalize_path (str ''/'') (str ''a/../b//./c'')))"
proof -
  have "\<forall>t \<in> set (path_tokens (str ''/'')). plain_element t"
    by (simp add: path_tokens_def str_def tokens_skip)
  from canonicalize_path_clean [OF this] show ?thesis by (simp add: list_all_iff)
qed

text \<open>
  Canonicalizing is idempotent: a canonicalized path is a fixed point, whatever the
  working directory is the second time.
\<close>

theorem canonicalize_path_idem:
  assumes "\<forall>t \<in> set (path_tokens cwd). plain_element t"
  shows "canonicalize_path cwd' (canonicalize_path cwd input) = canonicalize_path cwd input"
proof -
  let ?p = "canonicalize_path cwd input"
  obtain r where "?p = PATH_SEPARATOR # r" using join_path_absolute by (auto simp: canonicalize_path_stack)
  then have "path_stack cwd' ?p = fold push_element (path_tokens ?p) []" by (simp add: path_stack_def)
  also have "\<dots> = path_stack cwd input"
    using fold_push_all_plain path_stack_plain [OF assms] path_tokens_canonical [OF assms] by simp
  finally show ?thesis by (simp add: canonicalize_path_stack)
qed

theorem canonicalize_path_idem_witness:
  "canonicalize_path (str ''/x'') (canonicalize_path (str ''/'') (str ''a/../b'')) = str ''/b''"
proof -
  have c: "\<forall>t \<in> set (path_tokens (str ''/'')). plain_element t"
    by (simp add: path_tokens_def str_def tokens_skip)
  have "canonicalize_path (str ''/'') (str ''a/../b'') = str ''/b''"
    by (simp add: canonicalize_path_def path_tokens_def str_def tokens.simps push_element_def PATH_UP_def
        PATH_DOT_def join_path_def)
  then show ?thesis using canonicalize_path_idem [OF c, of "str ''/x''" "str ''a/../b''"] by simp
qed

text \<open>
  An absolute input whose elements are plain names denotes exactly those elements, and
  appending \<^verbatim>\<open>..\<close> removes the last one.
\<close>

theorem canonicalize_path_up:
  assumes "\<forall>t \<in> set ts. plain_element t" and "ts \<noteq> []"
  shows "canonicalize_path cwd (join_path (ts @ [PATH_UP])) = join_path (butlast ts)"
proof -
  have up: "clean_element PATH_UP" by (simp add: clean_element_def PATH_UP_def str_def)
  then have "path_tokens (join_path (ts @ [PATH_UP])) = ts @ [PATH_UP]"
    using assms(1) by (intro path_tokens_join) (auto simp: plain_element_def)
  moreover obtain r where "join_path (ts @ [PATH_UP]) = PATH_SEPARATOR # r" using join_path_absolute by blast
  ultimately have "path_stack cwd (join_path (ts @ [PATH_UP])) = push_element PATH_UP ts"
    using fold_push_all_plain [OF assms(1), of "[]"] by (simp add: path_stack_def)
  then show ?thesis by (simp add: canonicalize_path_stack push_element_def)
qed

theorem canonicalize_path_up_witness:
  "canonicalize_path [] (join_path [str ''dev'', str ''x'', PATH_UP]) = str ''/dev''"
  using canonicalize_path_up [of "[str ''dev'', str ''x'']" "[]"]
  by (simp add: plain_element_def clean_element_def PATH_UP_def PATH_DOT_def str_def join_path_def)

end
