(* ===== verification/Printf.thy ===== *)
theory Printf
  imports Vfs_Path
begin

text \<open>
  The formatter of \<^verbatim>\<open>src/kernel/printf.c\<close>. \<^verbatim>\<open>do_printf\<close> is a state machine over the format string with
  the states awaiting \<^verbatim>\<open>%\<close>, flags, width, modifier and conversion; one pass through its loop is
  \<open>pf_step\<close>. What the callback receives is the list of bytes emitted, whose length is the returned
  count. Every flag bit of the source is a field of \<open>pstate\<close>. An argument of the wrong kind, a
  missing argument, and a format string whose terminator is skipped are undefined: \<open>None\<close>.
\<close>

datatype parg = Num u32 | Ptr cstring

datatype radix = Oct | Dec | Hex

fun radix_val :: "radix \<Rightarrow> nat" where
  "radix_val Oct = 8"
| "radix_val Dec = 10"
| "radix_val Hex = 16"

record pstate =
  p_state :: nat
  p_lj :: bool
  p_ca :: bool
  p_sg :: bool
  p_32 :: bool
  p_16 :: bool
  p_ws :: bool
  p_lz :: bool
  p_fp :: bool
  p_wd :: nat

definition pstate0 :: pstate where
  "pstate0 = \<lparr>p_state = 0, p_lj = False, p_ca = False, p_sg = False, p_32 = False, p_16 = False,
     p_ws = False, p_lz = False, p_fp = False, p_wd = 0\<rparr>"

abbreviation ch :: "char \<Rightarrow> u8" where "ch c \<equiv> of_char c"

section \<open>Conversion\<close>

definition digit_char :: "bool \<Rightarrow> nat \<Rightarrow> u8" where
  "digit_char ca temp =
     (if temp < 10 then of_nat temp + ch CHR ''0''
      else if ca then of_nat (temp - 10) + ch CHR ''A''
      else of_nat (temp - 10) + ch CHR ''a'')"

lemma radix_ge_2: "2 \<le> radix_val r"
  by (cases r) auto

text \<open>The digits are stored from the end of the buffer towards its front.\<close>

function num_digits :: "bool \<Rightarrow> radix \<Rightarrow> nat \<Rightarrow> u8 list \<Rightarrow> u8 list" where
  "num_digits ca r num where =
     (let temp = num mod radix_val r;
          where' = digit_char ca temp # where;
          num' = num div radix_val r
      in if num' \<noteq> 0 then num_digits ca r num' where' else where')"
  by pat_completeness auto

termination
proof (relation "measure (\<lambda>(ca, r, num, w). num)")
  fix ca r num w x xa xb
  assume "xb = num div radix_val r" "xb \<noteq> 0"
  then show "((ca, r, xb, xa), (ca, r, num, w)) \<in> measure (\<lambda>(ca, r, num, w). num)"
    using radix_ge_2 [of r] by (cases "num = 0") auto
qed simp

declare num_digits.simps [simp del]

text \<open>The field around the converted text: sign, padding on the left, text, padding on the right.\<close>

definition emit2 :: "pstate \<Rightarrow> nat \<Rightarrow> u8 list \<Rightarrow> u8 list" where
  "emit2 st actual_wd where =
     (let pad = (if \<not> p_lj st then p_wd st - actual_wd else 0);
          given_wd = p_wd st - pad;
          rest = (if given_wd < actual_wd then 0 else given_wd - actual_wd)
      in replicate pad (if p_lz st then ch CHR ''0'' else ch CHR '' '') @
         (if p_ws st \<and> \<not> p_lz st then [ch CHR ''-''] else []) @
         takeWhile (\<lambda>c. c \<noteq> 0) where @
         replicate rest (ch CHR '' ''))"

definition emit :: "pstate \<Rightarrow> u8 list \<Rightarrow> u8 list" where
  "emit st where =
     (let actual_wd = length (takeWhile (\<lambda>c. c \<noteq> 0) where) + (if p_ws st then 1 else 0)
      in (if p_ws st \<and> p_lz st then [ch CHR ''-''] else []) @ emit2 st actual_wd where)"

text \<open>A numeric conversion: \<^verbatim>\<open>long\<close> and \<^verbatim>\<open>int\<close> are both 32 bits wide on the kernel's targets.\<close>

definition do_num :: "radix \<Rightarrow> pstate \<Rightarrow> parg list \<Rightarrow> (u8 list \<times> parg list) option" where
  "do_num r st args =
     (case args of
        Num num # args' \<Rightarrow>
          (if p_sg st \<and> sint num < 0
           then Some (emit (st\<lparr>p_ws := True\<rparr>) (num_digits (p_ca st) r (unat (- num)) []), args')
           else Some (emit st (num_digits (p_ca st) r (unat num) []), args'))
      | _ \<Rightarrow> None)"

definition conversion :: "u8 \<Rightarrow> pstate \<Rightarrow> parg list \<Rightarrow> (u8 list \<times> parg list) option" where
  "conversion c st args =
     (if c = ch CHR ''X'' then do_num Hex (st\<lparr>p_ca := True\<rparr>) args
      else if c = ch CHR ''x'' \<or> c = ch CHR ''p'' \<or> c = ch CHR ''n'' then do_num Hex st args
      else if c = ch CHR ''d'' \<or> c = ch CHR ''i'' then do_num Dec (st\<lparr>p_sg := True\<rparr>) args
      else if c = ch CHR ''u'' then do_num Dec st args
      else if c = ch CHR ''o'' then do_num Oct st args
      else if c = ch CHR ''c'' then
        (case args of Num x # args' \<Rightarrow> Some (emit2 (st\<lparr>p_lz := False\<rparr>) 1 [ucast x], args') | _ \<Rightarrow> None)
      else if c = ch CHR ''s'' then
        (case args of Ptr s # args' \<Rightarrow> Some (emit (st\<lparr>p_lz := False\<rparr>) s, args') | _ \<Rightarrow> None)
      else Some ([], args))"

section \<open>The state machine\<close>

text \<open>
  One pass through the loop with the current character \<open>c\<close> and the characters \<open>fs\<close> behind it; the
  result is the bytes emitted, the rest of the format, the new state and the arguments left. A
  pass that steps over the terminator has no result.
\<close>

definition state4 :: "u8 \<Rightarrow> cstring \<Rightarrow> pstate \<Rightarrow> parg list \<Rightarrow> (u8 list \<times> cstring \<times> pstate \<times> parg list) option" where
  "state4 c fs st args = do {
     (out, args') \<leftarrow> conversion c st args;
     Some (out, fs, pstate0, args')
   }"

definition state3 :: "u8 \<Rightarrow> cstring \<Rightarrow> pstate \<Rightarrow> parg list \<Rightarrow> (u8 list \<times> cstring \<times> pstate \<times> parg list) option" where
  "state3 c fs st args =
     (if c = ch CHR ''F'' then Some ([], fs, st\<lparr>p_fp := True\<rparr>, args)
      else if c = ch CHR ''N'' then Some ([], fs, st, args)
      else if c = ch CHR ''l'' then Some ([], fs, st\<lparr>p_32 := True\<rparr>, args)
      else if c = ch CHR ''h'' then Some ([], fs, st\<lparr>p_16 := True\<rparr>, args)
      else state4 c fs (st\<lparr>p_state := 4\<rparr>) args)"

definition state2 :: "u8 \<Rightarrow> cstring \<Rightarrow> pstate \<Rightarrow> parg list \<Rightarrow> (u8 list \<times> cstring \<times> pstate \<times> parg list) option" where
  "state2 c fs st args =
     (if ch CHR ''0'' \<le> c \<and> c \<le> ch CHR ''9''
      then Some ([], fs, st\<lparr>p_wd := w32 (10 * p_wd st + unat (c - ch CHR ''0''))\<rparr>, args)
      else state3 c fs (st\<lparr>p_state := 3\<rparr>) args)"

definition state1 :: "u8 \<Rightarrow> cstring \<Rightarrow> pstate \<Rightarrow> parg list \<Rightarrow> (u8 list \<times> cstring \<times> pstate \<times> parg list) option" where
  "state1 c fs st args =
     (if c = ch CHR ''%'' then Some ([c], fs, pstate0, args)
      else if c = ch CHR ''-'' then
        (if p_lj st then Some ([], fs, pstate0, args) else Some ([], fs, st\<lparr>p_lj := True\<rparr>, args))
      else if c = ch CHR ''0'' then
        (case fs of [] \<Rightarrow> None | d # fs' \<Rightarrow> state2 d fs' (st\<lparr>p_state := 2, p_lz := True\<rparr>) args)
      else state2 c fs (st\<lparr>p_state := 2\<rparr>) args)"

definition pf_step :: "u8 \<Rightarrow> cstring \<Rightarrow> pstate \<Rightarrow> parg list \<Rightarrow> (u8 list \<times> cstring \<times> pstate \<times> parg list) option" where
  "pf_step c fs st args =
     (if p_state st = 0 then
        (if c \<noteq> ch CHR ''%'' then Some ([c], fs, st, args)
         else (case fs of [] \<Rightarrow> None | d # fs' \<Rightarrow> state1 d fs' (st\<lparr>p_state := 1\<rparr>) args))
      else if p_state st = 1 then state1 c fs st args
      else if p_state st = 2 then state2 c fs st args
      else if p_state st = 3 then state3 c fs st args
      else state4 c fs st args)"

lemma state4_length: "state4 c fs st args = Some (out, fs', st', args') \<Longrightarrow> fs' = fs"
  by (auto simp: state4_def split: Option.bind_splits)

lemma state3_length: "state3 c fs st args = Some (out, fs', st', args') \<Longrightarrow> fs' = fs"
  by (auto simp: state3_def split: if_splits dest: state4_length)

lemma state2_length: "state2 c fs st args = Some (out, fs', st', args') \<Longrightarrow> fs' = fs"
  by (auto simp: state2_def split: if_splits dest: state3_length)

lemma state1_length: "state1 c fs st args = Some (out, fs', st', args') \<Longrightarrow> length fs' \<le> length fs"
  by (auto simp: state1_def split: if_splits list.splits dest: state2_length)

lemma pf_step_length: "pf_step c fs st args = Some (out, fs', st', args') \<Longrightarrow> length fs' \<le> length fs"
  by (fastforce simp: pf_step_def split: if_splits list.splits
      dest: state1_length state2_length state3_length state4_length)

function pf_loop :: "cstring \<Rightarrow> pstate \<Rightarrow> parg list \<Rightarrow> u8 list option" where
  "pf_loop fmt st args =
     (case fmt of
        [] \<Rightarrow> Some []
      | c # fs \<Rightarrow>
          (case pf_step c fs st args of
             None \<Rightarrow> None
           | Some (out, fs', st', args') \<Rightarrow> map_option (\<lambda>rest. out @ rest) (pf_loop fs' st' args')))"
  by pat_completeness auto
termination
  by (relation "measure (\<lambda>(fmt, st, args). length fmt)") (auto dest: pf_step_length)

declare pf_loop.simps [simp del]

definition do_printf :: "cstring \<Rightarrow> parg list \<Rightarrow> u8 list option" where
  "do_printf fmt args = pf_loop fmt pstate0 args"

section \<open>The printf family\<close>

definition vsprintf_help :: "u8 \<Rightarrow> mem \<times> addr \<Rightarrow> mem \<times> addr" where
  "vsprintf_help c s = (let (m, dst) = s in (m(dst := c), dst + 1))"

definition vsprintf :: "mem \<Rightarrow> addr \<Rightarrow> cstring \<Rightarrow> parg list \<Rightarrow> (nat \<times> mem) option" where
  "vsprintf m buf fmt args = do {
     out \<leftarrow> do_printf fmt args;
     let (m', dst) = fold vsprintf_help out (m, buf);
     let rv = length out;
     Some (rv, m'(buf + rv := 0))
   }"

definition sprintf :: "mem \<Rightarrow> addr \<Rightarrow> cstring \<Rightarrow> parg list \<Rightarrow> (nat \<times> mem) option" where
  "sprintf m buf fmt args = vsprintf m buf fmt args"

text \<open>
  The other members feed each byte to a device: the terminal's \<^verbatim>\<open>printc\<close> or \<^verbatim>\<open>gprintc\<close>, or the serial
  line. \<open>putc\<close> is that function on the state of the device.
\<close>

definition vprintf :: "(u8 \<Rightarrow> 's \<Rightarrow> 's) \<Rightarrow> cstring \<Rightarrow> parg list \<Rightarrow> 's \<Rightarrow> (nat \<times> 's) option" where
  "vprintf putc fmt args s = do {
     out \<leftarrow> do_printf fmt args;
     Some (length out, fold putc out s)
   }"

definition printf :: "(u8 \<Rightarrow> 's \<Rightarrow> 's) \<Rightarrow> cstring \<Rightarrow> parg list \<Rightarrow> 's \<Rightarrow> (nat \<times> 's) option" where
  "printf putc fmt args s = vprintf putc fmt args s"

definition serial_printf :: "(u8 \<Rightarrow> 's \<Rightarrow> 's) \<Rightarrow> cstring \<Rightarrow> parg list \<Rightarrow> 's \<Rightarrow> (nat \<times> 's) option" where
  "serial_printf serial_write fmt args s = vprintf serial_write fmt args s"


section \<open>Numbers\<close>

text \<open>The digits of a number, most significant first, and the number they denote.\<close>

function show_radix :: "bool \<Rightarrow> radix \<Rightarrow> nat \<Rightarrow> u8 list" where
  "show_radix ca r n =
     (if n < radix_val r then [digit_char ca n]
      else show_radix ca r (n div radix_val r) @ [digit_char ca (n mod radix_val r)])"
  by pat_completeness auto
termination
proof (relation "measure (\<lambda>(ca, r, n). n)")
  fix ca r n
  assume "\<not> n < radix_val r"
  then show "((ca, r, n div radix_val r), (ca, r, n)) \<in> measure (\<lambda>(ca, r, n). n)"
    using radix_ge_2 [of r] by (cases "n = 0") auto
qed simp

declare show_radix.simps [simp del]

definition digit_val :: "u8 \<Rightarrow> nat" where
  "digit_val c = (if c \<le> 57 then unat c - 48 else if c \<le> 90 then unat c - 55 else unat c - 87)"

definition read_radix :: "radix \<Rightarrow> u8 list \<Rightarrow> nat" where
  "read_radix r ds = foldl (\<lambda>v c. v * radix_val r + digit_val c) 0 ds"

lemma num_digits_show: "num_digits ca r n w = show_radix ca r n @ w"
proof (induction ca r n w rule: num_digits.induct)
  case (1 ca r n w)
  show ?case
  proof (cases "n < radix_val r")
    case True
    then show ?thesis by (simp add: num_digits.simps [of ca r n] show_radix.simps [of ca r n])
  next
    case False
    then have "n div radix_val r \<noteq> 0" using radix_ge_2 [of r] by (simp add: div_eq_0_iff)
    then show ?thesis
      using "1.IH" [OF refl refl refl] False
      by (simp add: num_digits.simps [of ca r n] show_radix.simps [of ca r n] Let_def)
  qed
qed

lemma digit_char_all:
  "list_all (\<lambda>n. digit_val (digit_char True n) = n \<and> digit_char True n \<noteq> 0) [0..<16]"
  "list_all (\<lambda>n. digit_val (digit_char False n) = n \<and> digit_char False n \<noteq> 0) [0..<16]"
  by code_simp+

lemma digit_char_val: "n < 16 \<Longrightarrow> digit_val (digit_char ca n) = n \<and> digit_char ca n \<noteq> 0"
  using digit_char_all unfolding list_all_iff by (cases ca) auto

lemma radix_le_16: "radix_val r \<le> 16"
  by (cases r) auto

lemma read_show_radix: "read_radix r (show_radix ca r n) = n"
proof (induction ca r n rule: show_radix.induct)
  case (1 ca r n)
  have v: "digit_val (digit_char ca k) = k" if "k < radix_val r" for k
    using digit_char_val [of k ca] that radix_le_16 [of r] by simp
  show ?case
  proof (cases "n < radix_val r")
    case True
    then show ?thesis by (simp add: show_radix.simps [of ca r n] read_radix_def v)
  next
    case False
    have "n mod radix_val r < radix_val r" using radix_ge_2 [of r] by simp
    then show ?thesis using "1.IH" False
      by (simp add: show_radix.simps [of ca r n] read_radix_def v)
  qed
qed

lemma show_radix_nonzero: "c \<in> set (show_radix ca r n) \<Longrightarrow> c \<noteq> 0"
proof (induction ca r n rule: show_radix.induct)
  case (1 ca r n)
  have "digit_char ca k \<noteq> 0" if "k < radix_val r" for k
    using digit_char_val [of k ca] that radix_le_16 [of r] by simp
  moreover have "n mod radix_val r < radix_val r" using radix_ge_2 [of r] by simp
  ultimately show ?case using 1 by (auto simp: show_radix.simps [of ca r n] split: if_splits)
qed

lemma show_radix_length: "0 < k \<Longrightarrow> n < radix_val r ^ k \<Longrightarrow> length (show_radix ca r n) \<le> k"
proof (induction k arbitrary: n)
  case (Suc k)
  show ?case
  proof (cases "n < radix_val r")
    case True
    then show ?thesis by (simp add: show_radix.simps [of ca r n])
  next
    case False
    then have "k \<noteq> 0" using Suc.prems(2) by (cases k) auto
    moreover have "n div radix_val r < radix_val r ^ k"
      using Suc.prems(2) radix_ge_2 [of r] by (simp add: less_mult_imp_div_less mult.commute)
    ultimately show ?thesis using Suc.IH [of "n div radix_val r"] False
      by (simp add: show_radix.simps [of ca r n])
  qed
qed simp

lemma unat_uminus:
  fixes w :: u32
  assumes neg: "sint w < 0"
  shows "unat (- w) = nat (- sint w)"
proof -
  have b: "- (2 ^ 31) \<le> sint w" using sint_ge [of w] by simp
  have w: "word_of_int (- sint w) = - w" by (simp add: wi_hom_neg [symmetric])
  have "uint (- w) = (- sint w) mod 4294967296"
    using uint_word_of_int [of "- sint w", where 'a = 32] unfolding w by simp
  also have "\<dots> = - sint w" using neg b by (intro mod_pos_pos_trivial) auto
  finally show ?thesis by (simp add: unat_eq_nat_uint)
qed

lemma unat_sint_nonneg: "0 \<le> sint (w :: u32) \<Longrightarrow> unat w = nat (sint w)"
proof -
  assume "0 \<le> sint w"
  moreover have "sint w < 2 ^ 31" using sint_lt [of w] by simp
  ultimately have "sint w mod 4294967296 = sint w" by (intro mod_pos_pos_trivial) auto
  then have "uint w = sint w" using uint_word_of_int [of "sint w", where 'a = 32] by simp
  then show ?thesis by (simp add: unat_eq_nat_uint)
qed

section \<open>Fields\<close>

lemma takeWhile_nonzero: "0 \<notin> set w \<Longrightarrow> takeWhile (\<lambda>c. c \<noteq> (0 :: u8)) w = w"
  by (rule takeWhile_eq_all_conv [THEN iffD2]) auto

lemma emit_plain:
  assumes "0 \<notin> set w" and "p_wd st = 0"
  shows "emit st w = (if p_ws st then [ch CHR ''-''] else []) @ w"
  using assms takeWhile_nonzero [OF assms(1)] by (simp add: emit_def emit2_def Let_def del: takeWhile_eq_all_conv)

lemma pf_loop_text:
  assumes "ch CHR ''%'' \<notin> set fs"
  shows "pf_loop (fs @ rest) pstate0 args = map_option (\<lambda>out. fs @ out) (pf_loop rest pstate0 args)"
  using assms
proof (induction fs)
  case Nil
  then show ?case by (simp add: option.map_ident)
next
  case (Cons c fs)
  then have "pf_step c (fs @ rest) pstate0 args = Some ([c], fs @ rest, pstate0, args)"
    by (auto simp: pf_step_def pstate0_def)
  then show ?case using Cons by (subst pf_loop.simps) (cases "pf_loop rest pstate0 args"; simp)
qed

lemma pf_loop_Nil [simp]: "pf_loop [] st args = Some []"
  by (simp add: pf_loop.simps)

lemma fold_vsprintf_help:
  "fold vsprintf_help out (m, buf) =
     ((\<lambda>a. if buf \<le> a \<and> a < buf + length out then out ! (a - buf) else m a), buf + length out)"
proof (induction out rule: rev_induct)
  case (snoc c out)
  show ?case
    unfolding fold_append comp_def snoc.IH fold.simps
    by (auto simp: vsprintf_help_def fun_eq_iff nth_append)
qed (auto simp: fun_eq_iff)


lemma conversion_eval:
  "conversion (ch CHR ''d'') st args = do_num Dec (st\<lparr>p_sg := True\<rparr>) args"
  "conversion (ch CHR ''u'') st args = do_num Dec st args"
  "conversion (ch CHR ''o'') st args = do_num Oct st args"
  "conversion (ch CHR ''x'') st args = do_num Hex st args"
  "conversion (ch CHR ''X'') st args = do_num Hex (st\<lparr>p_ca := True\<rparr>) args"
  by (simp_all add: conversion_def)

text \<open>A percent sign and one conversion character.\<close>

lemma do_printf_single:
  assumes "conversion c (pstate0\<lparr>p_state := 4\<rparr>) args = Some (out, args')"
    and "c \<in> {ch CHR ''d'', ch CHR ''u'', ch CHR ''o'', ch CHR ''x'', ch CHR ''X'', ch CHR ''s''}"
  shows "do_printf [ch CHR ''%'', c] args = Some out"
proof -
  have "pf_step (ch CHR ''%'') [c] pstate0 args = Some (out, [], pstate0, args')"
    using assms by (auto simp: pf_step_def state1_def state2_def state3_def state4_def pstate0_def)
  then show ?thesis unfolding do_printf_def by (subst pf_loop.simps) simp
qed

text \<open>The fields of a longer format, one by one, with the characters as the numbers they are.\<close>

definition decimal_text :: "u32 \<Rightarrow> u8 list" where
  "decimal_text w = (if sint w < 0 then [ch CHR ''-''] else []) @ show_radix False Dec (nat \<bar>sint w\<bar>)"

lemma num_digits_nonzero: "0 \<notin> set (num_digits ca r n [])"
  using show_radix_nonzero [of 0 ca r n] by (auto simp: num_digits_show)

lemma pf_loop_step:
  assumes "pf_step c fs st args = Some (out, fs', st', args')"
  shows "pf_loop (c # fs) st args = map_option (\<lambda>rest. out @ rest) (pf_loop fs' st' args')"
  using assms by (subst pf_loop.simps) simp

lemma plain_field:
  assumes "conversion c (pstate0\<lparr>p_state := 4\<rparr>) args = Some (out, args')" and "c \<in> {100, 88, 115}"
  shows "pf_loop (37 # c # fs) pstate0 args = map_option (\<lambda>rest. out @ rest) (pf_loop fs pstate0 args')"
proof (rule pf_loop_step)
  show "pf_step 37 (c # fs) pstate0 args = Some (out, fs, pstate0, args')"
    using assms by (auto simp: pf_step_def state1_def state2_def state3_def state4_def pstate0_def)
qed

lemma pf_char:
  assumes "c \<noteq> 37"
  shows "pf_loop (c # fs) pstate0 args = map_option (\<lambda>rest. c # rest) (pf_loop fs pstate0 args)"
  using pf_loop_text [of "[c]" fs args] assms by simp

lemma decimal_field: "pf_loop (37 # 100 # fs) pstate0 (Num w # args) = map_option (\<lambda>rest. decimal_text w @ rest) (pf_loop fs pstate0 args)"
  by (rule plain_field) (use emit_plain [OF num_digits_nonzero] unat_uminus [of w] unat_sint_nonneg [of w] in
    \<open>auto simp: conversion_def do_num_def pstate0_def num_digits_show abs_if Let_def decimal_text_def\<close>)

lemma hex_field:
  "pf_loop (37 # 88 # fs) pstate0 (Num w # args) = map_option (\<lambda>rest. show_radix True Hex (unat w) @ rest) (pf_loop fs pstate0 args)"
  by (rule plain_field) (use emit_plain [OF num_digits_nonzero] in
    \<open>auto simp: conversion_def do_num_def pstate0_def num_digits_show Let_def\<close>)

lemma string_field:
  assumes "0 \<notin> set w"
  shows "pf_loop (37 # 115 # fs) pstate0 (Ptr w # args) = map_option (\<lambda>rest. w @ rest) (pf_loop fs pstate0 args)"
  by (rule plain_field) (use emit_plain [OF assms] in \<open>auto simp: conversion_def pstate0_def\<close>)

lemmas pf_fields = do_printf_def str_def pf_char decimal_field hex_field string_field option.map_comp comp_def

section \<open>Properties\<close>

text \<open>
  \<^verbatim>\<open>%d\<close> prints the signed value of its argument in decimal, a minus sign and the digits of the
  absolute value, also for the smallest integer, whose negation wraps around.
\<close>

theorem printf_signed_decimal:
  "do_printf (str ''%d'') [Num w] =
     Some ((if sint w < 0 then [ch CHR ''-''] else []) @ show_radix False Dec (nat \<bar>sint w\<bar>))"
  by (simp add: pf_fields decimal_text_def)

text \<open>
  Property C24. The digits the formatter stores for a number read back as that number in the same radix,
  for octal, decimal and hexadecimal and in either letter case.
\<close>

theorem printf_digits_roundtrip:
  "read_radix r (num_digits ca r n []) = n"
  by (simp add: num_digits_show read_show_radix)

text \<open>
  The digits of a 32 bit number fit the conversion buffer: at most eleven are stored below the
  terminator of the sixteen byte array, whatever the radix.
\<close>

theorem printf_digits_fit_buffer:
  "length (num_digits ca r (unat (w :: u32)) []) \<le> 11"
proof -
  have "unat w < 2 ^ 32" using unsigned_less [of w] by simp
  then have "unat w < radix_val r ^ 11" by (cases r) simp_all
  then show ?thesis by (simp add: num_digits_show show_radix_length)
qed

text \<open>
  A converted field has exactly the given width when its text is shorter, and its own length
  otherwise; this holds for every combination of justification, zero padding and sign.
\<close>

theorem printf_field_width:
  assumes "0 \<notin> set w"
  shows "length (emit st w) = max (p_wd st) (length w + (if p_ws st then 1 else 0))"
  using takeWhile_nonzero [OF assms] by (simp add: emit_def emit2_def Let_def del: takeWhile_eq_all_conv)

theorem printf_field_width_witness:
  "length (emit (pstate0\<lparr>p_wd := 8, p_ws := True, p_lz := True\<rparr>) (str ''42'')) = 8"
  using printf_field_width [of "str ''42''" "pstate0\<lparr>p_wd := 8, p_ws := True, p_lz := True\<rparr>"]
  by (simp add: str_def)

text \<open>
  \<^verbatim>\<open>sprintf\<close> leaves the formatted text as a terminated string in the buffer, returns its length,
  and writes nothing outside the text and its terminator.
\<close>

theorem sprintf_writes_cstr:
  assumes "do_printf fmt args = Some out" and "0 \<notin> set out"
  shows "\<exists>m'. sprintf m buf fmt args = Some (length out, m') \<and> cstr m' buf out \<and>
    (\<forall>a. a < buf \<or> buf + length out < a \<longrightarrow> m' a = m a)"
proof -
  let ?m = "(\<lambda>a. if buf \<le> a \<and> a < buf + length out then out ! (a - buf) else m a)(buf + length out := 0)"
  have "sprintf m buf fmt args = Some (length out, ?m)"
    using assms(1) by (simp add: sprintf_def vsprintf_def fold_vsprintf_help Let_def)
  moreover have "cstr ?m buf out"
    using assms(2) by (auto simp: cstr_iff in_set_conv_nth)
  ultimately show ?thesis by auto
qed

theorem sprintf_writes_cstr_witness:
  "\<exists>m'. sprintf (\<lambda>_. 7) 100 (str ''ok'') [] = Some (2, m') \<and> cstr m' 100 (str ''ok'')"
proof -
  have "do_printf (str ''ok'') [] = Some (str ''ok'')"
    using pf_loop_text [of "str ''ok''" "[]" "[]"] by (simp add: do_printf_def str_def)
  from sprintf_writes_cstr [OF this, of "\<lambda>_. 7" 100] show ?thesis by (auto simp: str_def)
qed

text \<open>
  A format string that ends in a percent sign makes the scanner step over its terminator and
  go on reading behind the string.
\<close>

theorem printf_trailing_percent:
  assumes "ch CHR ''%'' \<notin> set fs"
  shows "do_printf (fs @ [ch CHR ''%'']) args = None"
proof -
  have "pf_step (ch CHR ''%'') [] pstate0 args = None" by (simp add: pf_step_def pstate0_def)
  then have "pf_loop [ch CHR ''%''] pstate0 args = None" by (subst pf_loop.simps) simp
  then show ?thesis using pf_loop_text [OF assms] by (simp add: do_printf_def)
qed

theorem printf_trailing_percent_witness: "do_printf (str ''50'' @ [ch CHR ''%'']) [] = None"
  using printf_trailing_percent [of "str ''50''" "[]"] by (simp add: str_def)

end
