(* ===== verification/Timing.thy ===== *)
theory Timing
  imports Scheduler Printf
begin

text \<open>
  Ticks and timed work: \<^verbatim>\<open>src/kernel/timer.c\<close>, \<^verbatim>\<open>timing.c\<close>, \<^verbatim>\<open>wd.c\<close> and \<^verbatim>\<open>kmonitor.c\<close>. The clock is a 32
  bit counter; \<open>fire_tick\<close> and \<open>repeat_rate\<close> are \<^verbatim>\<open>int\<close>s of the same width, compared as signed numbers
  where the source compares \<^verbatim>\<open>int\<close>s. A handler is a function pointer; the four functions the
  kernel registers are the constructors of \<open>handler\<close>, and \<open>None\<close> is the null pointer. The state
  extends that of the scheduler because \<^verbatim>\<open>scheduler_update\<close> is one of the handlers. A panic is a call
  that does not return.
\<close>

datatype handler = Timing_reaper | Wd_evaluate | Kmonitor_check | Scheduler_update

record timer =
  tm_name :: cstring
  fire_tick :: u32
  repeat_rate :: u32
  tm_no :: u32
  tm_handler :: "handler option"

record ktime = sched +
  handlers :: "timer list"
  timer_hi :: u32
  timer_low :: u32
  timer_device :: u32
  device_resolution :: u32
  wd_kmain :: u32
  wd_kmain_o :: u32
  wd_kmain_hangups :: u32
  wd_total_hangups :: u32
  wd_enabled :: bool

text \<open>The initial values of the globals; the x86 kernel never calls \<^verbatim>\<open>timer_switchDevice\<close>.\<close>

definition ktime0 :: ktime where
  "ktime0 = \<lparr>qnodes = Map.empty, tqueue = NULL, tcurrent = NULL, scheduler_state = False,
     threads = Map.empty, thread_id = 0, current_thread = NULL, handlers = [], timer_hi = 0,
     timer_low = 0, timer_device = 0, device_resolution = 1, wd_kmain = 0, wd_kmain_o = 0,
     wd_kmain_hangups = 0, wd_total_hangups = 0, wd_enabled = True\<rparr>"

section \<open>The table of timers\<close>

definition timer_slots :: nat where
  "timer_slots = 0xFF"

definition zeroed_timer :: timer where
  "zeroed_timer = \<lparr>tm_name = [], fire_tick = 0, repeat_rate = 0, tm_no = 0, tm_handler = None\<rparr>"

definition timer_getHi :: "'a ktime_scheme \<Rightarrow> u32" where
  "timer_getHi s = timer_hi s"

text \<open>The loop of \<^verbatim>\<open>timing_register_timer\<close> stops at the first entry with a zero firing time.\<close>

definition free_index :: "timer list \<Rightarrow> nat" where
  "free_index hs = length (takeWhile (\<lambda>t. fire_tick t \<noteq> 0) hs)"

definition timing_register_timer ::
  "cstring \<Rightarrow> u32 \<Rightarrow> handler option \<Rightarrow> u32 \<Rightarrow> 'a ktime_scheme \<Rightarrow> nat \<times> 'a ktime_scheme" where
  "timing_register_timer name tick h reschedule s =
     (let index = free_index (handlers s)
      in if index = 0xFF then (0xFF, s)
         else (let builder = \<lparr>tm_name = name, fire_tick = tick + timer_getHi s, repeat_rate = reschedule,
                     tm_no = of_nat index, tm_handler = h\<rparr>
               in (index, s\<lparr>handlers := (handlers s)[index := builder]\<rparr>)))"

text \<open>Only the first entry with the handler is removed; a null handler never matches.\<close>

definition timing_deregister_timer :: "handler option \<Rightarrow> 'a ktime_scheme \<Rightarrow> 'a ktime_scheme" where
  "timing_deregister_timer h s =
     (let index = length (takeWhile (\<lambda>t. tm_handler t = None \<or> tm_handler t \<noteq> h) (handlers s))
      in if index < length (handlers s)
         then s\<lparr>handlers := (handlers s)[index :=
                (handlers s ! index)\<lparr>tm_handler := None, repeat_rate := 0, fire_tick := 0\<rparr>]\<rparr>
         else s)"

definition timing_remove_index :: "nat \<Rightarrow> 'a ktime_scheme \<Rightarrow> 'a ktime_scheme option" where
  "timing_remove_index index s =
     (if index < length (handlers s)
      then Some (s\<lparr>handlers := (handlers s)[index := (handlers s ! index)\<lparr>repeat_rate := 0\<rparr>]\<rparr>)
      else None)"

definition reap :: "u32 \<Rightarrow> timer \<Rightarrow> timer" where
  "reap tick t =
     (if fire_tick t = 0 then t
      else if fire_tick t <s tick then t\<lparr>fire_tick := 0, repeat_rate := 0, tm_handler := None\<rparr>
      else t)"

definition timing_reaper :: "'a ktime_scheme \<Rightarrow> 'a ktime_scheme" where
  "timing_reaper s = s\<lparr>handlers := map (reap (timer_getHi s)) (handlers s)\<rparr>"

definition timing_init :: "'a ktime_scheme \<Rightarrow> 'a ktime_scheme" where
  "timing_init s =
     snd (timing_register_timer (str ''timer_reaper'') 100 (Some Timing_reaper) 100
            (s\<lparr>handlers := replicate timer_slots zeroed_timer\<rparr>))"

text \<open>What \<^verbatim>\<open>list_timers\<close> prints: a heading and a line for every timer in use.\<close>

definition timer_line :: "u32 \<Rightarrow> nat \<Rightarrow> timer \<Rightarrow> u8 list option" where
  "timer_line current_time index t =
     (if fire_tick t = 0 then Some []
      else (let rep_in = fire_tick t - current_time;
                (rep_in', unit) = (if 1000 <s rep_in then (rep_in div 1000, str ''s'') else (rep_in, str ''ms''))
            in do_printf (str ''[%02x]:%-15s|%8d%2s|%-04dms'' @ [10])
                 [Num (of_nat index), Ptr (tm_name t), Num rep_in', Ptr unit, Num (repeat_rate t)]))"

definition list_timers :: "'a ktime_scheme \<Rightarrow> u8 list option" where
  "list_timers s = do {
     heading \<leftarrow> do_printf (str '' ID |%-11sNAME|NEXT    ms|REP ms'' @ [10]) [Ptr [], Num 0, Num 0];
     foldM (\<lambda>(index, t) out. map_option ((@) out) (timer_line (timer_getHi s) index t))
       (enumerate 0 (handlers s)) heading
   }"

section \<open>The watchdog and the monitor\<close>

definition WD_HU_LIMIT :: u32 where "WD_HU_LIMIT = 0x500"

definition WD_NOTIFY_KMAIN :: u32 where "WD_NOTIFY_KMAIN = 0x10"

definition WD_HU_LIMIT_KMAIN :: u32 where "WD_HU_LIMIT_KMAIN = 200"

definition wd_disable :: "'a ktime_scheme \<Rightarrow> 'a ktime_scheme" where
  "wd_disable s = s\<lparr>wd_enabled := False\<rparr>"

definition wd_enable :: "'a ktime_scheme \<Rightarrow> 'a ktime_scheme" where
  "wd_enable s = s\<lparr>wd_enabled := True\<rparr>"

definition wd_notify :: "u32 \<Rightarrow> 'a ktime_scheme \<Rightarrow> 'a ktime_scheme" where
  "wd_notify source s =
     (if \<not> wd_enabled s then s
      else if source = WD_NOTIFY_KMAIN then s\<lparr>wd_kmain := wd_kmain s + 1\<rparr> else s)"

definition wd_evaluate :: "'a ktime_scheme \<Rightarrow> 'a ktime_scheme option" where
  "wd_evaluate s =
     (let s1 = (if wd_kmain s = wd_kmain_o s
                then s\<lparr>wd_total_hangups := wd_total_hangups s + 1, wd_kmain_hangups := wd_kmain_hangups s + 1\<rparr>
                else s)
      in if WD_HU_LIMIT <s wd_total_hangups s1 then None
         else if WD_HU_LIMIT_KMAIN <s wd_kmain_hangups s1 then None
         else Some (s1\<lparr>wd_kmain_o := wd_kmain s1\<rparr>))"

definition wd_init :: "'a ktime_scheme \<Rightarrow> 'a ktime_scheme" where
  "wd_init s = snd (timing_register_timer (str ''kernel_wd'') 25 (Some Wd_evaluate) 25 s)"

definition kmonitor_check :: "'a ktime_scheme \<Rightarrow> 'a ktime_scheme" where
  "kmonitor_check s = s"

definition kmonitor_init :: "'a ktime_scheme \<Rightarrow> 'a ktime_scheme" where
  "kmonitor_init s = snd (timing_register_timer (str ''kmonitor_wd'') 10 (Some Kmonitor_check) 10 s)"

definition scheduler_init :: "addr \<Rightarrow> addr \<Rightarrow> 'a ktime_scheme \<Rightarrow> 'a ktime_scheme" where
  "scheduler_init a first_thread s =
     snd (timing_register_timer (str ''scheduler_update'') 5 (Some Scheduler_update) 5
            (scheduler_start a first_thread s))"

section \<open>Ticks\<close>

definition call_handler :: "handler \<Rightarrow> 'a ktime_scheme \<Rightarrow> 'a ktime_scheme option" where
  "call_handler h s =
     (case h of
        Timing_reaper \<Rightarrow> Some (timing_reaper s)
      | Wd_evaluate \<Rightarrow> wd_evaluate s
      | Kmonitor_check \<Rightarrow> Some (kmonitor_check s)
      | Scheduler_update \<Rightarrow> scheduler_update s)"

definition cyclic_task :: "u32 \<Rightarrow> nat \<Rightarrow> 'a ktime_scheme \<Rightarrow> 'a ktime_scheme option" where
  "cyclic_task tick i s =
     (let t = handlers s ! i
      in if fire_tick t = 0 then Some s
         else if fire_tick t = tick then do {
           h \<leftarrow> tm_handler t;
           s' \<leftarrow> call_handler h s;
           let t' = handlers s' ! i;
           Some (if repeat_rate t' \<noteq> 0
                 then s'\<lparr>handlers := (handlers s')[i := t'\<lparr>fire_tick := tick + repeat_rate t'\<rparr>]\<rparr>
                 else s')
         }
         else Some s)"

definition cyclic_tasks :: "u32 \<Rightarrow> 'a ktime_scheme \<Rightarrow> 'a ktime_scheme option" where
  "cyclic_tasks tick s = foldM (cyclic_task tick) [0..<timer_slots] s"

definition timer_switchDevice :: "u32 \<Rightarrow> 'a ktime_scheme \<Rightarrow> 'a ktime_scheme" where
  "timer_switchDevice device_id s =
     (if device_id = 0 then s\<lparr>timer_device := 0, device_resolution := 1\<rparr>
      else if device_id = 2 then s\<lparr>timer_device := 2, device_resolution := 1\<rparr>
      else s\<lparr>timer_device := 0, device_resolution := 1\<rparr>)"

definition timer_recieveTick :: "u32 \<Rightarrow> 'a ktime_scheme \<Rightarrow> 'a ktime_scheme option" where
  "timer_recieveTick device_id s =
     (if device_id = timer_device s
      then (let s1 = s\<lparr>timer_hi := timer_hi s + 1\<rparr>;
                s2 = (if timer_hi s1 mod (device_resolution s1 * 1000) = 0
                      then s1\<lparr>timer_low := timer_low s1 + 1\<rparr> else s1)
            in cyclic_tasks (timer_hi s2) s2)
      else Some s)"

definition timer_getUptime :: "'a ktime_scheme \<Rightarrow> u32" where
  "timer_getUptime s = timer_hi s div (device_resolution s * 1000)"

definition timer_getDevice :: "'a ktime_scheme \<Rightarrow> u32" where
  "timer_getDevice s = timer_device s"

definition timer_getDeviceRes :: "'a ktime_scheme \<Rightarrow> u32" where
  "timer_getDeviceRes s = device_resolution s"

definition timer_getLow :: "'a ktime_scheme \<Rightarrow> u32" where
  "timer_getLow s = timer_low s"

definition timer_getDeviceString :: "u32 \<Rightarrow> cstring" where
  "timer_getDeviceString device =
     (if device = 0 then str ''Programmable interrupt timer''
      else if device = 1 then str ''Real time clock''
      else if device = 2 then str ''ARM Integrated''
      else str ''Unknown'')"

section \<open>What a handler may do to the table\<close>

definition table_ok :: "'a ktime_scheme \<Rightarrow> bool" where
  "table_ok s \<longleftrightarrow> length (handlers s) = timer_slots"

text \<open>A timer is due or pending when its firing time is not behind the clock.\<close>

definition pending :: "u32 \<Rightarrow> timer \<Rightarrow> bool" where
  "pending tick t \<longleftrightarrow> fire_tick t \<noteq> 0 \<and> \<not> fire_tick t <s tick"

lemma reap_pending [simp]: "pending tick t \<Longrightarrow> reap tick t = t"
  by (simp add: pending_def reap_def)

lemma scheduler_update_frame:
  assumes "scheduler_update s = Some s'"
  shows "handlers s' = handlers s \<and> timer_hi s' = timer_hi s"
  using assms by (auto simp: scheduler_update_def Let_def split: if_splits Option.bind_splits)

lemma wd_evaluate_frame:
  assumes "wd_evaluate s = Some s'"
  shows "handlers s' = handlers s \<and> timer_hi s' = timer_hi s"
  using assms by (auto simp: wd_evaluate_def Let_def split: if_splits)

lemma call_handler_frame:
  assumes "call_handler h s = Some s'"
  shows "timer_hi s' = timer_hi s \<and>
    (handlers s' = handlers s \<or> handlers s' = map (reap (timer_hi s)) (handlers s))"
  using assms scheduler_update_frame [of s s'] wd_evaluate_frame [of s s']
  by (cases h) (auto simp: call_handler_def timing_reaper_def kmonitor_check_def timer_getHi_def)

text \<open>The three facts about a pass over slot \<open>j\<close> that the proofs about slot \<open>i\<close> use.\<close>

lemma cyclic_task_frame:
  assumes "cyclic_task tick j s = Some s'"
  shows "timer_hi s' = timer_hi s \<and> length (handlers s') = length (handlers s)"
  using assms call_handler_frame [of _ s]
  by (auto simp: cyclic_task_def Let_def split: if_splits Option.bind_splits dest!: call_handler_frame)

lemma cyclic_task_other:
  assumes "cyclic_task (timer_hi s) j s = Some s'" and "j \<noteq> i" and "i < length (handlers s)"
    and "pending (timer_hi s) (handlers s ! i)"
  shows "handlers s' ! i = handlers s ! i"
  using assms
  by (auto simp: cyclic_task_def Let_def split: if_splits Option.bind_splits dest!: call_handler_frame)

lemma cyclic_task_own:
  assumes "cyclic_task (timer_hi s) i s = Some s'" and "i < length (handlers s)"
    and "pending (timer_hi s) (handlers s ! i)" and "repeat_rate (handlers s ! i) \<noteq> 0"
  shows "handlers s' ! i = (if fire_tick (handlers s ! i) = timer_hi s
    then (handlers s ! i)\<lparr>fire_tick := timer_hi s + repeat_rate (handlers s ! i)\<rparr> else handlers s ! i)"
  using assms
  by (auto simp: cyclic_task_def Let_def pending_def [of _ "handlers s ! i"]
      split: if_splits Option.bind_splits dest!: call_handler_frame)

lemma cyclic_others:
  assumes "foldM (cyclic_task tick) js s = Some s'" and "i \<notin> set js" and "i < length (handlers s)"
    and "timer_hi s = tick" and "pending tick (handlers s ! i)"
  shows "handlers s' ! i = handlers s ! i \<and> timer_hi s' = tick \<and> length (handlers s') = length (handlers s)"
proof -
  let ?P = "\<lambda>u. handlers u ! i = handlers s ! i \<and> timer_hi u = tick \<and> length (handlers u) = length (handlers s)"
  show ?thesis
  proof (rule foldM_invariant [OF assms(1), where P = ?P])
    show "?P s" using assms by simp
  next
    fix j u v
    assume j: "j \<in> set js" and u: "?P u" and v: "cyclic_task tick j u = Some v"
    have "j \<noteq> i" using j assms(2) by auto
    with cyclic_task_other [of u j v i] cyclic_task_frame [OF v] u v assms show "?P v" by simp
  qed
qed

lemma cyclic_tasks_slot:
  assumes "cyclic_tasks tick s = Some s'" and "table_ok s" and "i < timer_slots" and "timer_hi s = tick"
    and "t = handlers s ! i" and "pending tick t" and "repeat_rate t \<noteq> 0"
    and "pending tick (t\<lparr>fire_tick := tick + repeat_rate t\<rparr>)"
  shows "table_ok s' \<and> timer_hi s' = tick \<and>
    handlers s' ! i = (if fire_tick t = tick then t\<lparr>fire_tick := tick + repeat_rate t\<rparr> else t)"
proof -
  have len: "i < length (handlers s)" using assms by (simp add: table_ok_def)
  have "[0..<timer_slots] = [0..<i] @ i # [Suc i..<timer_slots]"
    using assms(3) by (metis le0 less_imp_le_nat upt_add_eq_append upt_conv_Cons le_add_diff_inverse)
  then obtain u v where u: "foldM (cyclic_task tick) [0..<i] s = Some u"
    and v: "cyclic_task tick i u = Some v" and w: "foldM (cyclic_task tick) [Suc i..<timer_slots] v = Some s'"
    using assms(1) by (auto simp: cyclic_tasks_def foldM_append split: Option.bind_splits)
  have U: "handlers u ! i = t" "timer_hi u = tick" "length (handlers u) = length (handlers s)"
    using cyclic_others [OF u] assms len by auto
  have V: "handlers v ! i = (if fire_tick t = tick then t\<lparr>fire_tick := tick + repeat_rate t\<rparr> else t)"
    using cyclic_task_own [of u i v] v U assms len by simp
  have fr: "timer_hi v = tick" "length (handlers v) = length (handlers s)"
    using cyclic_task_frame [OF v] U by auto
  have "pending tick (handlers v ! i)" using V assms by simp
  with cyclic_others [OF w, of i] fr V assms len show ?thesis by (simp add: table_ok_def)
qed

lemma cyclic_task_device:
  assumes "cyclic_task tick j s = Some s'"
  shows "timer_device s' = timer_device s"
proof -
  have "timer_device v = timer_device u" if "call_handler h u = Some v" for h and u v :: "'a ktime_scheme"
    using that by (cases h) (auto simp: call_handler_def timing_reaper_def kmonitor_check_def wd_evaluate_def
        scheduler_update_def Let_def split: if_splits Option.bind_splits)
  with assms show ?thesis by (auto simp: cyclic_task_def Let_def split: if_splits Option.bind_splits)
qed

lemma timer_recieveTick_slot:
  assumes "timer_recieveTick (timer_device s) s = Some s'" and "table_ok s" and "i < timer_slots"
    and "timer_hi s + 1 = tick"
    and "t = handlers s ! i" and "pending tick t" and "repeat_rate t \<noteq> 0"
    and "pending tick (t\<lparr>fire_tick := tick + repeat_rate t\<rparr>)"
  shows "table_ok s' \<and> timer_hi s' = tick \<and> timer_device s' = timer_device s \<and>
    handlers s' ! i = (if fire_tick t = tick then t\<lparr>fire_tick := tick + repeat_rate t\<rparr> else t)"
proof -
  obtain u where u: "cyclic_tasks tick u = Some s'" "handlers u = handlers s" "timer_hi u = tick"
      "timer_device u = timer_device s"
    using assms(1,4) by (auto simp: timer_recieveTick_def Let_def split: if_splits)
  have "timer_device s' = timer_device u"
    using u(1) unfolding cyclic_tasks_def by (rule foldM_invariant) (auto dest: cyclic_task_device)
  with cyclic_tasks_slot [OF u(1), of i t] assms u show ?thesis by (simp add: table_ok_def)
qed

text \<open>
  What a tick does to slot \<open>i\<close>: the clock advances, the slots before it have their turn, then \<open>i\<close>, then the others. In its turn
  a timer that is due calls its handler and sets its next firing time.
\<close>

definition clock_on :: "'a ktime_scheme \<Rightarrow> 'a ktime_scheme" where
  "clock_on s =
     (let s1 = s\<lparr>timer_hi := timer_hi s + 1\<rparr>
      in if timer_hi s1 mod (device_resolution s1 * 1000) = 0 then s1\<lparr>timer_low := timer_low s1 + 1\<rparr> else s1)"

definition fire :: "nat \<Rightarrow> handler \<Rightarrow> 'a ktime_scheme \<Rightarrow> 'a ktime_scheme option" where
  "fire i h s = do {
     w \<leftarrow> call_handler h s;
     Some (w\<lparr>handlers := (handlers w)[i := (handlers w ! i)\<lparr>fire_tick := timer_hi s + repeat_rate (handlers w ! i)\<rparr>]\<rparr>)
   }"

definition slot_turn :: "nat \<Rightarrow> ('a ktime_scheme \<Rightarrow> 'a ktime_scheme option) \<Rightarrow> 'a ktime_scheme \<Rightarrow> 'a ktime_scheme \<Rightarrow> bool" where
  "slot_turn i turn s s' \<longleftrightarrow>
     (\<exists>v w. foldM (cyclic_task (timer_hi s + 1)) [0..<i] (clock_on s) = Some v \<and> turn v = Some w \<and>
        foldM (cyclic_task (timer_hi s + 1)) [Suc i..<timer_slots] w = Some s')"

lemma clock_on_simps [simp]:
  "timer_hi (clock_on s) = timer_hi s + 1" "handlers (clock_on s) = handlers s" "timer_device (clock_on s) = timer_device s"
  by (simp_all add: clock_on_def Let_def)

lemma cyclic_task_fire:
  assumes "handlers u ! i = t" and "i < length (handlers u)" and "tm_handler t = Some h" and "pending (timer_hi u) t" and "repeat_rate t \<noteq> 0"
  shows "cyclic_task (timer_hi u) i u = (if fire_tick t = timer_hi u then fire i h u else Some u)"
proof -
  have "repeat_rate (handlers w ! i) \<noteq> 0" if "call_handler h u = Some w" for w
    using call_handler_frame [OF that] assms by auto
  then show ?thesis using assms by (auto simp: cyclic_task_def fire_def Let_def pending_def split: Option.bind_split)
qed

lemma timer_recieveTick_turn:
  assumes "timer_recieveTick (timer_device s) s = Some s'" and "table_ok s" and "i < timer_slots"
    and "handlers s ! i = t" and "tm_handler t = Some h" and "pending (timer_hi s + 1) t" and "repeat_rate t \<noteq> 0"
  shows "slot_turn i (if fire_tick t = timer_hi s + 1 then fire i h else Some) s s'"
proof -
  have "cyclic_tasks (timer_hi s + 1) (clock_on s) = Some s'"
    using assms(1) by (simp add: timer_recieveTick_def clock_on_def Let_def split: if_splits)
  moreover have "[0..<timer_slots] = [0..<i] @ i # [Suc i..<timer_slots]"
    using assms(3) by (metis le0 less_imp_le_nat upt_add_eq_append upt_conv_Cons le_add_diff_inverse)
  ultimately obtain u v where u: "foldM (cyclic_task (timer_hi s + 1)) [0..<i] (clock_on s) = Some u"
    and v: "cyclic_task (timer_hi s + 1) i u = Some v" and w: "foldM (cyclic_task (timer_hi s + 1)) [Suc i..<timer_slots] v = Some s'"
    by (auto simp: cyclic_tasks_def foldM_append split: Option.bind_splits)
  have "handlers u ! i = t" "timer_hi u = timer_hi s + 1" "length (handlers u) = length (handlers s)"
    using cyclic_others [OF u, of i] assms(2-4,6) by (auto simp: table_ok_def)
  with cyclic_task_fire [of u i t h] v assms(2,3,5-7)
  have "(if fire_tick t = timer_hi s + 1 then fire i h else Some) u = Some v" by (simp add: table_ok_def split: if_splits)
  with u w show ?thesis unfolding slot_turn_def by blast
qed

text \<open>
  The rhythm of a repeating timer: its firing time \<open>G\<close> is the first of \<open>F, F + r, F + 2 r, ...\<close> that is
  later than \<open>now\<close>.
\<close>

definition on_rhythm :: "nat \<Rightarrow> nat \<Rightarrow> nat \<Rightarrow> nat \<Rightarrow> bool" where
  "on_rhythm F r now G \<longleftrightarrow>
     (\<exists>k. G = F + k * r \<and> now < G \<and> (k = 0 \<or> F + (k - 1) * r \<le> now))"

lemma on_rhythm_step:
  assumes "on_rhythm F r now G" and "0 < r"
  shows "on_rhythm F r (Suc now) (if G = Suc now then Suc now + r else G)"
proof -
  obtain k where k: "G = F + k * r" "now < G" "k = 0 \<or> F + (k - 1) * r \<le> now"
    using assms(1) unfolding on_rhythm_def by blast
  show ?thesis
  proof (cases "G = Suc now")
    case True
    with k assms(2) show ?thesis unfolding on_rhythm_def by (intro exI [of _ "Suc k"]) auto
  next
    case False
    with k show ?thesis unfolding on_rhythm_def by (intro exI [of _ k]) auto
  qed
qed

lemma on_rhythm_due:
  assumes "on_rhythm F r now G"
  shows "G = Suc now \<longleftrightarrow> F \<le> Suc now \<and> r dvd (Suc now - F)"
proof -
  obtain k where k: "G = F + k * r" "now < G" "k = 0 \<or> F + (k - 1) * r \<le> now"
    using assms unfolding on_rhythm_def by blast
  have "G = Suc now" if le: "F \<le> Suc now" and dvd: "r dvd (Suc now - F)"
  proof -
    obtain c where "Suc now - F = r * c" using dvd by (rule dvdE)
    then have c: "Suc now = F + c * r" using le by (simp add: mult.commute)
    show ?thesis
    proof (cases "k \<le> c")
      case True
      then have "k * r \<le> c * r" by (rule mult_le_mono1)
      then show ?thesis using c k(1,2) by linarith
    next
      case False
      then have "c \<le> k - 1" by simp
      then have "c * r \<le> (k - 1) * r" by (rule mult_le_mono1)
      moreover have "F + (k - 1) * r \<le> now" using False k(3) by simp
      ultimately show ?thesis using c by linarith
    qed
  qed
  moreover have "F \<le> Suc now \<and> r dvd (Suc now - F)" if g: "G = Suc now"
    unfolding g [symmetric] k(1) by simp
  ultimately show ?thesis by blast
qed

lemma on_rhythm_bound:
  "on_rhythm F r now G \<Longrightarrow> F < b \<Longrightarrow> now + r < b \<Longrightarrow> G < b"
  unfolding on_rhythm_def by (auto simp: diff_mult_distrib split: nat_diff_split)

lemma pending_of_nat:
  "\<lbrakk>now \<le> G; 0 < G; G < 2147483648\<rbrakk> \<Longrightarrow> pending (of_nat now) (t\<lparr>fire_tick := of_nat G\<rparr>)"
  by (auto simp: pending_def sless_of_small_nat of_nat_u32_eq_0)

lemma periodic_tick:
  assumes "timer_recieveTick d u = Some s'" and "table_ok u" and "timer_device u = d" and "i < timer_slots"
    and "timer_hi u = of_nat now" and "handlers u ! i = t\<lparr>fire_tick := of_nat G\<rparr>"
    and "repeat_rate t = of_nat r" and "0 < r" and "now < G" and "G < 2147483648"
    and "Suc now + r < 2147483648"
  shows "table_ok s' \<and> timer_device s' = d \<and> timer_hi s' = of_nat (Suc now) \<and>
    handlers s' ! i = t\<lparr>fire_tick := of_nat (if G = Suc now then Suc now + r else G)\<rparr>"
proof -
  have p1: "pending (of_nat (Suc now)) (t\<lparr>fire_tick := of_nat G\<rparr>)"
    using assms by (intro pending_of_nat) auto
  have p2: "pending (of_nat (Suc now)) (t\<lparr>fire_tick := of_nat (Suc now + r)\<rparr>)"
    using assms by (intro pending_of_nat) auto
  have r0: "(of_nat r :: u32) \<noteq> 0" using assms by (simp add: of_nat_u32_eq_0)
  have eq: "(of_nat G = (of_nat (Suc now) :: u32)) = (G = Suc now)"
    using assms by (intro of_nat_u32_eq) auto
  from timer_recieveTick_slot [of u s' i "of_nat (Suc now)" "t\<lparr>fire_tick := of_nat G\<rparr>"] p1 p2 r0 assms eq
  show ?thesis by (auto simp: ac_simps)
qed

lemma timer_rhythm:
  assumes "times n (timer_recieveTick d) s = Some s'"
    and "table_ok s" and "i < timer_slots" and "timer_device s = d" and "timer_hi s = of_nat H"
    and "t = handlers s ! i" and "fire_tick t = of_nat F" and "repeat_rate t = of_nat r"
    and "0 < r" and "H < F" and "F < 2147483648" and "H + n + r < 2147483648"
  shows "table_ok s' \<and> timer_device s' = d \<and> timer_hi s' = of_nat (H + n) \<and>
    (\<exists>G. on_rhythm F r (H + n) G \<and> G < 2147483648 \<and> handlers s' ! i = t\<lparr>fire_tick := of_nat G\<rparr>)"
  using assms(1,12)
proof (induction n arbitrary: s')
  case 0
  have "on_rhythm F r H F" using assms(10) by (auto simp: on_rhythm_def intro: exI [of _ 0])
  moreover have "t\<lparr>fire_tick := of_nat F\<rparr> = t" using assms(7) by simp
  ultimately show ?case using 0 assms(2-6,11) by auto
next
  case (Suc n)
  then obtain u where u: "times n (timer_recieveTick d) s = Some u" "timer_recieveTick d u = Some s'"
    by (auto simp: times_Suc_right simp del: times.simps split: Option.bind_splits)
  with Suc obtain G where G: "table_ok u" "timer_device u = d" "timer_hi u = of_nat (H + n)"
      "on_rhythm F r (H + n) G" "G < 2147483648" "handlers u ! i = t\<lparr>fire_tick := of_nat G\<rparr>" by auto
  have "H + n < G" using G(4) by (auto simp: on_rhythm_def)
  from periodic_tick [OF u(2) G(1,2) assms(3) G(3,6) assms(8,9) this G(5)] Suc.prems(2)
    on_rhythm_step [OF G(4) assms(9)] G(5)
  show ?case by auto
qed

text \<open>
  Property C12. A repeating timer keeps its rhythm: while the clock, with one period to spare, stays below \<open>2\<^sup>3\<^sup>1\<close> (behind it the
  reaper would take its firing time for a past one), its handler is called, in its turn among the timers, in the ticks
  \<open>F, F + r, F + 2 r, ...\<close> and in no others, and after any number of ticks its entry is still there with the next
  of these as its firing time. No other handler, the reaper included, disturbs it.
\<close>

theorem timer_periodic:
  assumes "times n (timer_recieveTick d) s = Some s'"
    and "table_ok s" and "i < timer_slots" and "timer_device s = d" and "timer_hi s = of_nat H"
    and "t = handlers s ! i" and "fire_tick t = of_nat F" and "repeat_rate t = of_nat r" and "tm_handler t = Some h"
    and "0 < r" and "H < F" and "F < 2147483648" and "H + n + r < 2147483648"
  shows "(\<forall>m < n. \<exists>u u'. times m (timer_recieveTick d) s = Some u \<and> timer_recieveTick d u = Some u' \<and>
      slot_turn i (if F \<le> H + Suc m \<and> r dvd (H + Suc m - F) then fire i h else Some) u u') \<and>
    (\<exists>G. on_rhythm F r (H + n) G \<and> handlers s' ! i = t\<lparr>fire_tick := of_nat G\<rparr>)"
proof -
  note rhythm = timer_rhythm [OF _ assms(2-8,10-12)]
  have "\<exists>u u'. times m (timer_recieveTick d) s = Some u \<and> timer_recieveTick d u = Some u' \<and>
      slot_turn i (if F \<le> H + Suc m \<and> r dvd (H + Suc m - F) then fire i h else Some) u u'" if m: "m < n" for m
  proof -
    have "times n (timer_recieveTick d) s =
        Option.bind (Option.bind (times m (timer_recieveTick d) s) (timer_recieveTick d)) (times (n - Suc m) (timer_recieveTick d))"
      using times_add [of "Suc m" "n - Suc m" "timer_recieveTick d" s] m by (simp add: times_Suc_right del: times.simps)
    then obtain u u' where u: "times m (timer_recieveTick d) s = Some u" "timer_recieveTick d u = Some u'"
      using assms(1) by (auto split: Option.bind_splits)
    obtain G where G: "table_ok u" "timer_device u = d" "timer_hi u = of_nat (H + m)"
        "on_rhythm F r (H + m) G" "G < 2147483648" "handlers u ! i = t\<lparr>fire_tick := of_nat G\<rparr>"
      using rhythm [OF u(1)] assms(13) m by auto
    have "H + m < G" using G(4) by (auto simp: on_rhythm_def)
    then have p: "pending (timer_hi u + 1) (t\<lparr>fire_tick := of_nat G\<rparr>)"
      using pending_of_nat [of "Suc (H + m)" G t] G(3,5) by (simp add: ac_simps)
    have "(of_nat r :: u32) \<noteq> 0" using assms(10,13) by (simp add: of_nat_u32_eq_0)
    moreover have "(of_nat G = (of_nat (Suc (H + m)) :: u32)) = (G = Suc (H + m))"
      using G(5) assms(13) m by (intro of_nat_u32_eq) auto
    ultimately show ?thesis
      using timer_recieveTick_turn [OF _ G(1) assms(3) G(6) _ p, of u' h] u G(2,3) assms(8,9) on_rhythm_due [OF G(4)]
      by (auto simp: ac_simps)
  qed
  then show ?thesis using rhythm [OF assms(1,13)] by blast
qed

section \<open>The timers of a booted kernel\<close>

text \<open>After \<^verbatim>\<open>timing_init\<close> and \<^verbatim>\<open>wd_init\<close> the table holds the reaper and the watchdog.\<close>

definition boot_table :: "nat \<Rightarrow> nat \<Rightarrow> timer list" where
  "boot_table a b =
     \<lparr>tm_name = str ''timer_reaper'', fire_tick = of_nat a, repeat_rate = 100, tm_no = 0, tm_handler = Some Timing_reaper\<rparr> #
     \<lparr>tm_name = str ''kernel_wd'', fire_tick = of_nat b, repeat_rate = 25, tm_no = 1, tm_handler = Some Wd_evaluate\<rparr> #
     replicate 253 zeroed_timer"

lemma boot_table_nth: "2 \<le> i \<Longrightarrow> i < timer_slots \<Longrightarrow> boot_table a b ! i = zeroed_timer"
  by (auto simp: boot_table_def timer_slots_def nth_Cons' nth_replicate)

lemma boot_table_slots [simp]:
  "fire_tick (boot_table a b ! 0) = of_nat a" "repeat_rate (boot_table a b ! 0) = 100"
  "tm_handler (boot_table a b ! 0) = Some Timing_reaper"
  "fire_tick (boot_table a b ! Suc 0) = of_nat b" "repeat_rate (boot_table a b ! Suc 0) = 25"
  "tm_handler (boot_table a b ! Suc 0) = Some Wd_evaluate"
  by (simp_all add: boot_table_def)

lemma boot_table_update:
  "(boot_table a b)[0 := (boot_table a b ! 0)\<lparr>fire_tick := of_nat x\<rparr>] = boot_table x b"
  "(boot_table a b)[Suc 0 := (boot_table a b ! Suc 0)\<lparr>fire_tick := of_nat x\<rparr>] = boot_table a x"
  by (simp_all add: boot_table_def)

lemma timing_register_first_free:
  assumes "handlers s = xs @ t # ys" and "\<forall>x \<in> set xs. fire_tick x \<noteq> 0" and "fire_tick t = 0"
    and "length xs \<noteq> 0xFF"
  shows "timing_register_timer name tick h rate s =
    (length xs, s\<lparr>handlers := xs @ \<lparr>tm_name = name, fire_tick = tick + timer_hi s, repeat_rate = rate,
       tm_no = of_nat (length xs), tm_handler = h\<rparr> # ys\<rparr>)"
proof -
  have "free_index (handlers s) = length xs" using assms by (simp add: free_index_def)
  with assms show ?thesis by (simp add: timing_register_timer_def Let_def timer_getHi_def)
qed

lemma fire_tick_zeroed [simp]: "fire_tick zeroed_timer = 0"
  by (simp add: zeroed_timer_def)

lemma boot_handlers:
  assumes "timer_hi s = 0"
  shows "handlers (wd_init (timing_init s)) = boot_table 100 25"
proof -
  have z1: "replicate timer_slots zeroed_timer = [] @ zeroed_timer # replicate 254 zeroed_timer"
    using replicate_Suc [of 254 zeroed_timer] by (simp add: timer_slots_def)
  have z2: "replicate 254 zeroed_timer = zeroed_timer # replicate 253 zeroed_timer"
    using replicate_Suc [of 253 zeroed_timer] by simp
  let ?R = "\<lparr>tm_name = str ''timer_reaper'', fire_tick = 100, repeat_rate = 100, tm_no = 0,
    tm_handler = Some Timing_reaper\<rparr>"
  have "timing_init s = s\<lparr>handlers := [] @ ?R # replicate 254 zeroed_timer\<rparr>"
    unfolding timing_init_def using assms
    by (subst timing_register_first_free [where xs = "[]" and t = zeroed_timer, OF _ _ _]) (simp_all add: z1)
  then have "handlers (timing_init s) = [?R] @ zeroed_timer # replicate 253 zeroed_timer" "timer_hi (timing_init s) = 0"
    using assms by (simp_all add: z2)
  then show ?thesis
    unfolding wd_init_def
    by (subst timing_register_first_free [where xs = "[?R]" and t = zeroed_timer, OF _ _ _])
      (simp_all add: boot_table_def)
qed

lemma reap_boot_table:
  assumes "now \<le> a" and "now \<le> b" and "0 < a" and "0 < b" and "a < 2147483648" and "b < 2147483648"
  shows "map (reap (of_nat now)) (boot_table a b) = boot_table a b"
  using assms
  by (simp add: boot_table_def reap_def zeroed_timer_def sless_of_small_nat not_less)

lemma boot_cyclic_tasks:
  assumes h: "handlers s = boot_table a b" and now: "timer_hi s = of_nat now"
    and b: "now \<le> a" "now \<le> b" "0 < now" "a < 2147483648" "b < 2147483648" "now + 100 < 2147483648"
  shows "cyclic_tasks (of_nat now) s =
    (let s1 = s\<lparr>handlers := boot_table (if a = now then now + 100 else a) b\<rparr>
     in if b = now
        then map_option (\<lambda>v. v\<lparr>handlers := boot_table (if a = now then now + 100 else a) (now + 25)\<rparr>) (wd_evaluate s1)
        else Some s1)"
proof -
  let ?a = "if a = now then now + 100 else a"
  let ?s1 = "s\<lparr>handlers := boot_table ?a b\<rparr>"
  have split: "[0..<timer_slots] = 0 # 1 # [2..<timer_slots]"
    using upt_conv_Cons [of 0 timer_slots] upt_conv_Cons [of 1 timer_slots] by (simp add: timer_slots_def numeral_2_eq_2)
  have eq: "(of_nat x = (of_nat now :: u32)) = (x = now)" "(of_nat x :: u32) = 0 \<longleftrightarrow> x = 0"
    if "x < 2147483648" for x
    using that b by (simp_all add: of_nat_u32_eq of_nat_u32_eq_0)
  have c0: "cyclic_task (of_nat now) 0 s = Some ?s1"
  proof (cases "a = now")
    case True
    have "timing_reaper s = s"
      using reap_boot_table [of now a b] b by (simp add: timing_reaper_def timer_getHi_def h now)
    with True b boot_table_update(1) [of a b "now + 100"] show ?thesis
      by (simp add: cyclic_task_def h call_handler_def eq Let_def)
  next
    case False
    with b show ?thesis by (simp add: cyclic_task_def h eq)
  qed
  have c1: "cyclic_task (of_nat now) 1 ?s1 =
      (if b = now then map_option (\<lambda>v. v\<lparr>handlers := boot_table ?a (now + 25)\<rparr>) (wd_evaluate ?s1) else Some ?s1)"
  proof (cases "b = now")
    case True
    have "handlers v = boot_table ?a b" if "wd_evaluate ?s1 = Some v" for v
      using wd_evaluate_frame [OF that] by simp
    with True b boot_table_update(2) [of ?a b "now + 25"] show ?thesis
      by (cases "wd_evaluate ?s1") (auto simp: cyclic_task_def call_handler_def Let_def eq)
  next
    case False
    with b show ?thesis by (simp add: cyclic_task_def eq)
  qed
  have rest: "foldM (cyclic_task (of_nat now)) [2..<timer_slots] v = Some v" if "handlers v = boot_table x y"
    for v :: "'a ktime_scheme" and x y
    by (rule foldM_idle) (simp add: cyclic_task_def that boot_table_nth zeroed_timer_def)
  show ?thesis
    unfolding cyclic_tasks_def split foldM.simps c0 bind.bind_lunit Let_def c1
    by (cases "wd_evaluate ?s1") (auto simp: rest)
qed

section \<open>The watchdog over time\<close>

text \<open>
  The kernel's main loop notifies the watchdog, and the timer interrupt may come between any two
  notifications: a history is a list of these two events.
\<close>

datatype event = Tick | Notify

definition run_event :: "u32 \<Rightarrow> event \<Rightarrow> 'a ktime_scheme \<Rightarrow> 'a ktime_scheme option" where
  "run_event d e s =
     (case e of Tick \<Rightarrow> timer_recieveTick d s | Notify \<Rightarrow> Some (wd_notify WD_NOTIFY_KMAIN s))"

definition next_multiple :: "nat \<Rightarrow> nat \<Rightarrow> nat" where
  "next_multiple m n = m * (n div m + 1)"

text \<open>The booted kernel after \<open>n\<close> ticks, with \<open>h\<close> hang-ups counted.\<close>

definition booted :: "u32 \<Rightarrow> nat \<Rightarrow> nat \<Rightarrow> 'a ktime_scheme \<Rightarrow> bool" where
  "booted d n h s \<longleftrightarrow> timer_device s = d \<and> timer_hi s = of_nat n \<and>
     handlers s = boot_table (next_multiple 100 n) (next_multiple 25 n) \<and>
     wd_kmain_hangups s = of_nat h \<and> wd_total_hangups s = of_nat h"

lemma booted_boot:
  assumes "timer_hi s = 0" and "timer_device s = d" and "wd_kmain_hangups s = 0" and "wd_total_hangups s = 0"
  shows "booted d 0 0 (wd_init (timing_init s))"
  using assms boot_handlers [of s]
  by (auto simp: booted_def next_multiple_def wd_init_def timing_init_def timing_register_timer_def Let_def split: if_splits)

lemma wd_evaluate_booted:
  assumes "wd_kmain_hangups s = of_nat h" and "wd_total_hangups s = of_nat h" and "h \<le> 200"
  shows "wd_evaluate s =
    (if wd_kmain s = wd_kmain_o s
     then if h = 200 then None
          else Some (s\<lparr>wd_total_hangups := of_nat (Suc h), wd_kmain_hangups := of_nat (Suc h), wd_kmain_o := wd_kmain s\<rparr>)
     else Some (s\<lparr>wd_kmain_o := wd_kmain s\<rparr>))"
proof -
  have lim: "(0x500 :: u32) <s of_nat k \<longleftrightarrow> 0x500 < k" "(200 :: u32) <s of_nat k \<longleftrightarrow> 200 < k" if "k \<le> 201" for k
    using that sless_of_small_nat [of "0x500" k] sless_of_small_nat [of 200 k] by simp_all
  have suc: "(of_nat h :: u32) + 1 = of_nat (Suc h)" by simp
  show ?thesis
    using assms lim [of h] lim [of "Suc h"]
    by (simp add: wd_evaluate_def WD_HU_LIMIT_def WD_HU_LIMIT_KMAIN_def Let_def suc del: of_nat_Suc)
qed

lemma next_multiple_dvd: "next_multiple m n = Suc n \<longleftrightarrow> m dvd Suc n"
proof
  assume "m dvd Suc n"
  then have "Suc n = m * (Suc n div m)" by simp
  also have "Suc n div m = n div m + 1" using \<open>m dvd Suc n\<close> by (simp add: div_Suc mod_eq_0_iff_dvd)
  finally show "next_multiple m n = Suc n" by (simp add: next_multiple_def)
next
  assume "next_multiple m n = Suc n"
  then show "m dvd Suc n" by (metis dvd_triv_left next_multiple_def)
qed

lemma next_multiple_Suc:
  "next_multiple m (Suc n) = (if next_multiple m n = Suc n then Suc n + m else next_multiple m n)"
proof (cases "m dvd Suc n")
  case True
  then have "next_multiple m n = Suc n" by (simp add: next_multiple_dvd)
  moreover have "next_multiple m (Suc n) = Suc n + m" using True by (simp add: next_multiple_def)
  ultimately show ?thesis by simp
next
  case False
  then have "Suc n div m = n div m" by (simp add: div_Suc mod_eq_0_iff_dvd)
  with False next_multiple_dvd [of m n] show ?thesis by (simp add: next_multiple_def)
qed

lemma next_multiple_bounds:
  assumes "0 < m"
  shows "next_multiple m n \<le> n + m" and "Suc n \<le> next_multiple m n"
proof -
  have "n = m * (n div m) + n mod m" "n mod m < m" using assms by simp_all
  then show "next_multiple m n \<le> n + m" and "Suc n \<le> next_multiple m n"
    unfolding next_multiple_def by (simp_all only: add_mult_distrib2 mult_1_right)
qed

lemma booted_recieveTick:
  assumes "booted d n h s"
  obtains u where "timer_recieveTick d s = cyclic_tasks (of_nat (Suc n)) u" and "timer_hi u = of_nat (Suc n)"
    and "handlers u = boot_table (next_multiple 100 n) (next_multiple 25 n)" and "timer_device u = d"
    and "wd_kmain_hangups u = of_nat h" and "wd_total_hangups u = of_nat h"
    and "wd_kmain u = wd_kmain s" and "wd_kmain_o u = wd_kmain_o s" and "wd_enabled u = wd_enabled s"
proof -
  let ?s1 = "s\<lparr>timer_hi := of_nat (Suc n)\<rparr>"
  let ?u = "if timer_hi ?s1 mod (device_resolution ?s1 * 1000) = 0 then ?s1\<lparr>timer_low := timer_low ?s1 + 1\<rparr> else ?s1"
  have hi: "timer_hi s + 1 = of_nat (Suc n)" using assms by (simp add: booted_def)
  have "timer_hi ?u = of_nat (Suc n)" by simp
  moreover have "timer_recieveTick d s = cyclic_tasks (timer_hi ?u) ?u"
    using assms unfolding timer_recieveTick_def Let_def hi booted_def by (simp del: of_nat_Suc)
  ultimately show ?thesis using assms that [of ?u] by (simp add: booted_def del: of_nat_Suc)
qed

lemma booted_tick:
  assumes "booted d n h s" and "n + 200 < 2147483648" and "h \<le> 200"
  shows "if 25 dvd Suc n \<and> wd_kmain s = wd_kmain_o s \<and> h = 200 then timer_recieveTick d s = None
    else \<exists>s'. timer_recieveTick d s = Some s' \<and>
      booted d (Suc n) (if 25 dvd Suc n \<and> wd_kmain s = wd_kmain_o s then Suc h else h) s' \<and>
      wd_enabled s' = wd_enabled s \<and> wd_kmain s' = wd_kmain s \<and>
      wd_kmain_o s' = (if 25 dvd Suc n then wd_kmain s else wd_kmain_o s)"
proof -
  obtain u where u: "timer_recieveTick d s = cyclic_tasks (of_nat (Suc n)) u" "timer_hi u = of_nat (Suc n)"
    "handlers u = boot_table (next_multiple 100 n) (next_multiple 25 n)" "timer_device u = d"
    "wd_kmain_hangups u = of_nat h" "wd_total_hangups u = of_nat h"
    "wd_kmain u = wd_kmain s" "wd_kmain_o u = wd_kmain_o s" "wd_enabled u = wd_enabled s"
    using booted_recieveTick [OF assms(1)] by blast
  let ?t = "boot_table (next_multiple 100 (Suc n))"
  let ?s1 = "u\<lparr>handlers := ?t (next_multiple 25 n)\<rparr>"
  have "cyclic_tasks (of_nat (Suc n)) u =
    (if 25 dvd Suc n then map_option (\<lambda>v. v\<lparr>handlers := ?t (next_multiple 25 (Suc n))\<rparr>) (wd_evaluate ?s1) else Some ?s1)"
    using boot_cyclic_tasks [OF u(3,2)] next_multiple_bounds [of 100 n] next_multiple_bounds [of 25 n] assms(2)
    by (simp add: next_multiple_Suc Let_def next_multiple_dvd [of 25, symmetric] del: of_nat_Suc)
  moreover have "next_multiple 25 (Suc n) = next_multiple 25 n" if "\<not> 25 dvd Suc n"
    using that by (simp add: next_multiple_Suc next_multiple_dvd)
  ultimately show ?thesis
    using u wd_evaluate_booted [of ?s1 h] assms(3) unfolding booted_def by auto
qed

lemma booted_notify:
  assumes "booted d n h s"
  shows "booted d n h (wd_notify source s)" and "wd_enabled (wd_notify source s) = wd_enabled s"
    and "wd_kmain_o (wd_notify source s) = wd_kmain_o s"
  using assms by (auto simp: booted_def wd_notify_def)

definition ticks :: "event list \<Rightarrow> nat" where
  "ticks es = length (filter (\<lambda>e. e = Tick) es)"

lemma hung_run:
  assumes "booted d n (n div 25) s" and "\<not> wd_enabled s" and "wd_kmain s = wd_kmain_o s" and "n < 5025"
  shows "foldM (run_event d) es s = None \<longleftrightarrow> 5025 \<le> n + ticks es"
  using assms
proof (induction es arbitrary: n s)
  case Nil
  then show ?case by (simp add: ticks_def)
next
  case (Cons e es)
  show ?case
  proof (cases e)
    case Notify
    then have "run_event d e s = Some s" using Cons.prems(2) by (simp add: run_event_def wd_notify_def)
    with Cons.IH [OF Cons.prems] Notify show ?thesis by (simp add: ticks_def)
  next
    case Tick
    have h: "n div 25 \<le> 200" "n + 200 < 2147483648" using Cons.prems(4) by auto
    have last: "25 dvd Suc n \<and> n div 25 = 200 \<longleftrightarrow> n = 5024"
    proof -
      have "n = 5024" if "25 dvd Suc n" "n div 25 = 200"
        using that div_mult_mod_eq [of n 25] by (auto simp: dvd_eq_mod_eq_0 mod_Suc split: if_splits)
      then show ?thesis by auto
    qed
    show ?thesis
    proof (cases "n = 5024")
      case True
      then have "timer_recieveTick d s = None" using booted_tick [OF Cons.prems(1) h(2,1)] last Cons.prems(3) by simp
      with Tick True show ?thesis by (simp add: run_event_def ticks_def)
    next
      case False
      have "(if 25 dvd Suc n then Suc (n div 25) else n div 25) = Suc n div 25"
        by (simp add: div_Suc dvd_eq_mod_eq_0)
      then obtain s' where s': "timer_recieveTick d s = Some s'" "booted d (Suc n) (Suc n div 25) s'"
          "\<not> wd_enabled s'" "wd_kmain s' = wd_kmain_o s'"
        using booted_tick [OF Cons.prems(1) h(2,1)] last False Cons.prems(2,3) by auto
      with Cons.IH [OF s'(2,3,4)] Tick False Cons.prems(4) show ?thesis
        by (simp add: run_event_def ticks_def)
    qed
  qed
qed

lemma run_notify:
  assumes "wd_enabled s"
  shows "foldM (run_event d) (replicate m Notify) s = Some (s\<lparr>wd_kmain := wd_kmain s + of_nat m\<rparr>)"
  using assms
  by (induction m arbitrary: s) (simp_all add: run_event_def wd_notify_def ac_simps)

definition alive :: "u32 \<Rightarrow> nat \<Rightarrow> nat \<Rightarrow> 'a ktime_scheme \<Rightarrow> bool" where
  "alive d n c s \<longleftrightarrow> booted d n 0 s \<and> wd_enabled s \<and> wd_kmain s = wd_kmain_o s + of_nat c \<and>
     c \<le> (n mod 25) * 134217728"

text \<open>A tick of a kernel that has notified the watchdog \<open>k\<close> times since the last evaluation.\<close>

lemma alive_tick:
  assumes "booted d n 0 u" and "wd_enabled u" and "wd_kmain u = wd_kmain_o u + of_nat k" and "0 < k"
    and "k \<le> (n mod 25 + 1) * 134217728" and "n + 200 < 2147483648"
  shows "\<exists>s' c'. timer_recieveTick d u = Some s' \<and> alive d (Suc n) c' s'"
proof -
  have "n mod 25 < 25" by simp
  then have small: "k < 4294967296" using assms(5) by simp
  have "(of_nat k :: u32) \<noteq> 0" using of_nat_u32_eq_0 [OF small] assms(4) by simp
  then have ne: "wd_kmain u \<noteq> wd_kmain_o u" using assms(3) by simp
  obtain s' where s': "timer_recieveTick d u = Some s'" "booted d (Suc n) 0 s'" "wd_enabled s'"
      "wd_kmain s' = wd_kmain u" "wd_kmain_o s' = (if 25 dvd Suc n then wd_kmain u else wd_kmain_o u)"
    using booted_tick [OF assms(1,6)] ne assms(2) by auto
  have "alive d (Suc n) (if 25 dvd Suc n then 0 else k) s'"
    using s' assms(3,5) by (auto simp: alive_def dvd_eq_mod_eq_0 mod_Suc)
  with s'(1) show ?thesis by auto
qed

lemma alive_round:
  assumes "alive d n c s" and "0 < m" and "m \<le> 134217728" and "n + 200 < 2147483648"
  shows "\<exists>s' c'. foldM (run_event d) (replicate m Notify @ [Tick]) s = Some s' \<and> alive d (Suc n) c' s'"
proof -
  let ?u = "s\<lparr>wd_kmain := wd_kmain s + of_nat m\<rparr>"
  have run: "foldM (run_event d) (replicate m Notify @ [Tick]) s = timer_recieveTick d ?u"
    using assms(1) by (cases "timer_recieveTick d ?u")
      (simp_all add: foldM_append run_notify alive_def run_event_def)
  have b: "booted d n 0 ?u" "wd_enabled ?u" using assms(1) by (simp_all add: alive_def booted_def)
  have k: "wd_kmain ?u = wd_kmain_o ?u + of_nat (c + m)" using assms(1) by (simp add: alive_def)
  have "0 < c + m" "c + m \<le> (n mod 25 + 1) * 134217728" using assms(1-3) by (simp_all add: alive_def)
  from alive_tick [OF b k this assms(4)] show ?thesis unfolding run .
qed

section \<open>Properties of the watchdog\<close>

text \<open>
  A disabled watchdog kills the kernel: \<^verbatim>\<open>wd_disable\<close> only stops the notifications from being
  counted while the timer keeps evaluating, so whatever the kernel's main loop does, the kernel runs
  for 5024 ticks after boot and panics in the tick after them, which is the 201st hang-up.
\<close>

theorem watchdog_disabled_panics:
  assumes "timer_hi s = 0" and "timer_device s = d" and "wd_kmain_hangups s = 0" and "wd_total_hangups s = 0"
    and "wd_kmain s = wd_kmain_o s"
  shows "foldM (run_event d) es (wd_disable (wd_init (timing_init s))) = None \<longleftrightarrow> 5025 \<le> ticks es"
proof -
  let ?s = "wd_init (timing_init s)"
  have "booted d 0 0 (wd_disable ?s)" using booted_boot [OF assms(1-4)] by (simp add: booted_def wd_disable_def)
  moreover have "wd_kmain ?s = wd_kmain_o ?s"
    using assms(5) by (auto simp: wd_init_def timing_init_def timing_register_timer_def Let_def)
  ultimately show ?thesis using hung_run [of d 0 "wd_disable ?s" es] by (simp add: wd_disable_def)
qed

text \<open>
  The watchdog never bites a live kernel: when the main loop notifies it at least once, and at
  most \<open>2 ^ 27\<close> times, between any two ticks, no tick panics and no hang-up is counted, for as long as
  the clock stays below the sign bit.
\<close>

theorem watchdog_tolerates_live_kernel:
  assumes "alive d n c s" and "\<forall>m \<in> set ms. 0 < m \<and> m \<le> 2 ^ 27" and "n + length ms + 200 < 2 ^ 31"
  shows "\<exists>s' c'. foldM (run_event d) (concat (map (\<lambda>m. replicate m Notify @ [Tick]) ms)) s = Some s' \<and>
    alive d (n + length ms) c' s'"
  using assms
proof (induction ms arbitrary: n c s)
  case (Cons m ms)
  then obtain s1 c1 where "foldM (run_event d) (replicate m Notify @ [Tick]) s = Some s1" "alive d (Suc n) c1 s1"
    using alive_round [of d n c s m] by auto
  then have "foldM (run_event d) (concat (map (\<lambda>m. replicate m Notify @ [Tick]) (m # ms))) s =
      foldM (run_event d) (concat (map (\<lambda>m. replicate m Notify @ [Tick]) ms)) s1"
    by (simp only: list.map concat.simps foldM_append [of _ "replicate m Notify @ [Tick]"] bind.bind_lunit)
  with Cons.IH [of "Suc n" c1 s1] Cons.prems \<open>alive d (Suc n) c1 s1\<close> show ?case by simp
qed auto

lemma ktime0_boot: "booted 0 0 0 (wd_init (timing_init ktime0))"
  by (rule booted_boot) (simp_all add: ktime0_def)

lemma ktime0_boot_wd:
  "wd_enabled (wd_init (timing_init ktime0))" "wd_kmain (wd_init (timing_init ktime0)) = 0"
  "wd_kmain_o (wd_init (timing_init ktime0)) = 0"
  by (simp_all add: wd_init_def timing_init_def timing_register_timer_def Let_def ktime0_def)

lemma ktime0_tick: "\<exists>s'. times (Suc 0) (timer_recieveTick 0) (wd_init (timing_init ktime0)) = Some s'"
  using booted_tick [OF ktime0_boot] ktime0_boot_wd by auto

lemma booted_ticks:
  "booted d n h s \<Longrightarrow> n + m + 200 < 2147483648 \<Longrightarrow> h + m \<le> 200 \<Longrightarrow>
   \<exists>s' h'. times m (timer_recieveTick d) s = Some s' \<and> booted d (n + m) h' s'"
proof (induction m arbitrary: n h s)
  case (Suc m)
  obtain s1 h1 where s1: "timer_recieveTick d s = Some s1" "booted d (Suc n) h1 s1" "h1 \<le> Suc h"
    using booted_tick [OF Suc.prems(1)] Suc.prems(2,3) by (auto split: if_splits)
  from Suc.IH [OF s1(2)] Suc.prems(2,3) s1 show ?case by auto
qed auto

theorem timer_periodic_witness:
  "\<exists>u u'. times 24 (timer_recieveTick 0) (wd_init (timing_init ktime0)) = Some u \<and> timer_recieveTick 0 u = Some u' \<and>
     slot_turn 1 (fire 1 Wd_evaluate) u u'"
proof -
  let ?s = "wd_init (timing_init ktime0)"
  have h: "handlers ?s = boot_table 100 25" by (rule boot_handlers) (simp add: ktime0_def)
  obtain s' where s': "times 25 (timer_recieveTick 0) ?s = Some s'" using booted_ticks [OF ktime0_boot, of 25] by auto
  have ok: "table_ok ?s" "timer_device ?s = 0" "timer_hi ?s = of_nat 0"
    using ktime0_boot h by (simp_all add: booted_def table_ok_def boot_table_def timer_slots_def)
  have r: "fire_tick (handlers ?s ! 1) = of_nat 25" "repeat_rate (handlers ?s ! 1) = of_nat 25" "tm_handler (handlers ?s ! 1) = Some Wd_evaluate"
    by (simp_all add: h)
  have "(\<forall>m < 25. \<exists>u u'. times m (timer_recieveTick 0) ?s = Some u \<and> timer_recieveTick 0 u = Some u' \<and>
      slot_turn 1 (if 25 \<le> 0 + Suc m \<and> 25 dvd (0 + Suc m - 25) then fire 1 Wd_evaluate else Some) u u') \<and>
    (\<exists>G. on_rhythm 25 25 (0 + 25) G \<and> handlers s' ! 1 = (handlers ?s ! 1)\<lparr>fire_tick := of_nat G\<rparr>)"
    by (rule timer_periodic [OF s' ok(1) _ ok(2,3) refl r]) (simp_all add: timer_slots_def)
  then have "\<forall>m < 25. \<exists>u u'. times m (timer_recieveTick 0) ?s = Some u \<and> timer_recieveTick 0 u = Some u' \<and>
      slot_turn 1 (if 25 \<le> 0 + Suc m \<and> 25 dvd (0 + Suc m - 25) then fire 1 Wd_evaluate else Some) u u'" by (rule conjunct1)
  from this [rule_format, of 24] show ?thesis by simp
qed

theorem watchdog_disabled_panics_witness:
  "foldM (run_event 0) (replicate 5025 Tick) (wd_disable (wd_init (timing_init ktime0))) = None"
  using watchdog_disabled_panics [of ktime0 0 "replicate 5025 Tick"]
  by (simp add: ktime0_def ticks_def)

theorem watchdog_tolerates_live_kernel_witness:
  "\<exists>s'. foldM (run_event 0) (concat (map (\<lambda>m. replicate m Notify @ [Tick]) (replicate 100000 3)))
     (wd_init (timing_init ktime0)) = Some s'"
proof -
  have "alive 0 0 0 (wd_init (timing_init ktime0))"
    using ktime0_boot ktime0_boot_wd by (simp add: alive_def)
  from watchdog_tolerates_live_kernel [OF this, of "replicate 100000 3"] show ?thesis by auto
qed

text \<open>
  Close to the sign change of the clock the reaper kills timers that are still to come: a timer
  registered before tick \<open>2 ^ 31\<close> with a firing time behind it is removed by the next pass of the
  reaper, because the comparison is signed and the firing time reads as a negative number.
\<close>

theorem reaper_kills_future_timer:
  assumes "handlers s = xs @ t # ys" and "\<forall>x \<in> set xs. fire_tick x \<noteq> 0" and "fire_tick t = 0"
    and "length xs \<noteq> 0xFF" and "timer_hi s = of_nat now" and "now < 2 ^ 31" and "2 ^ 31 \<le> now + delay"
    and "now + delay < 2 ^ 32"
  shows "fire_tick (handlers (timing_reaper
    (snd (timing_register_timer name (of_nat delay) h rate s))) ! length xs) = 0"
proof -
  let ?f = "of_nat (now + delay) :: u32"
  have "sint ?f < 0" using sint_of_big_nat [of "now + delay"] assms(7,8) by (simp del: of_nat_add)
  then have "?f <s timer_hi s" using assms(5,6) by (simp add: word_sless_alt sint_of_small_nat)
  then show ?thesis
    using timing_register_first_free [OF assms(1-4), of name "of_nat delay" h rate] assms(5)
    by (simp add: timing_reaper_def timer_getHi_def nth_append reap_def add.commute)
qed

theorem reaper_kills_future_timer_witness:
  "fire_tick (handlers (timing_reaper (snd (timing_register_timer [] 100 None 100
     (ktime0\<lparr>handlers := replicate 255 zeroed_timer, timer_hi := 2147483600\<rparr>)))) ! 0) = 0"
  using reaper_kills_future_timer [of "ktime0\<lparr>handlers := replicate 255 zeroed_timer, timer_hi := 2147483600\<rparr>"
    "[]" zeroed_timer "replicate 254 zeroed_timer" 2147483600 100 "[]" None 100]
    replicate_Suc [of 254 zeroed_timer] by simp

section \<open>A tick as its device sees it\<close>

text \<open>The fields a board adds to the state are not touched by a tick, and the clock counts it.\<close>

lemma timer_recieveTick_more:
  assumes "timer_recieveTick d s = Some s'"
  shows "ktime.more s' = ktime.more s"
proof -
  have h: "ktime.more v = ktime.more u" if "call_handler h u = Some v" for h and u v :: "'a ktime_scheme"
    using that by (cases h) (auto simp: call_handler_def timing_reaper_def kmonitor_check_def wd_evaluate_def
        scheduler_update_def Let_def split: if_splits Option.bind_splits)
  have c: "ktime.more v = ktime.more u" if "cyclic_task tick j u = Some v" for tick j and u v :: "'a ktime_scheme"
    using that h by (auto simp: cyclic_task_def Let_def split: if_splits Option.bind_splits)
  have "ktime.more s' = ktime.more u" if "cyclic_tasks tick u = Some s'" for tick and u :: "'a ktime_scheme"
    using that unfolding cyclic_tasks_def by (rule foldM_invariant) (auto dest: c)
  from this [OF assms [unfolded timer_recieveTick_def Let_def, THEN trans [rotated]]] assms show ?thesis
    by (auto simp: timer_recieveTick_def Let_def split: if_splits dest!: \<open>\<And>tick u. cyclic_tasks tick u = Some s' \<Longrightarrow> ktime.more s' = ktime.more u\<close>)
qed

lemma timer_recieveTick_clock:
  assumes "timer_recieveTick (timer_device s) s = Some s'"
  shows "timer_hi s' = timer_hi s + 1 \<and> timer_device s' = timer_device s"
proof -
  have "timer_hi s' = timer_hi u \<and> timer_device s' = timer_device u" if "cyclic_tasks tick u = Some s'" for tick u
    using that unfolding cyclic_tasks_def
    by (rule foldM_invariant) (auto dest: cyclic_task_frame cyclic_task_device)
  with assms show ?thesis by (auto simp: timer_recieveTick_def Let_def split: if_splits)
qed

end
