(* ===== verification/Lock.thy ===== *)
theory Lock
  imports Beryllium_Prelude
begin

text \<open>
  The mutex of \<^verbatim>\<open>src/kernel/lib/lock.c\<close>. Each function works on its own copy of the pointer
  it is given and never on the byte behind it, so a lock call either returns at once (null
  pointer) or spins for ever; the assignments to the parameter have no effect outside.
\<close>

partial_function (option) mutex_spin :: "addr \<Rightarrow> unit option" where
  "mutex_spin mutex = (if mutex \<noteq> NULL then mutex_spin mutex else Some ())"

declare mutex_spin.simps [code]

definition mutex_lock :: "addr \<Rightarrow> unit option" where
  "mutex_lock mutex = (if mutex \<noteq> NULL then mutex_spin mutex else Some ())"

definition mutex_unlock :: "addr \<Rightarrow> unit option" where
  "mutex_unlock mutex = (let mutex' = (if mutex \<noteq> NULL then NULL else mutex) in Some ())"

definition mutex_init :: "addr \<Rightarrow> unit option" where
  "mutex_init mutex =
     (let mutex' = (if mutex \<noteq> NULL then (if mutex \<noteq> NULL then NULL else mutex) else mutex) in Some ())"

lemma mutex_spin_Some:
  assumes "mutex_spin mutex = Some u"
  shows "mutex = NULL"
  by (rule mutex_spin.raw_induct [where P = "\<lambda>mutex u. mutex = NULL", OF _ assms])
    (auto split: if_splits)

lemma mutex_lock_null [simp]: "mutex_lock NULL = Some ()"
  by (simp add: mutex_lock_def)

lemma mutex_unlock_returns [simp]: "mutex_unlock mutex = Some ()"
  by (simp add: mutex_unlock_def)

lemma mutex_init_returns [simp]: "mutex_init mutex = Some ()"
  by (simp add: mutex_init_def)

lemma mutex_lock_hangs: "mutex \<noteq> NULL \<Longrightarrow> mutex_lock mutex = None"
  using mutex_spin_Some by (cases "mutex_spin mutex") (auto simp: mutex_lock_def)

lemma mutex_lock_Some: "mutex_lock mutex = Some u \<Longrightarrow> mutex = NULL"
  using mutex_lock_hangs by fastforce

text \<open>
  \<^verbatim>\<open>mutex_lock\<close> returns exactly when it is given the null pointer: on any real
  mutex, locked or not, it never returns.
\<close>

theorem mutex_lock_returns_iff: "mutex_lock mutex = Some () \<longleftrightarrow> mutex = NULL"
  using mutex_lock_hangs [of mutex] by (cases "mutex = NULL") simp_all

end
