(* ===== verification/Arm_Memory.thy ===== *)
theory Arm_Memory
  imports Lock
begin

text \<open>
  The page providers of the two ARM boards, \<^verbatim>\<open>src/kernel/arch/arm/integrator-cp/memory.c\<close>
  (prefix \<open>icp_\<close>) and \<^verbatim>\<open>src/kernel/arch/arm/rpi/memory.c\<close> (prefix \<open>rpi_\<close>): a break pointer
  that only moves up. The contract the heap relies on, \<open>sbrk_provider\<close>, is stated once and
  interpreted for both boards.
\<close>

section \<open>The contract of sbrk\<close>

text \<open>
  \<open>ready\<close> is the state in which the provider may be called, \<open>brk\<close> the current break:
  \<^verbatim>\<open>sbrk(0)\<close> reads it and \<^verbatim>\<open>sbrk(PAGE_SIZE)\<close> moves it up, by at most one page, as long as it
  stays below \<open>limit\<close>, and does not report an error.
\<close>

locale sbrk_provider =
  fixes sbrk :: "nat \<Rightarrow> 'm \<Rightarrow> (addr \<times> 'm) option"
    and brk :: "'m \<Rightarrow> addr"
    and ready :: "'m \<Rightarrow> bool"
    and limit :: nat
  assumes limit_le: "limit \<le> 4294967296"
    and brk_range: "ready m \<Longrightarrow> 0 < brk m \<and> brk m < 4294967296"
    and sbrk_zero: "ready m \<Longrightarrow> sbrk 0 m = Some (brk m, m)"
    and sbrk_page: "ready m \<Longrightarrow> brk m + 4096 < limit \<Longrightarrow>
      \<exists>r m'. sbrk 4096 m = Some (r, m') \<and> r \<noteq> 4294967295 \<and> brk m < brk m' \<and> brk m' \<le> brk m + 4096 \<and> ready m'"

section \<open>Integrator-CP\<close>

record icp_memory =
  mem_allocate_starting :: nat
  mmac_lock :: addr
  kernel_reserved_area :: addr

definition icp_memory_start :: icp_memory where
  "icp_memory_start =
     \<lparr>mem_allocate_starting = 0x10000, mmac_lock = NULL, kernel_reserved_area = NULL\<rparr>"

definition icp_memory_mult_alloc_pages :: "int \<Rightarrow> icp_memory \<Rightarrow> addr \<times> icp_memory" where
  "icp_memory_mult_alloc_pages pages s =
     (let to = mem_allocate_starting s
      in (to, s\<lparr>mem_allocate_starting := nat ((int to + pages * 0x1000) mod 4294967296)\<rparr>))"

text \<open>Running out of memory ends in \<^verbatim>\<open>panic\<close>, which halts: the call does not return.\<close>

definition icp_memallocp :: "int \<Rightarrow> icp_memory \<Rightarrow> (addr \<times> icp_memory) option" where
  "icp_memallocp pages s =
     (if pages \<le> 0 then Some (NULL, s)
      else do {
        mutex_lock (mmac_lock s);
        let (ptr, s') = icp_memory_mult_alloc_pages pages s;
        if ptr = NULL then None
        else do { mutex_unlock (mmac_lock s'); Some (ptr, s') }
      })"

definition icp_memory_dealloc_pages :: "int \<Rightarrow> icp_memory \<Rightarrow> icp_memory" where
  "icp_memory_dealloc_pages pages s = s"

definition icp_memory_init :: "icp_memory \<Rightarrow> icp_memory option" where
  "icp_memory_init s = do {
     (ptr, s') \<leftarrow> icp_memallocp 1 s;
     Some (s'\<lparr>kernel_reserved_area := ptr\<rparr>)
   }"

definition icp_sbrk :: "nat \<Rightarrow> icp_memory \<Rightarrow> (addr \<times> icp_memory) option" where
  "icp_sbrk amount s =
     (if amount = 0 then Some (mem_allocate_starting s, s)
      else let actual_amount = amount div 0x1000;
               actual_amount' = (if actual_amount = 0 then actual_amount + 1 else actual_amount)
           in icp_memallocp (int actual_amount') s)"

definition icp_brk :: "addr \<Rightarrow> int" where
  "icp_brk end_data_segment = 0"

section \<open>Raspberry Pi\<close>

text \<open>Here the break is a 64 bit counter, read through a 32 bit \<^verbatim>\<open>int\<close>, and an exhausted
  allocation only prints a message.\<close>

record rpi_memory =
  rpi_mem_allocate_starting :: nat
  rpi_mmac_lock :: addr
  rpi_kernel_reserved_area :: addr

definition rpi_memory_start :: rpi_memory where
  "rpi_memory_start =
     \<lparr>rpi_mem_allocate_starting = 0x10000, rpi_mmac_lock = NULL, rpi_kernel_reserved_area = NULL\<rparr>"

definition rpi_memory_mult_alloc_pages :: "int \<Rightarrow> rpi_memory \<Rightarrow> addr \<times> rpi_memory" where
  "rpi_memory_mult_alloc_pages pages s =
     (let to = w32 (rpi_mem_allocate_starting s)
      in (to, s\<lparr>rpi_mem_allocate_starting :=
               nat ((int (rpi_mem_allocate_starting s) + pages * 0x1000) mod 2 ^ 64)\<rparr>))"

definition rpi_memallocp :: "int \<Rightarrow> rpi_memory \<Rightarrow> (addr \<times> rpi_memory) option" where
  "rpi_memallocp pages s =
     (if pages \<le> 0 then Some (NULL, s)
      else do {
        mutex_lock (rpi_mmac_lock s);
        let (ptr, s') = rpi_memory_mult_alloc_pages pages s;
        mutex_unlock (rpi_mmac_lock s');
        Some (ptr, s')
      })"

definition rpi_memory_dealloc_pages :: "int \<Rightarrow> rpi_memory \<Rightarrow> rpi_memory" where
  "rpi_memory_dealloc_pages pages s = s"

definition rpi_memory_init :: "rpi_memory \<Rightarrow> rpi_memory option" where
  "rpi_memory_init s = do {
     mutex_init (rpi_mmac_lock s);
     mutex_lock (rpi_mmac_lock s);
     mutex_unlock (rpi_mmac_lock s);
     (ptr, s') \<leftarrow> rpi_memallocp 1 s;
     Some (s'\<lparr>rpi_kernel_reserved_area := ptr\<rparr>)
   }"

definition rpi_sbrk :: "nat \<Rightarrow> rpi_memory \<Rightarrow> (addr \<times> rpi_memory) option" where
  "rpi_sbrk amount s =
     (if amount = 0 then Some (w32 (rpi_mem_allocate_starting s), s)
      else let actual_amount = amount div 0x1000;
               actual_amount' = (if actual_amount = 0 then actual_amount + 1 else actual_amount)
           in rpi_memallocp (int actual_amount') s)"

definition rpi_brk :: "addr \<Rightarrow> int" where
  "rpi_brk end_data_segment = 0"

section \<open>Both boards keep the contract\<close>

definition icp_ready :: "icp_memory \<Rightarrow> bool" where
  "icp_ready s \<longleftrightarrow>
     mmac_lock s = NULL \<and> 0 < mem_allocate_starting s \<and> mem_allocate_starting s < 4294967296"

definition rpi_ready :: "rpi_memory \<Rightarrow> bool" where
  "rpi_ready s \<longleftrightarrow> rpi_mmac_lock s = NULL \<and>
     0 < rpi_mem_allocate_starting s \<and> rpi_mem_allocate_starting s < 4294967296"

text \<open>How far one allocation, and so one \<^verbatim>\<open>sbrk\<close> call, moves the break.\<close>

lemma icp_memallocp_step:
  assumes "icp_ready s" and "0 < k" and "mem_allocate_starting s + k * 4096 < 4294967296"
  shows "icp_memallocp (int k) s =
     Some (mem_allocate_starting s, s\<lparr>mem_allocate_starting := mem_allocate_starting s + k * 4096\<rparr>)"
proof -
  have "nat ((int (mem_allocate_starting s) + int k * 4096) mod 4294967296)
      = mem_allocate_starting s + k * 4096"
    using assms(3) by (subst mod_pos_pos_trivial) linarith+
  then show ?thesis
    using assms(1,2) unfolding icp_memallocp_def icp_memory_mult_alloc_pages_def Let_def icp_ready_def
    by simp
qed

lemma icp_sbrk_step:
  assumes "icp_ready s" and "0 < amount"
    and "mem_allocate_starting s + max 1 (amount div 4096) * 4096 < 4294967296"
  shows "icp_sbrk amount s = Some (mem_allocate_starting s,
     s\<lparr>mem_allocate_starting := mem_allocate_starting s + max 1 (amount div 4096) * 4096\<rparr>)"
proof -
  have k: "(if amount div 4096 = 0 then amount div 4096 + 1 else amount div 4096)
      = max 1 (amount div 4096)"
    by auto
  show ?thesis
    using icp_memallocp_step [OF assms(1) _ assms(3)] assms(2)
    unfolding icp_sbrk_def Let_def k by simp
qed

interpretation icp: sbrk_provider icp_sbrk mem_allocate_starting icp_ready 4294967296
proof
  fix m
  assume r: "icp_ready m"
  then show "0 < mem_allocate_starting m \<and> mem_allocate_starting m < 4294967296"
    and "icp_sbrk 0 m = Some (mem_allocate_starting m, m)"
    by (simp_all add: icp_ready_def icp_sbrk_def)
  assume "mem_allocate_starting m + 4096 < 4294967296"
  with r icp_sbrk_step [OF r, of 4096]
  show "\<exists>r m'. icp_sbrk 4096 m = Some (r, m') \<and> r \<noteq> 4294967295 \<and>
      mem_allocate_starting m < mem_allocate_starting m' \<and> mem_allocate_starting m' \<le> mem_allocate_starting m + 4096 \<and> icp_ready m'"
    by (simp add: icp_ready_def)
qed simp

interpretation rpi: sbrk_provider rpi_sbrk "\<lambda>m. w32 (rpi_mem_allocate_starting m)" rpi_ready 4294967296
proof
  fix m
  assume r: "rpi_ready m"
  then show "0 < w32 (rpi_mem_allocate_starting m) \<and> w32 (rpi_mem_allocate_starting m) < 4294967296"
    and "rpi_sbrk 0 m = Some (w32 (rpi_mem_allocate_starting m), m)"
    by (simp_all add: rpi_ready_def rpi_sbrk_def w32_simps)
  assume "w32 (rpi_mem_allocate_starting m) + 4096 < 4294967296"
  with r show "\<exists>r m'. rpi_sbrk 4096 m = Some (r, m') \<and> r \<noteq> 4294967295 \<and>
      w32 (rpi_mem_allocate_starting m) < w32 (rpi_mem_allocate_starting m') \<and>
      w32 (rpi_mem_allocate_starting m') \<le> w32 (rpi_mem_allocate_starting m) + 4096 \<and> rpi_ready m'"
    by (simp add: rpi_sbrk_def rpi_memallocp_def rpi_memory_mult_alloc_pages_def rpi_ready_def
        w32_simps nat_add_distrib)
qed simp

section \<open>Properties\<close>

text \<open>
  \<^verbatim>\<open>sbrk(amount)\<close> on the Integrator-CP moves the break by \<^verbatim>\<open>amount\<close> rounded
  \<^emph>\<open>down\<close> to whole pages (at least one page): a request that is not a multiple of the page
  size and larger than a page is granted less memory than it asks for.
\<close>

theorem icp_sbrk_rounds_down:
  assumes "icp_ready s" and "4096 \<le> amount"
    and "mem_allocate_starting s + amount < 4294967296"
  shows "\<exists>s'. icp_sbrk amount s = Some (mem_allocate_starting s, s') \<and> icp_ready s' \<and>
     mem_allocate_starting s' = mem_allocate_starting s + (amount - amount mod 4096)"
proof -
  have eq: "amount div 4096 * 4096 = amount - amount mod 4096"
    by (simp add: minus_mod_eq_div_mult)
  have "1 \<le> amount div 4096" using assms(2) by (simp add: div_greater_zero_iff Suc_leI)
  then have m: "max 1 (amount div 4096) * 4096 = amount - amount mod 4096"
    using eq by simp
  then have "icp_sbrk amount s = Some (mem_allocate_starting s,
      s\<lparr>mem_allocate_starting := mem_allocate_starting s + (amount - amount mod 4096)\<rparr>)"
    using icp_sbrk_step [OF assms(1), of amount] assms(2,3) by simp
  moreover have "mem_allocate_starting s + (amount - amount mod 4096) < 4294967296"
    using assms(3) by linarith
  ultimately show ?thesis
    using assms(1) unfolding icp_ready_def by (simp del: diff_add_assoc add_diff_assoc)
qed

theorem icp_sbrk_rounds_down_witness:
  "\<exists>s'. icp_sbrk 0x1FFF icp_memory_start = Some (0x10000, s') \<and> mem_allocate_starting s' = 0x11000"
  using icp_sbrk_rounds_down [where s = icp_memory_start and amount = "0x1FFF"]
  by (auto simp: icp_ready_def icp_memory_start_def)

end
