(* ===== verification/Allocator.thy ===== *)
theory Allocator
  imports Beryllium_Prelude
begin

text \<open>
  The contract of the kernel heap (\<^verbatim>\<open>malloc\<close> and \<^verbatim>\<open>free\<close>, \<^verbatim>\<open>src/kernel/includes/beryllium/memory.h\<close>
  and \<^verbatim>\<open>stdlib\<close> declarations) as its clients rely on it. \<open>live\<close> maps each address handed out and
  not yet released to the size of its block, and \<open>room\<close> is the memory that can still be
  obtained: one allocation costs its size, a header, rounding and at most one page.
\<close>

type_synonym 'h alloc = "nat \<Rightarrow> 'h \<Rightarrow> (addr \<times> 'h) option"
type_synonym 'h dealloc = "addr \<Rightarrow> 'h \<Rightarrow> 'h option"

abbreviation alloc_cost :: "nat \<Rightarrow> nat" where
  "alloc_cost n \<equiv> n + 4116"

locale allocator =
  fixes alloc :: "nat \<Rightarrow> 'h \<Rightarrow> (addr \<times> 'h) option"
    and dealloc :: "addr \<Rightarrow> 'h \<Rightarrow> 'h option"
    and allocated :: "'h \<Rightarrow> addr \<rightharpoonup> nat"
    and valid :: "'h \<Rightarrow> bool"
    and room :: "'h \<Rightarrow> nat"
  assumes alloc_ok: "valid h \<Longrightarrow> alloc_cost n \<le> room h \<Longrightarrow>
      \<exists>p h' k. alloc n h = Some (p, h') \<and> valid h' \<and> p \<noteq> NULL \<and> n \<le> k \<and> allocated h p = None \<and>
        allocated h' = (allocated h)(p \<mapsto> k) \<and> room h \<le> room h' + alloc_cost n"
    and dealloc_ok: "valid h \<Longrightarrow> allocated h p = Some k \<Longrightarrow>
      \<exists>h'. dealloc p h = Some h' \<and> valid h' \<and> allocated h' = (allocated h)(p := None) \<and> room h' = room h"
    and allocated_nonnull: "valid h \<Longrightarrow> allocated h NULL = None"
begin

text \<open>A block that is handed out and released again leaves the heap as it was for its clients.\<close>

lemma alloc_dealloc:
  assumes "valid h" and "alloc_cost n \<le> room h"
  shows "\<exists>p h' h''. alloc n h = Some (p, h') \<and> dealloc p h' = Some h'' \<and> valid h'' \<and>
    allocated h'' = allocated h"
proof -
  obtain p h' k where h': "alloc n h = Some (p, h')" "valid h'" "allocated h p = None"
    "allocated h' = (allocated h)(p \<mapsto> k)"
    using alloc_ok [OF assms] by blast
  then obtain h'' where "dealloc p h' = Some h''" "valid h''" "allocated h'' = (allocated h')(p := None)"
    using dealloc_ok [of h' p k] by auto
  moreover have "(allocated h')(p := None) = allocated h" using h' by auto
  ultimately show ?thesis using h' by auto
qed

end

end
