(* ===== verification/Malloc.thy ===== *)
theory Malloc
  imports C_String Arm_Memory Allocator
begin

text \<open>
  The heap of \<^verbatim>\<open>src/kernel/malloc.c\<close>: a doubly linked list of block headers (\<^verbatim>\<open>Meta\<close>, 16 bytes
  on the 32 bit targets) between the static sentinels \<^verbatim>\<open>head\<close> and \<^verbatim>\<open>tail\<close>, searched first-fit,
  with splitting on allocation and coalescing on release. The headers are an explicit store
  indexed by address, the payload bytes a flat memory, and \<^verbatim>\<open>sbrk\<close> is an argument of the
  operations: the laws it must satisfy are those of the locale \<open>sbrk_provider\<close>.

  The first part translates the code. The second part gives the abstract heap, a list of
  contiguous blocks, and shows that \<^verbatim>\<open>malloc\<close> and \<^verbatim>\<open>free\<close> act on it as on a partition of the
  address range: live blocks never overlap, keep their place, and their bytes.
\<close>

section \<open>Headers\<close>

datatype mptr = MNull | Head | Tail | Blk addr

record meta =
  m_size :: nat
  m_free :: bool
  m_prev :: mptr
  m_next :: mptr

type_synonym metas = "mptr \<rightharpoonup> meta"

abbreviation sizeof_meta :: nat where
  "sizeof_meta \<equiv> 16"

abbreviation sizeof_size_t :: nat where
  "sizeof_size_t \<equiv> 4"

fun blk_addr :: "mptr \<Rightarrow> addr" where
  "blk_addr (Blk a) = a"
| "blk_addr p = 0"

text \<open>
  \<open>upd\<close> writes a field of a header that exists, \<open>put\<close> one of a header being carved out of raw
  memory, whose other fields are whatever was there.
\<close>

definition upd :: "metas \<Rightarrow> mptr \<Rightarrow> (meta \<Rightarrow> meta) \<Rightarrow> metas option" where
  "upd h p f = (case h p of None \<Rightarrow> None | Some m \<Rightarrow> Some (h(p \<mapsto> f m)))"

definition put :: "metas \<Rightarrow> mptr \<Rightarrow> (meta \<Rightarrow> meta) \<Rightarrow> metas" where
  "put h p f = h(p \<mapsto> f (case h p of
     None \<Rightarrow> \<lparr>m_size = 0, m_free = False, m_prev = MNull, m_next = MNull\<rparr> | Some m \<Rightarrow> m))"

record 'm heap =
  metas :: metas
  alloc_end :: nat
  hbytes :: mem
  os :: 'm

definition heap_start :: "'m \<Rightarrow> 'm heap" where
  "heap_start m =
     \<lparr>metas = [Head \<mapsto> \<lparr>m_size = 0, m_free = False, m_prev = MNull, m_next = Tail\<rparr>,
               Tail \<mapsto> \<lparr>m_size = 0, m_free = False, m_prev = Head, m_next = MNull\<rparr>],
      alloc_end = 0, hbytes = (\<lambda>_. 0), os = m\<rparr>"

section \<open>malloc\<close>

definition long_align :: "nat \<Rightarrow> nat" where
  "long_align sz =
     (if sz mod sizeof_size_t \<noteq> 0
      then w32 (sz + (sizeof_size_t - sz mod sizeof_size_t)) else sz)"

text \<open>The first-fit search: \<open>Some None\<close> when the list holds no block that fits.\<close>

partial_function (option) first_fit :: "metas \<Rightarrow> nat \<Rightarrow> mptr \<Rightarrow> mptr option option" where
  "first_fit h sz block = do {
     b \<leftarrow> h block;
     if m_next b = Tail then Some None
     else do {
       let block' = m_next b;
       b' \<leftarrow> h block';
       if m_free b' \<and> sz \<le> m_size b' then Some (Some block')
       else first_fit h sz block'
     }
   }"

declare first_fit.simps [code]

definition take_block :: "metas \<Rightarrow> mptr \<Rightarrow> nat \<Rightarrow> metas option" where
  "take_block h0 block sz = do {
     h1 \<leftarrow> upd h0 block (\<lambda>m. m\<lparr>m_free := False\<rparr>);
     b \<leftarrow> h1 block;
     if sizeof_size_t + sizeof_meta \<le> sub32 (m_size b) sz then do {
       let newBlock = Blk (blk_addr block + sz + sizeof_meta);
       let h2 = put h1 newBlock (\<lambda>m. m\<lparr>m_size := m_size b - sz - sizeof_meta\<rparr>);
       n2 \<leftarrow> h2 newBlock;
       h3 \<leftarrow> upd h2 block (\<lambda>m. m\<lparr>m_size := m_size m - (m_size n2 + sizeof_meta)\<rparr>);
       b3 \<leftarrow> h3 block;
       h4 \<leftarrow> upd h3 (m_next b3) (\<lambda>m. m\<lparr>m_prev := newBlock\<rparr>);
       h5 \<leftarrow> upd h4 newBlock (\<lambda>m. m\<lparr>m_prev := block\<rparr>);
       b5 \<leftarrow> h5 block;
       h6 \<leftarrow> upd h5 newBlock (\<lambda>m. m\<lparr>m_next := m_next b5\<rparr>);
       h7 \<leftarrow> upd h6 block (\<lambda>m. m\<lparr>m_next := newBlock\<rparr>);
       h8 \<leftarrow> upd h7 newBlock (\<lambda>m. m\<lparr>m_free := True\<rparr>);
       n8 \<leftarrow> h8 newBlock;
       nn \<leftarrow> h8 (m_next n8);
       if m_free nn then do {
         h9 \<leftarrow> upd h8 newBlock (\<lambda>m. m\<lparr>m_size := w32 (m_size m + m_size nn + sizeof_meta)\<rparr>);
         h10 \<leftarrow> upd h9 (m_next nn) (\<lambda>m. m\<lparr>m_prev := newBlock\<rparr>);
         upd h10 newBlock (\<lambda>m. m\<lparr>m_next := m_next nn\<rparr>)
       } else Some h8
     } else Some h1
   }"

text \<open>The loop that enlarges the heap; the flag is false when \<^verbatim>\<open>sbrk\<close> reports an error.\<close>

partial_function (option) grow ::
  "(nat \<Rightarrow> 'm \<Rightarrow> (addr \<times> 'm) option) \<Rightarrow> nat \<Rightarrow> nat \<Rightarrow> 'm \<Rightarrow> (bool \<times> 'm) option" where
  "grow sbrk ae need m = do {
     (b, m1) \<leftarrow> sbrk 0 m;
     if sub32 b ae < need then do {
       (r, m2) \<leftarrow> sbrk 0x1000 m1;
       if r = 4294967295 then Some (False, m2) else grow sbrk ae need m2
     } else Some (True, m1)
   }"

declare grow.simps [code]

definition add_block :: "metas \<Rightarrow> addr \<Rightarrow> nat \<Rightarrow> metas option" where
  "add_block h0 a sz = do {
     let newBlock = Blk a;
     let h1 = put h0 newBlock (\<lambda>m. m\<lparr>m_next := Tail\<rparr>);
     t \<leftarrow> h1 Tail;
     h2 \<leftarrow> upd h1 newBlock (\<lambda>m. m\<lparr>m_prev := m_prev t\<rparr>);
     n2 \<leftarrow> h2 newBlock;
     h3 \<leftarrow> upd h2 (m_prev n2) (\<lambda>m. m\<lparr>m_next := newBlock\<rparr>);
     h4 \<leftarrow> upd h3 Tail (\<lambda>m. m\<lparr>m_prev := newBlock\<rparr>);
     h5 \<leftarrow> upd h4 newBlock (\<lambda>m. m\<lparr>m_free := False\<rparr>);
     upd h5 newBlock (\<lambda>m. m\<lparr>m_size := sz\<rparr>)
   }"

definition malloc ::
  "(nat \<Rightarrow> 'm \<Rightarrow> (addr \<times> 'm) option) \<Rightarrow> nat \<Rightarrow> 'm heap \<Rightarrow> (addr \<times> 'm heap) option" where
  "malloc sbrk sz0 s = do {
     let sz = long_align sz0;
     found \<leftarrow> first_fit (metas s) sz Head;
     case found of
       Some block \<Rightarrow> do {
         h \<leftarrow> take_block (metas s) block sz;
         Some (blk_addr block + sizeof_meta, s\<lparr>metas := h\<rparr>)
       }
     | None \<Rightarrow> do {
         (ae, os1) \<leftarrow> (if alloc_end s = 0 then sbrk 0 (os s) else Some (alloc_end s, os s));
         (ok, os2) \<leftarrow> grow sbrk ae (w32 (sz + sizeof_meta)) os1;
         if \<not> ok then Some (NULL, s\<lparr>alloc_end := ae, os := os2\<rparr>)
         else do {
           h \<leftarrow> add_block (metas s) ae sz;
           Some (ae + sizeof_meta,
             s\<lparr>metas := h, alloc_end := w32 (ae + w32 (sz + sizeof_meta)), os := os2\<rparr>)
         }
       }
   }"

section \<open>free, calloc, realloc\<close>

text \<open>Coalescing with the previous block, and the block that is current afterwards.\<close>

definition join_prev :: "metas \<Rightarrow> mptr \<Rightarrow> (metas \<times> mptr) option" where
  "join_prev h0 block = do {
     b \<leftarrow> h0 block;
     p \<leftarrow> h0 (m_prev b);
     if m_free p then do {
       h1 \<leftarrow> upd h0 (m_next b) (\<lambda>m. m\<lparr>m_prev := m_prev b\<rparr>);
       h2 \<leftarrow> upd h1 (m_prev b) (\<lambda>m. m\<lparr>m_next := m_next b\<rparr>);
       h3 \<leftarrow> upd h2 (m_prev b) (\<lambda>m. m\<lparr>m_size := w32 (m_size m + (m_size b + sizeof_meta))\<rparr>);
       Some (h3, m_prev b)
     } else Some (h0, block)
   }"

definition join_next :: "metas \<Rightarrow> mptr \<Rightarrow> metas option" where
  "join_next h0 block = do {
     b \<leftarrow> h0 block;
     n \<leftarrow> h0 (m_next b);
     if m_free n then do {
       h1 \<leftarrow> upd h0 (m_next n) (\<lambda>m. m\<lparr>m_prev := block\<rparr>);
       h2 \<leftarrow> upd h1 block (\<lambda>m. m\<lparr>m_size := w32 (m_size m + (m_size n + sizeof_meta))\<rparr>);
       upd h2 block (\<lambda>m. m\<lparr>m_next := m_next n\<rparr>)
     } else Some h0
   }"

definition free :: "addr \<Rightarrow> 'm heap \<Rightarrow> 'm heap option" where
  "free ptr s =
     (if ptr \<noteq> NULL then do {
        let block = Blk (ptr - sizeof_meta);
        h1 \<leftarrow> upd (metas s) block (\<lambda>m. m\<lparr>m_free := True\<rparr>);
        (h2, block') \<leftarrow> join_prev h1 block;
        h3 \<leftarrow> join_next h2 block';
        Some (s\<lparr>metas := h3\<rparr>)
      } else Some s)"

definition calloc ::
  "(nat \<Rightarrow> 'm \<Rightarrow> (addr \<times> 'm) option) \<Rightarrow> nat \<Rightarrow> nat \<Rightarrow> 'm heap \<Rightarrow> (addr \<times> 'm heap) option" where
  "calloc sbrk num_of_elts elt_size s = do {
     let sz = w32 (num_of_elts * elt_size);
     (ptr, s1) \<leftarrow> malloc sbrk sz s;
     if ptr \<noteq> NULL then Some (ptr, s1\<lparr>hbytes := memset (hbytes s1) ptr 0 sz\<rparr>)
     else Some (ptr, s1)
   }"

definition realloc ::
  "(nat \<Rightarrow> 'm \<Rightarrow> (addr \<times> 'm) option) \<Rightarrow> addr \<Rightarrow> nat \<Rightarrow> 'm heap \<Rightarrow> (addr \<times> 'm heap) option" where
  "realloc sbrk pointer sz s = do {
     (new_block, s1) \<leftarrow> malloc sbrk sz s;
     s2 \<leftarrow> (if pointer \<noteq> NULL \<and> sz = 0 then free pointer s1 else Some s1);
     if pointer \<noteq> NULL \<and> new_block \<noteq> NULL then do {
       old_block \<leftarrow> metas s2 (Blk (pointer - sizeof_meta));
       let min_size = (if sz < m_size old_block then sz else m_size old_block);
       let s3 = s2\<lparr>hbytes := memcpy (hbytes s2) new_block pointer min_size\<rparr>;
       s4 \<leftarrow> free pointer s3;
       Some (new_block, s4)
     } else Some (new_block, s2)
   }"

text \<open>\<^verbatim>\<open>strdup\<close> of the string library, over this heap.\<close>

definition strdup :: "(nat \<Rightarrow> 'm \<Rightarrow> (addr \<times> 'm) option) \<Rightarrow> addr \<Rightarrow> 'm heap \<Rightarrow> (addr \<times> 'm heap) option" where
  "strdup sbrk src s = do {
     n \<leftarrow> strlen (hbytes s) src;
     (d, s1) \<leftarrow> malloc sbrk (w32 (n + 1)) s;
     if d = NULL then Some (NULL, s1)
     else do { b \<leftarrow> strcpy (hbytes s1) d src; Some (d, s1\<lparr>hbytes := b\<rparr>) }
   }"


section \<open>Chains of headers\<close>

text \<open>A cell is a header with its size and its free flag.\<close>

type_synonym cell = "mptr \<times> nat \<times> bool"

definition nxt :: "metas \<Rightarrow> mptr \<Rightarrow> mptr" where
  "nxt h p = m_next (the (h p))"

definition prv :: "metas \<Rightarrow> mptr \<Rightarrow> mptr" where
  "prv h p = m_prev (the (h p))"

fun holds :: "metas \<Rightarrow> cell \<Rightarrow> bool" where
  "holds h (p, sz, fr) = (case h p of None \<Rightarrow> False | Some m \<Rightarrow> m_size m = sz \<and> m_free m = fr)"

definition chain :: "metas \<Rightarrow> cell list \<Rightarrow> bool" where
  "chain h cs \<longleftrightarrow> distinct (map fst cs) \<and> linked (nxt h) (prv h) (map fst cs) \<and> (\<forall>c \<in> set cs. holds h c)"

lemma chain_distinct: "chain h cs \<Longrightarrow> distinct (map fst cs)"
  by (simp add: chain_def)

lemma chain_cell:
  assumes "chain h (xs @ (p, sz, fr) # ys)"
  shows "\<exists>m. h p = Some m \<and> m_size m = sz \<and> m_free m = fr"
  using assms by (auto simp: chain_def split: option.splits)

lemma chain_link:
  assumes "chain h (xs @ (p, c) # (q, d) # ys)"
  shows "nxt h p = q \<and> prv h q = p"
  using assms by (simp add: chain_def linked_append)

lemma chain_pair:
  assumes "chain h (xs @ (p, sp, fp) # (q, sq, fq) # ys)"
  shows "\<exists>mp mq. h p = Some mp \<and> m_size mp = sp \<and> m_free mp = fp \<and> m_next mp = q \<and>
    h q = Some mq \<and> m_size mq = sq \<and> m_free mq = fq \<and> m_prev mq = p"
  using chain_link [OF assms] chain_cell [OF assms] chain_cell [of h "xs @ [(p, sp, fp)]" q sq fq ys] assms
  by (auto simp: nxt_def prv_def)

text \<open>
  Replacing the middle of a chain: the neighbours \<open>p\<close> and \<open>n\<close> keep all but the one pointer
  that leads into the middle.
\<close>

lemma chain_splice:
  assumes ch: "chain h (xs @ (p, sp, fp) # mid @ (n, sn, fn) # ys)"
    and frame: "\<And>q. q \<notin> set (p # n # map fst mid @ map fst mid') \<Longrightarrow> h' q = h q"
    and p: "h p = Some mp" "h' p = Some (mp\<lparr>m_next := np\<rparr>)"
    and n: "h n = Some mn" "h' n = Some (mn\<lparr>m_prev := pn\<rparr>)"
    and dist: "distinct (map fst (xs @ (p, sp, fp) # mid' @ (n, sn, fn) # ys))"
    and lnk: "linked (nxt h') (prv h') (p # map fst mid' @ [n])"
    and hold: "\<forall>c \<in> set mid'. holds h' c"
  shows "chain h' (xs @ (p, sp, fp) # mid' @ (n, sn, fn) # ys)"
proof -
  have same: "\<forall>q \<in> fst ` set xs \<union> fst ` set ys. h' q = h q"
  proof
    fix q
    assume "q \<in> fst ` set xs \<union> fst ` set ys"
    then have "q \<notin> set (p # n # map fst mid @ map fst mid')"
      using distinct_outside [of "map fst xs" p "map fst mid" n "map fst ys" q]
        distinct_outside [of "map fst xs" p "map fst mid'" n "map fst ys" q]
        chain_distinct [OF ch] dist by simp
    then show "h' q = h q" by (rule frame)
  qed
  have "linked (nxt h) (prv h) ((map fst xs @ [p]) @ map fst mid @ n # map fst ys)"
    using ch by (simp add: chain_def)
  then have l1: "linked (nxt h) (prv h) (map fst xs @ [p])"
    and l2: "linked (nxt h) (prv h) (n # map fst ys)"
    by (blast dest: linked_appendD1 linked_appendD2)+
  have same': "nxt h' q = nxt h q" "prv h' q = prv h q" if "q \<in> fst ` set xs \<union> fst ` set ys" for q
    using same that by (simp_all add: nxt_def prv_def)
  have pn: "prv h' p = prv h p" "nxt h' n = nxt h n"
    using p n by (simp_all add: nxt_def prv_def)
  have left: "linked (nxt h') (prv h') (map fst xs @ [p])"
    using l1
  proof (rule linked_cong)
    fix q
    show "q \<in> set (butlast (map fst xs @ [p])) \<Longrightarrow> nxt h' q = nxt h q"
      using same'(1) by simp
    show "q \<in> set (tl (map fst xs @ [p])) \<Longrightarrow> prv h' q = prv h q"
      using same'(2) [of q] pn(1) set_tlD [of q "map fst xs @ [p]"] by auto
  qed
  have right: "linked (nxt h') (prv h') (n # map fst ys)"
    using l2
  proof (rule linked_cong)
    fix q
    show "q \<in> set (butlast (n # map fst ys)) \<Longrightarrow> nxt h' q = nxt h q"
      using same'(1) [of q] pn(2) in_set_butlastD [of q "n # map fst ys"] by auto
    show "q \<in> set (tl (n # map fst ys)) \<Longrightarrow> prv h' q = prv h q"
      using same'(2) by simp
  qed
  have "linked (nxt h') (prv h') (map fst xs @ p # map fst mid' @ n # map fst ys)"
    using linked_overlap [OF left] linked_overlap [of _ _ "p # map fst mid'", OF _ right] lnk by simp
  moreover have "holds h' c" if "c \<in> set xs \<union> set ys" for c
  proof -
    obtain q sz fr where c: "c = (q, sz, fr)" by (cases c)
    have "c \<in> set (xs @ (p, sp, fp) # mid @ (n, sn, fn) # ys)" using that by auto
    then have "holds h c" using ch unfolding chain_def by blast
    moreover have "h' q = h q" using same that c by (metis UnE UnI1 UnI2 fst_conv image_eqI)
    ultimately show ?thesis using c by simp
  qed
  moreover have "holds h' (p, sp, fp)" "holds h' (n, sn, fn)"
    using ch p n by (auto simp: chain_def)
  ultimately show ?thesis using dist hold unfolding chain_def by auto
qed


lemma chain_triple:
  assumes "chain h (xs @ (p, sp, fp) # (q, sq, fq) # (r, sr, fr) # ys)"
  shows "\<exists>mp mq mr. h p = Some mp \<and> m_size mp = sp \<and> m_free mp = fp \<and> m_next mp = q \<and>
    h q = Some mq \<and> m_size mq = sq \<and> m_free mq = fq \<and> m_prev mq = p \<and> m_next mq = r \<and>
    h r = Some mr \<and> m_size mr = sr \<and> m_free mr = fr \<and> m_prev mr = q"
  using chain_pair [OF assms] chain_pair [of h "xs @ [(p, sp, fp)]" q sq fq r sr fr ys] assms by fastforce

lemma chain_quad:
  assumes "chain h (xs @ (p, sp, fp) # (q, sq, fq) # (r, sr, fr) # (t, st, ft) # ys)"
  shows "\<exists>mp mq mr mt. h p = Some mp \<and> m_size mp = sp \<and> m_free mp = fp \<and> m_next mp = q \<and>
    h q = Some mq \<and> m_size mq = sq \<and> m_free mq = fq \<and> m_prev mq = p \<and> m_next mq = r \<and>
    h r = Some mr \<and> m_size mr = sr \<and> m_free mr = fr \<and> m_prev mr = q \<and> m_next mr = t \<and>
    h t = Some mt \<and> m_size mt = st \<and> m_free mt = ft \<and> m_prev mt = r"
  using chain_triple [OF assms] chain_pair [of h "xs @ [(p, sp, fp), (q, sq, fq)]" r sr fr t st ft ys] assms
  by fastforce

text \<open>Changing the size and the flag of one header.\<close>

lemma chain_retag:
  assumes ch: "chain h (xs @ (b, sb, fb) # ys)"
    and m: "h b = Some m" "m_next (f m) = m_next m" "m_prev (f m) = m_prev m"
  shows "chain (h(b \<mapsto> f m)) (xs @ (b, m_size (f m), m_free (f m)) # ys)"
proof -
  let ?h = "h(b \<mapsto> f m)"
  have d: "b \<notin> fst ` set xs \<union> fst ` set ys" using chain_distinct [OF ch] by auto
  have "nxt ?h q = nxt h q \<and> prv ?h q = prv h q" for q
    using m by (simp add: nxt_def prv_def)
  moreover have "holds ?h c" if "c \<in> set xs \<union> set ys" for c
  proof -
    have "holds h c" using ch that unfolding chain_def by auto
    moreover have "fst c \<noteq> b" using d that by (metis UnE UnI1 UnI2 image_eqI)
    ultimately show ?thesis by (cases c) simp
  qed
  ultimately show ?thesis
    using ch unfolding chain_def by (auto intro: linked_mono)
qed

lemma join_prev_used:
  assumes "chain h (xs @ (p, sp, False) # (b, sb, fb) # ys)"
  shows "join_prev h b = Some (h, b)"
  using chain_pair [OF assms] by (auto simp: join_prev_def)

lemma join_next_used:
  assumes "chain h (xs @ (b, sb, fb) # (n, sn, False) # ys)"
  shows "join_next h b = Some h"
  using chain_pair [OF assms] by (auto simp: join_next_def)

lemma join_prev_free:
  assumes ch: "chain h (xs @ (q, sq, fq) # (p, sp, True) # (b, sb, fb) # (n, sn, fn) # ys)"
    and fit: "sp + sb + sizeof_meta < 4294967296"
  shows "\<exists>h'. join_prev h b = Some (h', p) \<and>
     chain h' (xs @ (q, sq, fq) # (p, sp + sb + sizeof_meta, True) # (n, sn, fn) # ys)"
proof -
  obtain mq mp mb mn where q: "h q = Some mq" "m_next mq = p"
    and p: "h p = Some mp" "m_size mp = sp" "m_free mp" "m_prev mp = q" "m_next mp = b"
    and b: "h b = Some mb" "m_prev mb = p" "m_size mb = sb" "m_next mb = n"
    and n: "h n = Some mn" "m_prev mn = b"
    using chain_quad [OF ch] by blast
  have d: "distinct (map fst xs @ q # p # b # n # map fst ys)"
    using chain_distinct [OF ch] by simp
  let ?h = "h(n \<mapsto> mn\<lparr>m_prev := p\<rparr>, p \<mapsto> mp\<lparr>m_next := n, m_size := sp + sb + sizeof_meta\<rparr>)"
  have "join_prev h b = Some (?h, p)"
    using p b n d fit by (auto simp: join_prev_def upd_def w32_simps)
  moreover have "chain ?h (xs @ (q, sq, fq) # [(p, sp + sb + sizeof_meta, True)] @ (n, sn, fn) # ys)"
  proof (rule chain_splice [where mid = "[(p, sp, True), (b, sb, fb)]" and h = h and mp = mq
        and np = p and mn = mn and pn = p])
    show "chain h (xs @ (q, sq, fq) # [(p, sp, True), (b, sb, fb)] @ (n, sn, fn) # ys)"
      using ch by simp
  qed (use q p n d in \<open>auto simp: nxt_def prv_def\<close>)
  ultimately show ?thesis by auto
qed


lemma join_next_free:
  assumes ch: "chain h (xs @ (q, sq, fq) # (b, sb, fb) # (n, sn, True) # (m, sm, fm) # ys)"
    and fit: "sb + sn + sizeof_meta < 4294967296"
  shows "\<exists>h'. join_next h b = Some h' \<and>
     chain h' (xs @ (q, sq, fq) # (b, sb + sn + sizeof_meta, fb) # (m, sm, fm) # ys)"
proof -
  obtain mq mb mn mm where q: "h q = Some mq" "m_next mq = b"
    and b: "h b = Some mb" "m_size mb = sb" "m_free mb = fb" "m_prev mb = q" "m_next mb = n"
    and n: "h n = Some mn" "m_free mn" "m_size mn = sn" "m_next mn = m"
    and m: "h m = Some mm" "m_prev mm = n"
    using chain_quad [OF ch] by blast
  have d: "distinct (map fst xs @ q # b # n # m # map fst ys)"
    using chain_distinct [OF ch] by simp
  let ?h = "h(m \<mapsto> mm\<lparr>m_prev := b\<rparr>, b \<mapsto> mb\<lparr>m_size := sb + sn + sizeof_meta, m_next := m\<rparr>)"
  have "join_next h b = Some ?h"
    using b n m d fit by (auto simp: join_next_def upd_def w32_simps)
  moreover have "chain ?h (xs @ (q, sq, fq) # [(b, sb + sn + sizeof_meta, fb)] @ (m, sm, fm) # ys)"
  proof (rule chain_splice [where mid = "[(b, sb, fb), (n, sn, True)]" and h = h and mp = mq
        and np = b and mn = mm and pn = b])
    show "chain h (xs @ (q, sq, fq) # [(b, sb, fb), (n, sn, True)] @ (m, sm, fm) # ys)"
      using ch by simp
  qed (use q b m d in \<open>auto simp: nxt_def prv_def\<close>)
  ultimately show ?thesis by auto
qed

lemma put_any: "\<exists>m. \<forall>f. put h p f = h(p \<mapsto> f m)"
  by (auto simp: put_def)

text \<open>
  Taking a free block whose right neighbour is in use: it is handed out whole, or split when
  the rest can hold a header and a word.
\<close>

lemma take_block_whole:
  assumes ch: "chain h (xs @ (b, k, True) # ys)" and fit: "n \<le> k" "k < 4294967296"
    and small: "k - n < sizeof_size_t + sizeof_meta"
  shows "\<exists>h'. take_block h b n = Some h' \<and> chain h' (xs @ (b, k, False) # ys)"
proof -
  obtain m where m: "h b = Some m" "m_size m = k" "m_free m" using chain_cell [OF ch] by auto
  have "take_block h b n = Some (h(b \<mapsto> m\<lparr>m_free := False\<rparr>))"
    using m fit small by (simp add: take_block_def upd_def w32_simps)
  then show ?thesis
    using chain_retag [OF ch m(1), of "\<lambda>m. m\<lparr>m_free := False\<rparr>"] m by simp
qed

lemma take_block_split:
  assumes ch: "chain h (xs @ (q, sq, fq) # (Blk a, k, True) # (r, sr, False) # ys)"
    and fit: "n \<le> k" "k < 4294967296" and big: "sizeof_size_t + sizeof_meta \<le> k - n"
    and fresh: "Blk (a + n + sizeof_meta) \<notin>
      set (map fst (xs @ (q, sq, fq) # (Blk a, k, True) # (r, sr, False) # ys))"
  shows "\<exists>h'. take_block h (Blk a) n = Some h' \<and>
     chain h' (xs @ (q, sq, fq) # (Blk a, n, False) #
        (Blk (a + n + sizeof_meta), k - n - sizeof_meta, True) # (r, sr, False) # ys)"
proof -
  let ?b = "Blk a" and ?c = "Blk (a + n + sizeof_meta)"
  obtain mq mb mr where q: "h q = Some mq" "m_next mq = ?b"
    and b: "h ?b = Some mb" "m_size mb = k" "m_free mb" "m_prev mb = q" "m_next mb = r"
    and r: "h r = Some mr" "\<not> m_free mr" "m_prev mr = ?b"
    using chain_triple [OF ch] by blast
  have d: "distinct (map fst xs @ q # ?b # r # map fst ys)" using chain_distinct [OF ch] by simp
  have c: "?c \<noteq> ?b" "r \<noteq> ?c" "q \<noteq> ?c" "?c \<notin> fst ` set xs" "?c \<notin> fst ` set ys" using fresh by auto
  obtain m0 where m0: "\<forall>f. put (h(?b \<mapsto> mb\<lparr>m_free := False\<rparr>)) ?c f
      = (h(?b \<mapsto> mb\<lparr>m_free := False\<rparr>))(?c \<mapsto> f m0)"
    using put_any by blast
  let ?h = "h(?b \<mapsto> mb\<lparr>m_free := False, m_size := n, m_next := ?c\<rparr>, r \<mapsto> mr\<lparr>m_prev := ?c\<rparr>,
     ?c \<mapsto> m0\<lparr>m_size := k - n - sizeof_meta, m_prev := ?b, m_next := r, m_free := True\<rparr>)"
  have br: "?b \<noteq> r" "q \<noteq> ?b" "q \<noteq> r" using d by auto
  have "n = k - (k - n - sizeof_meta + sizeof_meta)" using fit big by simp
  then have "take_block h ?b n = Some ?h"
    using b r c br fit big m0
    by (auto simp: take_block_def upd_def w32_simps Let_def fun_upd_twist)
  moreover have "chain ?h (xs @ (q, sq, fq) #
      [(?b, n, False), (?c, k - n - sizeof_meta, True)] @ (r, sr, False) # ys)"
  proof (rule chain_splice [where mid = "[(?b, k, True)]" and h = h and mp = mq and np = ?b
        and mn = mr and pn = ?c])
    show "chain h (xs @ (q, sq, fq) # [(?b, k, True)] @ (r, sr, False) # ys)"
      using ch by simp
  qed (use q b r d c br in \<open>auto simp: nxt_def prv_def\<close>)
  ultimately show ?thesis by auto
qed

lemma add_block_chain:
  assumes ch: "chain h (xs @ [(q, sq, fq), (Tail, 0, False)])"
    and fresh: "Blk a \<notin> set (map fst (xs @ [(q, sq, fq), (Tail, 0, False)]))"
  shows "\<exists>h'. add_block h a n = Some h' \<and> chain h' (xs @ [(q, sq, fq), (Blk a, n, False), (Tail, 0, False)])"
proof -
  obtain mq mt where q: "h q = Some mq" "m_next mq = Tail"
    and t: "h Tail = Some mt" "m_prev mt = q"
    using chain_pair [of h xs q sq fq Tail 0 False "[]"] ch by auto
  have d: "distinct (map fst xs @ [q, Tail])" using chain_distinct [OF ch] by simp
  have c: "Blk a \<noteq> q" "Blk a \<notin> fst ` set xs" "q \<noteq> Tail" using fresh d by auto
  obtain m0 where m0: "\<forall>f. put h (Blk a) f = h(Blk a \<mapsto> f m0)"
    using put_any by blast
  let ?h = "h(q \<mapsto> mq\<lparr>m_next := Blk a\<rparr>, Tail \<mapsto> mt\<lparr>m_prev := Blk a\<rparr>,
     Blk a \<mapsto> m0\<lparr>m_next := Tail, m_prev := q, m_free := False, m_size := n\<rparr>)"
  have "add_block h a n = Some ?h"
    using q t c m0 by (auto simp: add_block_def upd_def Let_def fun_upd_twist)
  moreover have "chain ?h (xs @ (q, sq, fq) # [(Blk a, n, False)] @ (Tail, 0, False) # [])"
  proof (rule chain_splice [where mid = "[]" and h = h and mp = mq and np = "Blk a"
        and mn = mt and pn = "Blk a"])
    show "chain h (xs @ (q, sq, fq) # [] @ (Tail, 0, False) # [])"
      using ch by simp
  qed (use q t d c in \<open>auto simp: nxt_def prv_def\<close>)
  ultimately show ?thesis by auto
qed

section \<open>The abstract heap\<close>

text \<open>
  The heap as a client should think of it: a list of adjacent blocks, each with its address,
  its payload size and whether it is free. \<open>walk\<close> reads it off the headers.
\<close>

type_synonym block = "addr \<times> nat \<times> bool"

partial_function (option) walk :: "metas \<Rightarrow> mptr \<Rightarrow> block list option" where
  "walk h p = do {
     b \<leftarrow> h p;
     if m_next b = Tail then Some []
     else do {
       n \<leftarrow> h (m_next b);
       rest \<leftarrow> walk h (m_next b);
       Some ((blk_addr (m_next b), m_size n, m_free n) # rest)
     }
   }"

declare walk.simps [code]

definition blocks :: "'m heap \<Rightarrow> block list" where
  "blocks s = the (walk (metas s) Head)"

definition live :: "'m heap \<Rightarrow> addr \<rightharpoonup> nat" where
  "live s = map_of [(a + sizeof_meta, k). (a, k, fr) \<leftarrow> blocks s, \<not> fr]"

fun layout :: "addr \<Rightarrow> block list \<Rightarrow> addr \<Rightarrow> bool" where
  "layout a [] e = (a = e)"
| "layout a ((b, k, fr) # bs) e = (b = a \<and> 4 dvd k \<and> layout (a + k + sizeof_meta) bs e)"

definition apart :: "block \<Rightarrow> block \<Rightarrow> bool" where
  "apart x y \<longleftrightarrow> \<not> (snd (snd x) \<and> snd (snd y))"

text \<open>The abstract operations: first fit with splitting, and release with coalescing.\<close>

fun take_first :: "nat \<Rightarrow> block list \<Rightarrow> (addr \<times> block list) option" where
  "take_first n [] = None"
| "take_first n ((a, k, fr) # bs) =
     (if fr \<and> n \<le> k
      then Some (a, (if sizeof_size_t + sizeof_meta \<le> k - n
             then [(a, n, False), (a + n + sizeof_meta, k - n - sizeof_meta, True)]
             else [(a, k, False)]) @ bs)
      else map_option (\<lambda>(p, bs'). (p, (a, k, fr) # bs')) (take_first n bs))"

fun coalesce :: "block list \<Rightarrow> block list" where
  "coalesce ((a, k, True) # (b, j, True) # bs) = coalesce ((a, k + j + sizeof_meta, True) # bs)"
| "coalesce (x # bs) = x # coalesce bs"
| "coalesce [] = []"

definition release :: "addr \<Rightarrow> block list \<Rightarrow> block list" where
  "release a bs = coalesce (map (\<lambda>(b, k, fr). (b, k, fr \<or> b = a)) bs)"

definition cell_of :: "block \<Rightarrow> cell" where
  "cell_of = (\<lambda>(a, k, fr). (Blk a, k, fr))"

definition cells :: "block list \<Rightarrow> cell list" where
  "cells bs = (Head, 0, False) # map cell_of bs @ [(Tail, 0, False)]"

lemma cell_of_simp [simp]: "cell_of (a, k, fr) = (Blk a, k, fr)"
  by (simp add: cell_of_def)

lemma fst_cell_of: "fst (cell_of b) = Blk (fst b)"
  by (cases b) simp

lemma layout_append: "layout a (xs @ ys) e \<longleftrightarrow> (\<exists>c. layout a xs c \<and> layout c ys e)"
  by (induction a xs e rule: layout.induct) auto

lemma layout_le: "layout a bs e \<Longrightarrow> a \<le> e"
  by (induction a bs e rule: layout.induct) auto

lemma layout_range: "layout a bs e \<Longrightarrow> (b, k, fr) \<in> set bs \<Longrightarrow> a \<le> b \<and> b + k + sizeof_meta \<le> e \<and> 4 dvd k"
proof (induction a bs e rule: layout.induct)
  case (2 a b' k' fr' bs e)
  then show ?case using layout_le [of "a + k' + sizeof_meta" bs e] by auto
qed auto

lemma layout_distinct: "layout a bs e \<Longrightarrow> distinct (map fst bs)"
proof (induction a bs e rule: layout.induct)
  case (2 a b k fr bs e)
  then have "a \<notin> fst ` set bs" using layout_range [of "a + k + sizeof_meta" bs e] by fastforce
  with 2 show ?case by auto
qed auto

text \<open>Two blocks of a layout never overlap, headers included.\<close>

lemma layout_disjoint:
  assumes "layout a bs e" and "(b, k, f) \<in> set bs" and "(c, j, g) \<in> set bs" and "b \<noteq> c"
  shows "b + k + sizeof_meta \<le> c \<or> c + j + sizeof_meta \<le> b"
  using assms
proof (induction a bs e rule: layout.induct)
  case (2 a b' k' fr' bs e)
  then show ?case
    using layout_range [of "a + k' + sizeof_meta" bs e b k f]
      layout_range [of "a + k' + sizeof_meta" bs e c j g] by auto
qed auto

lemma first_fit_chain:
  assumes "chain h (xs @ (p, c) # map cell_of bs @ [(Tail, 0, False)])"
  shows "first_fit h n p = Some (map_option (\<lambda>b. Blk (fst b)) (find (\<lambda>(a, k, fr). fr \<and> n \<le> k) bs))"
  using assms
proof (induction bs arbitrary: xs p c)
  case Nil
  obtain sp fp where "c = (sp, fp)" by (cases c)
  then obtain mp where "h p = Some mp" "m_next mp = Tail"
    using Nil chain_pair [of h xs p sp fp Tail 0 False "[]"] by auto
  then show ?case by (simp add: first_fit.simps)
next
  case (Cons b bs)
  obtain a k fr where b: "b = (a, k, fr)" by (cases b)
  obtain sp fp where c: "c = (sp, fp)" by (cases c)
  have ch: "chain h (xs @ (p, sp, fp) # (Blk a, k, fr) # map cell_of bs @ [(Tail, 0, False)])"
    using Cons.prems b c by simp
  obtain mp mb where m: "h p = Some mp" "m_next mp = Blk a"
    "h (Blk a) = Some mb" "m_size mb = k" "m_free mb = fr"
    using chain_pair [OF ch] by auto
  have "first_fit h n (Blk a)
      = Some (map_option (\<lambda>b. Blk (fst b)) (find (\<lambda>(a, k, fr). fr \<and> n \<le> k) bs))"
    using Cons.IH [of "xs @ [(p, sp, fp)]" "Blk a" "(k, fr)"] ch by simp
  then show ?case using m b by (subst first_fit.simps) (simp add: Let_def)
qed

lemma walk_chain:
  assumes "chain h (xs @ (p, c) # map cell_of bs @ [(Tail, 0, False)])"
  shows "walk h p = Some bs"
  using assms
proof (induction bs arbitrary: xs p c)
  case Nil
  obtain sp fp where "c = (sp, fp)" by (cases c)
  then obtain mp where "h p = Some mp" "m_next mp = Tail"
    using Nil chain_pair [of h xs p sp fp Tail 0 False "[]"] by auto
  then show ?case by (simp add: walk.simps)
next
  case (Cons b bs)
  obtain a k fr where b: "b = (a, k, fr)" by (cases b)
  obtain sp fp where c: "c = (sp, fp)" by (cases c)
  have ch: "chain h (xs @ (p, sp, fp) # (Blk a, k, fr) # map cell_of bs @ [(Tail, 0, False)])"
    using Cons.prems b c by simp
  obtain mp mb where m: "h p = Some mp" "m_next mp = Blk a"
    "h (Blk a) = Some mb" "m_size mb = k" "m_free mb = fr"
    using chain_pair [OF ch] by auto
  have "walk h (Blk a) = Some bs"
    using Cons.IH [of "xs @ [(p, sp, fp)]" "Blk a" "(k, fr)"] ch by simp
  then show ?case using m b by (subst walk.simps) simp
qed

lemma blocks_cells:
  assumes "chain (metas s) (cells bs)"
  shows "blocks s = bs"
  using walk_chain [of "metas s" "[]" Head "(0, False)" bs] assms by (simp add: blocks_def cells_def)

lemma fst_cells: "map fst (cells bs) = Head # map Blk (map fst bs) @ [Tail]"
  by (simp add: cells_def fst_cell_of)

lemma distinct_cells: "layout a bs e \<Longrightarrow> distinct (map fst (cells bs))"
  using layout_distinct [of a bs e] unfolding fst_cells
  by (auto simp: distinct_map inj_on_def simp del: map_map)

lemma cells_split: "cells (xs @ b # ys) =
    ((Head, 0, False) # map cell_of xs) @ cell_of b # (map cell_of ys @ [(Tail, 0, False)])"
  by (simp add: cells_def)

text \<open>The neighbours of a block: the sentinels count as blocks in use.\<close>

definition last_free :: "block list \<Rightarrow> bool" where
  "last_free xs = (xs \<noteq> [] \<and> snd (snd (last xs)))"

definition hd_free :: "block list \<Rightarrow> bool" where
  "hd_free ys = (ys \<noteq> [] \<and> snd (snd (hd ys)))"

lemma left_cell:
  obtains zs q sq where "(Head, 0, False) # map cell_of xs = zs @ [(q, sq, last_free xs)]"
proof (cases xs rule: rev_cases)
  case Nil
  then show ?thesis using that [of "[]" Head 0] by (simp add: last_free_def)
next
  case (snoc ys y)
  obtain a k fr where "y = (a, k, fr)" by (cases y)
  then show ?thesis using that [of "(Head, 0, False) # map cell_of ys" "Blk a" k] snoc
    by (simp add: last_free_def)
qed

lemma right_cell:
  obtains r sr zs where "map cell_of ys @ [(Tail, 0, False)] = (r, sr, hd_free ys) # zs"
proof (cases ys)
  case Nil
  then show ?thesis using that [of Tail 0 "[]"] by (simp add: hd_free_def)
next
  case (Cons y zs)
  obtain a k fr where "y = (a, k, fr)" by (cases y)
  then show ?thesis using that [of "Blk a" k "map cell_of zs @ [(Tail, 0, False)]"] Cons
    by (simp add: hd_free_def)
qed

lemma apart_next: "successively apart (xs @ (a, k, True) # ys) \<Longrightarrow> \<not> hd_free ys"
  by (cases ys) (auto simp: successively_append_iff apart_def hd_free_def)

lemma take_first_split:
  assumes "\<forall>y \<in> set xs. \<not> (\<lambda>(a, k, fr). fr \<and> n \<le> k) y" and "n \<le> k"
  shows "take_first n (xs @ (a, k, True) # ys) = Some (a, xs @
     (if sizeof_size_t + sizeof_meta \<le> k - n
      then [(a, n, False), (a + n + sizeof_meta, k - n - sizeof_meta, True)]
      else [(a, k, False)]) @ ys)"
  using assms
proof (induction xs)
  case (Cons x xs)
  obtain b j fr where x: "x = (b, j, fr)" by (cases x)
  have no: "\<not> (fr \<and> n \<le> j)" using Cons.prems x by simp
  have "take_first n ((x # xs) @ (a, k, True) # ys)
      = map_option (\<lambda>(p, bs'). (p, x # bs')) (take_first n (xs @ (a, k, True) # ys))"
    by (simp only: x append_Cons take_first.simps if_not_P [OF no])
  also have "take_first n (xs @ (a, k, True) # ys) = Some (a, xs @
      (if sizeof_size_t + sizeof_meta \<le> k - n
       then [(a, n, False), (a + n + sizeof_meta, k - n - sizeof_meta, True)]
       else [(a, k, False)]) @ ys)"
    using Cons by (simp split del: if_split)
  finally show ?case by simp
qed simp

lemma take_first_none: "find (\<lambda>(a, k, fr). fr \<and> n \<le> k) bs = None \<Longrightarrow> take_first n bs = None"
  by (induction n bs rule: take_first.induct) (auto split: if_splits)

text \<open>The parts of a layout after splitting a block.\<close>

lemma layout_split:
  assumes "layout a0 (xs @ (a, k, fr) # ys) e" and "4 dvd n" and "n + sizeof_meta \<le> k"
  shows "layout a0 (xs @ (a, n, f) # (a + n + sizeof_meta, k - n - sizeof_meta, g) # ys) e"
proof -
  obtain c where c: "layout a0 xs c" "a = c" "4 dvd k" "layout (c + k + sizeof_meta) ys e"
    using assms(1) by (auto simp: layout_append)
  have "c + n + sizeof_meta + (k - n - sizeof_meta) + sizeof_meta = c + k + sizeof_meta"
    using assms(3) by simp
  moreover have "4 dvd k - n - sizeof_meta" using c(3) assms(2)
    by presburger
  ultimately have "layout c ((a, n, f) # (a + n + sizeof_meta, k - n - sizeof_meta, g) # ys) e"
    using c(2,4) assms(2) by (simp only: layout.simps simp_thms)
  then show ?thesis using c(1) by (auto simp: layout_append simp del: layout.simps)
qed


lemma layout_merge:
  assumes "layout a0 (xs @ (a, j, f) # (b, k, g) # ys) e"
  shows "layout a0 (xs @ (a, j + k + sizeof_meta, f') # ys) e"
proof -
  have "a + (j + k + sizeof_meta) + sizeof_meta = a + j + sizeof_meta + k + sizeof_meta" by simp
  then show ?thesis using assms by (auto simp: layout_append)
qed

section \<open>The headers implement the abstract heap\<close>

lemma take_block_refines:
  assumes ch: "chain h (cells bs)" and lay: "layout a0 bs e" and e: "e < 4294967296"
    and ap: "successively apart bs" and n: "4 dvd n"
    and fnd: "find (\<lambda>(a, k, fr). fr \<and> n \<le> k) bs = Some b"
  shows "\<exists>h' bs'. take_block h (Blk (fst b)) n = Some h' \<and> take_first n bs = Some (fst b, bs') \<and>
     chain h' (cells bs')"
proof -
  obtain xs ys where bs: "bs = xs @ b # ys" and fit: "(\<lambda>(a, k, fr). fr \<and> n \<le> k) b"
    and before: "\<forall>y \<in> set xs. \<not> (\<lambda>(a, k, fr). fr \<and> n \<le> k) y"
    using fnd by (rule find_SomeE)
  obtain a k where b: "b = (a, k, True)" and nk: "n \<le> k" using fit by (cases b) auto
  have k: "a + k + sizeof_meta \<le> e" using layout_range [OF lay] bs b by auto
  obtain zs q sq where l: "(Head, 0, False) # map cell_of xs = zs @ [(q, sq, last_free xs)]"
    by (rule left_cell)
  obtain r sr ws where r: "map cell_of ys @ [(Tail, 0, False)] = (r, sr, False) # ws"
    using right_cell [of ys] apart_next [of xs a k ys] ap bs b by (metis (full_types))
  have ch': "chain h (((Head, 0, False) # map cell_of xs) @ (Blk a, k, True) # map cell_of ys @ [(Tail, 0, False)])"
    using ch bs b cells_split [of xs b ys] by simp
  show ?thesis
  proof (cases "sizeof_size_t + sizeof_meta \<le> k - n")
    case True
    let ?c = "Blk (a + n + sizeof_meta)"
    have "layout a0 (xs @ (a, n, False) # (a + n + sizeof_meta, k - n - sizeof_meta, True) # ys) e"
      using layout_split [of a0 xs a k True ys e n] lay bs b n True by simp
    then have d: "distinct (map fst (cells (xs @ (a, n, False) # (a + n + sizeof_meta, k - n - sizeof_meta, True) # ys)))"
      by (rule distinct_cells)
    have "?c \<notin> set (map fst (zs @ (q, sq, last_free xs) # (Blk a, k, True) # (r, sr, False) # ws))"
      using d l r cells_split [of xs "(a, n, False)" "(a + n + sizeof_meta, k - n - sizeof_meta, True) # ys"]
      by auto
    then obtain h' where h': "take_block h (Blk a) n = Some h'"
      "chain h' (zs @ (q, sq, last_free xs) # (Blk a, n, False) # (?c, k - n - sizeof_meta, True) # (r, sr, False) # ws)"
      using take_block_split [of h zs q sq "last_free xs" a k r sr ws n] ch' l r nk k e True by auto
    moreover have "zs @ (q, sq, last_free xs) # (Blk a, n, False) # (?c, k - n - sizeof_meta, True) # (r, sr, False) # ws
       = cells (xs @ (a, n, False) # (a + n + sizeof_meta, k - n - sizeof_meta, True) # ys)"
      using l r cells_split [of xs "(a, n, False)" "(a + n + sizeof_meta, k - n - sizeof_meta, True) # ys"]
      by simp
    ultimately show ?thesis
      using take_first_split [OF before nk, of a ys] bs b True by auto
  next
    case False
    then obtain h' where h': "take_block h (Blk a) n = Some h'"
      "chain h' (((Head, 0, False) # map cell_of xs) @ (Blk a, k, False) # map cell_of ys @ [(Tail, 0, False)])"
      using take_block_whole [OF ch' nk] k e by auto
    then show ?thesis
      using take_first_split [OF before nk, of a ys] bs b False cells_split [of xs "(a, k, False)" ys] by auto
  qed
qed


text \<open>\<^verbatim>\<open>free\<close> joins the released block with a free neighbour on either side.\<close>

lemma join_prev_cells:
  assumes ch: "chain h (cells (xs @ (a, k, True) # ys))"
    and lay: "layout a0 (xs @ (a, k, True) # ys) e" and e: "e < 4294967296"
  shows "\<exists>h' xs' a' k'. join_prev h (Blk a) = Some (h', Blk a') \<and>
     chain h' (cells (xs' @ (a', k', True) # ys)) \<and>
     (if last_free xs then \<exists>j. xs = xs' @ [(a', j, True)] \<and> k' = j + k + sizeof_meta
      else xs' = xs \<and> a' = a \<and> k' = k)"
proof (cases "last_free xs")
  case True
  then obtain xs' p where "xs = xs' @ [p]" "snd (snd p)"
    by (cases xs rule: rev_cases) (auto simp: last_free_def)
  then obtain a' j where xs: "xs = xs' @ [(a', j, True)]" by (cases p) auto
  obtain zs q sq where l: "(Head, 0, False) # map cell_of xs' = zs @ [(q, sq, last_free xs')]"
    by (rule left_cell)
  obtain r sr ws where r: "map cell_of ys @ [(Tail, 0, False)] = (r, sr, hd_free ys) # ws"
    by (rule right_cell)
  have "cells (xs @ (a, k, True) # ys)
      = zs @ (q, sq, last_free xs') # (Blk a', j, True) # (Blk a, k, True) # (r, sr, hd_free ys) # ws"
    using cells_split [of xs' "(a', j, True)" "(a, k, True) # ys"] xs l r by simp
  moreover have "j + k + sizeof_meta < 4294967296"
    using lay e layout_le by (auto simp: xs layout_append dest!: layout_le)
  ultimately obtain h' where "join_prev h (Blk a) = Some (h', Blk a')"
    "chain h' (zs @ (q, sq, last_free xs') # (Blk a', j + k + sizeof_meta, True) # (r, sr, hd_free ys) # ws)"
    using join_prev_free ch by metis
  moreover have "zs @ (q, sq, last_free xs') # (Blk a', j + k + sizeof_meta, True) # (r, sr, hd_free ys) # ws
      = cells (xs' @ (a', j + k + sizeof_meta, True) # ys)"
    using cells_split [of xs' "(a', j + k + sizeof_meta, True)" ys] l r by simp
  ultimately show ?thesis using True xs by auto
next
  case False
  obtain zs q sq where l: "(Head, 0, False) # map cell_of xs = zs @ [(q, sq, False)]"
    using left_cell [of xs] False by (metis (full_types))
  then have "cells (xs @ (a, k, True) # ys) = zs @ (q, sq, False) # (Blk a, k, True) #
      map cell_of ys @ [(Tail, 0, False)]"
    using cells_split [of xs "(a, k, True)" ys] by simp
  then have "join_prev h (Blk a) = Some (h, Blk a)" using join_prev_used ch by metis
  then show ?thesis using False ch by auto
qed

lemma join_next_cells:
  assumes ch: "chain h (cells (xs @ (a, k, True) # ys))"
    and lay: "layout a0 (xs @ (a, k, True) # ys) e" and e: "e < 4294967296"
  shows "\<exists>h' ys' k'. join_next h (Blk a) = Some h' \<and> chain h' (cells (xs @ (a, k', True) # ys')) \<and>
     (if hd_free ys then \<exists>b j. ys = (b, j, True) # ys' \<and> k' = k + j + sizeof_meta
      else ys' = ys \<and> k' = k)"
proof (cases "hd_free ys")
  case True
  then obtain ys' p where "ys = p # ys'" "snd (snd p)"
    by (cases ys) (auto simp: hd_free_def)
  then obtain b j where ys: "ys = (b, j, True) # ys'" by (cases p) auto
  obtain zs q sq where l: "(Head, 0, False) # map cell_of xs = zs @ [(q, sq, last_free xs)]"
    by (rule left_cell)
  obtain r sr ws where r: "map cell_of ys' @ [(Tail, 0, False)] = (r, sr, hd_free ys') # ws"
    by (rule right_cell)
  have "cells (xs @ (a, k, True) # ys)
      = zs @ (q, sq, last_free xs) # (Blk a, k, True) # (Blk b, j, True) # (r, sr, hd_free ys') # ws"
    using cells_split [of xs "(a, k, True)" ys] ys l r by simp
  moreover have "k + j + sizeof_meta < 4294967296"
    using lay e layout_le by (auto simp: ys layout_append dest!: layout_le)
  ultimately obtain h' where "join_next h (Blk a) = Some h'"
    "chain h' (zs @ (q, sq, last_free xs) # (Blk a, k + j + sizeof_meta, True) # (r, sr, hd_free ys') # ws)"
    using join_next_free ch by metis
  moreover have "zs @ (q, sq, last_free xs) # (Blk a, k + j + sizeof_meta, True) # (r, sr, hd_free ys') # ws
      = cells (xs @ (a, k + j + sizeof_meta, True) # ys')"
    using cells_split [of xs "(a, k + j + sizeof_meta, True)" ys'] l r by simp
  ultimately show ?thesis using True ys by auto
next
  case False
  obtain r sr ws where r: "map cell_of ys @ [(Tail, 0, False)] = (r, sr, False) # ws"
    using right_cell [of ys] False by (metis (full_types))
  then have "cells (xs @ (a, k, True) # ys) = ((Head, 0, False) # map cell_of xs) @
      (Blk a, k, True) # (r, sr, False) # ws"
    using cells_split [of xs "(a, k, True)" ys] by simp
  then have "join_next h (Blk a) = Some h" using join_next_used ch by metis
  then show ?thesis using False ch by auto
qed

lemma coalesce_Cons: "\<not> (snd (snd x) \<and> hd_free bs) \<Longrightarrow> coalesce (x # bs) = x # coalesce bs"
  by (induction "x # bs" rule: coalesce.induct) (auto simp: hd_free_def)

lemma coalesce_append:
  assumes "successively apart xs" and "\<not> (last_free xs \<and> hd_free ys)"
  shows "coalesce (xs @ ys) = xs @ coalesce ys"
  using assms
proof (induction xs)
  case (Cons x xs)
  have "\<not> (snd (snd x) \<and> hd_free (xs @ ys))"
    using Cons.prems by (cases xs) (auto simp: apart_def last_free_def hd_free_def)
  moreover have "coalesce (xs @ ys) = xs @ coalesce ys"
    using Cons by (cases xs) (auto simp: last_free_def)
  ultimately show ?case by (simp add: coalesce_Cons)
qed simp

lemma coalesce_apart: "successively apart bs \<Longrightarrow> coalesce bs = bs"
  using coalesce_append [of bs "[]"] by (simp add: hd_free_def)

lemma release_split:
  assumes lay: "layout a0 (xs @ (a, k, False) # ys) e"
    and ap: "successively apart (xs @ (a, k, False) # ys)"
  shows "release a (xs @ (a, k, False) # ys) = coalesce (xs @ (a, k, True) # ys)"
proof -
  have "a \<notin> fst ` set xs" "a \<notin> fst ` set ys" using layout_distinct [OF lay] by auto
  then have "map (\<lambda>(b, k, fr). (b, k, fr \<or> b = a)) xs = xs" "map (\<lambda>(b, k, fr). (b, k, fr \<or> b = a)) ys = ys"
    by (force intro: map_idI)+
  then show ?thesis by (simp add: release_def)
qed

text \<open>The released block swallows its free neighbours.\<close>

lemma coalesce_middle:
  assumes ap: "successively apart (xs @ (a, k, False) # ys)"
    and prev: "if last_free xs then \<exists>j. xs = xs' @ [(a', j, True)] \<and> k' = j + k + sizeof_meta
      else xs' = xs \<and> a' = a \<and> k' = k"
    and nxt: "if hd_free ys then \<exists>b j. ys = (b, j, True) # ys' \<and> k'' = k' + j + sizeof_meta
      else ys' = ys \<and> k'' = k'"
  shows "coalesce (xs @ (a, k, True) # ys) = xs' @ (a', k'', True) # ys'"
    and "successively apart (xs' @ (a', k'', True) # ys')"
proof -
  have xs: "successively apart xs" and ys: "successively apart ys"
    using ap by (auto simp: successively_append_iff successively_Cons)
  have xs': "successively apart xs'" "\<not> last_free xs'"
    using xs prev by (auto simp: successively_append_iff apart_def last_free_def split: if_splits)
  have ys': "successively apart ys'" "\<not> hd_free ys'"
    using ys nxt by (auto simp: successively_Cons apart_def hd_free_def split: if_splits)
  have "coalesce ((a', k', True) # ys) = (a', k'', True) # ys'"
    using nxt ys' coalesce_Cons [of "(a', k'', True)" ys'] by (auto simp: coalesce_apart split: if_splits)
  moreover have "coalesce (xs @ (a, k, True) # ys) = xs' @ coalesce ((a', k', True) # ys)"
    using prev xs' coalesce_append [of xs' "(a', j, True) # (a, k, True) # ys" for j]
      coalesce_append [of xs' "(a, k, True) # ys"] by (auto split: if_splits)
  ultimately show "coalesce (xs @ (a, k, True) # ys) = xs' @ (a', k'', True) # ys'" by simp
  show "successively apart (xs' @ (a', k'', True) # ys')"
    using xs' ys' by (auto simp: successively_append_iff successively_Cons apart_def last_free_def hd_free_def)
qed


lemma take_firstE:
  assumes "take_first n bs = Some (a, bs')"
  obtains xs k ys where "bs = xs @ (a, k, True) # ys" and "n \<le> k"
    and "bs' = xs @ (if sizeof_size_t + sizeof_meta \<le> k - n
       then [(a, n, False), (a + n + sizeof_meta, k - n - sizeof_meta, True)]
       else [(a, k, False)]) @ ys"
proof (cases "find (\<lambda>(a, k, fr). fr \<and> n \<le> k) bs")
  case None
  then show ?thesis using assms take_first_none by fastforce
next
  case (Some b)
  then obtain xs ys where bs: "bs = xs @ b # ys" and fit: "(\<lambda>(a, k, fr). fr \<and> n \<le> k) b"
    and before: "\<forall>y \<in> set xs. \<not> (\<lambda>(a, k, fr). fr \<and> n \<le> k) y"
    by (rule find_SomeE)
  obtain a' k where b: "b = (a', k, True)" "n \<le> k" using fit by (cases b) auto
  let ?r = "(if sizeof_size_t + sizeof_meta \<le> k - n
     then [(a', n, False), (a' + n + sizeof_meta, k - n - sizeof_meta, True)] else [(a', k, False)])"
  have "Some (a, bs') = Some (a', xs @ ?r @ ys)"
    using assms take_first_split [OF before b(2), of a' ys] unfolding bs b(1) by (rule trans [OF sym])
  then have "a = a'" and "bs' = xs @ ?r @ ys" by (simp_all only: option.inject prod.inject)
  then show ?thesis using that [of xs k ys] bs b by blast
qed

lemma take_first_layout:
  assumes "take_first n bs = Some (a, bs')" and "layout a0 bs e" and "4 dvd n"
  shows "layout a0 bs' e"
proof -
  obtain xs k ys where bs: "bs = xs @ (a, k, True) # ys" "n \<le> k"
    and bs': "bs' = xs @ (if sizeof_size_t + sizeof_meta \<le> k - n
       then [(a, n, False), (a + n + sizeof_meta, k - n - sizeof_meta, True)]
       else [(a, k, False)]) @ ys"
    using assms(1) by (rule take_firstE)
  show ?thesis
  proof (cases "sizeof_size_t + sizeof_meta \<le> k - n")
    case True
    then show ?thesis using layout_split [of a0 xs a k True ys e n] assms(2,3) bs bs' by simp
  next
    case False
    then show ?thesis using assms(2) bs bs' by (auto simp: layout_append)
  qed
qed

lemma take_first_apart:
  assumes "take_first n bs = Some (a, bs')" and "successively apart bs"
  shows "successively apart bs'"
proof -
  obtain xs k ys where bs: "bs = xs @ (a, k, True) # ys"
    and bs': "bs' = xs @ (if sizeof_size_t + sizeof_meta \<le> k - n
       then [(a, n, False), (a + n + sizeof_meta, k - n - sizeof_meta, True)]
       else [(a, k, False)]) @ ys"
    using assms(1) by (rule take_firstE)
  then show ?thesis using assms(2) apart_next [of xs a k ys]
    by (auto simp: successively_append_iff successively_Cons apart_def hd_free_def)
qed

text \<open>What is in use after each abstract operation.\<close>

definition used :: "block list \<Rightarrow> (addr \<times> nat) set" where
  "used bs = {(a, k). (a, k, False) \<in> set bs}"

lemma used_append [simp]: "used (xs @ ys) = used xs \<union> used ys"
  by (auto simp: used_def)

lemma used_Cons [simp]: "used ((a, k, fr) # bs) = (if fr then {} else {(a, k)}) \<union> used bs"
  by (auto simp: used_def)

lemma used_Nil [simp]: "used [] = {}"
  by (simp add: used_def)

lemma used_layout:
  assumes "layout a0 bs e" and "(a, k) \<in> used bs" and "(a, j) \<in> used bs"
  shows "k = j"
  using layout_distinct [OF assms(1)] assms(2,3) by (force simp: used_def distinct_map inj_on_def)

lemma take_first_used:
  assumes "take_first n bs = Some (a, bs')"
  shows "\<exists>k. n \<le> k \<and> used bs' = insert (a, k) (used bs)"
proof -
  obtain xs k ys where bs: "bs = xs @ (a, k, True) # ys" "n \<le> k"
    and bs': "bs' = xs @ (if sizeof_size_t + sizeof_meta \<le> k - n
       then [(a, n, False), (a + n + sizeof_meta, k - n - sizeof_meta, True)]
       else [(a, k, False)]) @ ys"
    using assms(1) by (rule take_firstE)
  then show ?thesis by (cases "sizeof_size_t + sizeof_meta \<le> k - n") auto
qed

lemma take_first_unused:
  assumes "take_first n bs = Some (a, bs')" and "layout a0 bs e"
  shows "(a, j) \<notin> used bs"
proof -
  obtain xs k ys where bs: "bs = xs @ (a, k, True) # ys"
    using assms(1) by (rule take_firstE)
  then show ?thesis using layout_distinct [OF assms(2)] by (force simp: used_def)
qed

lemma live_iff:
  assumes "layout a0 (blocks s) e"
  shows "live s p = Some k \<longleftrightarrow> sizeof_meta \<le> p \<and> (p - sizeof_meta, k) \<in> used (blocks s)"
proof -
  have "distinct (map fst [(a + sizeof_meta, k). (a, k, fr) \<leftarrow> bs, \<not> fr]) \<and>
      set [(a + sizeof_meta, k). (a, k, fr) \<leftarrow> bs, \<not> fr] = {(a + sizeof_meta, k) |a k. (a, k) \<in> used bs}"
    if "layout a0 bs e" for bs
    using layout_distinct [OF that]
  proof (induction bs)
    case (Cons b bs)
    then show ?case by (cases b) (force simp: used_def)
  qed auto
  then show ?thesis
    unfolding live_def using assms by (subst map_of_eq_Some_iff) force+
qed


lemma long_align_bounds:
  assumes "n + 4 < 4294967296"
  shows "n \<le> long_align n" and "long_align n \<le> n + 3" and "4 dvd long_align n"
proof -
  have "long_align n = (if n mod 4 \<noteq> 0 then n + (4 - n mod 4) else n)"
    using assms by (simp add: long_align_def w32_simps)
  then show "n \<le> long_align n" "long_align n \<le> n + 3" "4 dvd long_align n"
    by (simp_all split: if_splits) presburger+
qed

section \<open>The allocator over any page provider\<close>

definition heap_ok :: "('m \<Rightarrow> addr) \<Rightarrow> ('m \<Rightarrow> bool) \<Rightarrow> 'm heap \<Rightarrow> bool" where
  "heap_ok brk ready s \<longleftrightarrow> ready (os s) \<and> alloc_end s \<le> brk (os s) \<and>
     chain (metas s) (cells (blocks s)) \<and> successively apart (blocks s) \<and>
     (\<exists>a. layout a (blocks s) (alloc_end s))"

text \<open>Where the next new block goes.\<close>

definition heap_top :: "('m \<Rightarrow> addr) \<Rightarrow> 'm heap \<Rightarrow> addr" where
  "heap_top brk s = (if alloc_end s = 0 then brk (os s) else alloc_end s)"

definition alloc_spec :: "nat \<Rightarrow> addr \<Rightarrow> block list \<Rightarrow> addr \<times> block list" where
  "alloc_spec n e bs = (case take_first n bs of
     Some (a, bs') \<Rightarrow> (a, bs') | None \<Rightarrow> (e, bs @ [(e, n, False)]))"

lemma heap_ok_start:
  assumes "ready m"
  shows "heap_ok brk ready (heap_start m)" and "live (heap_start m) = Map.empty"
proof -
  have "chain (metas (heap_start m)) (cells [])"
    by (auto simp: chain_def cells_def heap_start_def nxt_def prv_def)
  moreover from this have "blocks (heap_start m) = []" by (rule blocks_cells)
  ultimately show "heap_ok brk ready (heap_start m)" and "live (heap_start m) = Map.empty"
    using assms by (simp_all add: heap_ok_def live_def heap_start_def)
qed

context sbrk_provider
begin

lemma grow_returns:
  assumes "ready m" and "ae \<le> brk m" and "ae + need + 4096 < limit"
  shows "\<exists>m'. grow sbrk ae need m = Some (True, m') \<and> ready m' \<and> ae + need \<le> brk m' \<and>
    brk m \<le> brk m' \<and> brk m' \<le> max (brk m) (ae + need + 4096)"
  using assms
proof (induction "ae + need - brk m" arbitrary: m rule: less_induct)
  case less
  have b: "sub32 (brk m) ae = brk m - ae"
    using brk_range [OF less.prems(1)] less.prems(2) by (simp add: w32_simps)
  show ?case
  proof (cases "brk m - ae < need")
    case True
    then have "brk m + 4096 < limit" using less.prems by linarith
    then obtain r m' where m': "sbrk 4096 m = Some (r, m')" "r \<noteq> 4294967295"
      "brk m < brk m'" "brk m' \<le> brk m + 4096" "ready m'"
      using sbrk_page [OF less.prems(1)] by blast
    have "\<exists>m''. grow sbrk ae need m' = Some (True, m'') \<and> ready m'' \<and> ae + need \<le> brk m'' \<and>
      brk m' \<le> brk m'' \<and> brk m'' \<le> max (brk m') (ae + need + 4096)"
      by (rule less.hyps) (use m' less.prems True in auto)
    moreover have "grow sbrk ae need m = grow sbrk ae need m'"
      using m' b True sbrk_zero [OF less.prems(1)] by (subst grow.simps) simp
    ultimately show ?thesis using m' True less.prems by auto
  next
    case False
    then show ?thesis
      using b less.prems sbrk_zero [OF less.prems(1)] by (subst grow.simps) auto
  qed
qed

lemma heap_ok_layout_top:
  assumes "heap_ok brk ready s"
  shows "\<exists>a. layout a (blocks s) (heap_top brk s)" and "heap_top brk s \<le> brk (os s)" and "0 < heap_top brk s"
proof -
  obtain a where a: "layout a (blocks s) (alloc_end s)" using assms by (auto simp: heap_ok_def)
  have "blocks s = []" if "alloc_end s = 0"
    using a that layout_range [OF a] by (cases "blocks s") auto
  then show "\<exists>a. layout a (blocks s) (heap_top brk s)"
    using a by (cases "alloc_end s = 0") (auto simp: heap_top_def)
  show "heap_top brk s \<le> brk (os s)" "0 < heap_top brk s"
    using assms brk_range [of "os s"] by (auto simp: heap_ok_def heap_top_def)
qed

lemma malloc_refines:
  assumes ok: "heap_ok brk ready s" and room: "brk (os s) + n + 4116 < limit"
  shows "\<exists>s'. malloc sbrk n s = Some (fst (alloc_spec (long_align n) (heap_top brk s) (blocks s)) + sizeof_meta, s') \<and>
    blocks s' = snd (alloc_spec (long_align n) (heap_top brk s) (blocks s)) \<and> heap_ok brk ready s' \<and>
    hbytes s' = hbytes s \<and> brk (os s) \<le> brk (os s') \<and> brk (os s') \<le> brk (os s) + n + 4116"
proof -
  let ?n = "long_align n"
  have n: "n \<le> ?n" "?n \<le> n + 3" "4 dvd ?n" using long_align_bounds [of n] room limit_le by simp_all
  have ch: "chain (metas s) (cells (blocks s))" and ap: "successively apart (blocks s)"
    and rd: "ready (os s)"
    using ok by (simp_all add: heap_ok_def)
  obtain a where lay: "layout a (blocks s) (alloc_end s)" using ok by (auto simp: heap_ok_def)
  have ff: "first_fit (metas s) ?n Head
      = Some (map_option (\<lambda>b. Blk (fst b)) (find (\<lambda>(a, k, fr). fr \<and> ?n \<le> k) (blocks s)))"
    using first_fit_chain [of "metas s" "[]" Head "(0, False)" "blocks s"] ch by (simp add: cells_def)
  show ?thesis
  proof (cases "find (\<lambda>(a, k, fr). fr \<and> ?n \<le> k) (blocks s)")
    case (Some b)
    have "alloc_end s < 4294967296"
      using ok brk_range [OF rd] by (auto simp: heap_ok_def)
    then obtain h' bs' where t: "take_block (metas s) (Blk (fst b)) ?n = Some h'"
      "take_first ?n (blocks s) = Some (fst b, bs')" "chain h' (cells bs')"
      using take_block_refines [OF ch lay _ ap n(3) Some] by blast
    let ?s = "s\<lparr>metas := h'\<rparr>"
    have bs: "blocks ?s = bs'" using blocks_cells [of ?s bs'] t(3) by simp
    have "heap_ok brk ready ?s"
      using ok bs t take_first_layout [OF t(2) lay n(3)] take_first_apart [OF t(2) ap]
      by (auto simp: heap_ok_def)
    moreover have "malloc sbrk n s = Some (fst b + sizeof_meta, ?s)"
      using ff Some t by (simp add: malloc_def Let_def)
    ultimately show ?thesis using bs t by (auto simp: alloc_spec_def)
  next
    case None
    let ?e = "heap_top brk s"
    obtain a' where lay': "layout a' (blocks s) ?e" using heap_ok_layout_top(1) [OF ok] by blast
    have e: "?e \<le> brk (os s)" by (rule heap_ok_layout_top(2) [OF ok])
    have w: "w32 (?n + sizeof_meta) = ?n + sizeof_meta" "w32 (?e + (?n + sizeof_meta)) = ?e + (?n + sizeof_meta)"
      using n e room limit_le by (simp_all add: w32_simps)
    obtain m where g: "grow sbrk ?e (?n + sizeof_meta) (os s) = Some (True, m)" "ready m"
      "?e + (?n + sizeof_meta) \<le> brk m" "brk (os s) \<le> brk m"
      "brk m \<le> max (brk (os s)) (?e + (?n + sizeof_meta) + 4096)"
      using grow_returns [OF rd e, of "?n + sizeof_meta"] n e room limit_le by auto
    have bk: "(if alloc_end s = 0 then sbrk 0 (os s) else Some (alloc_end s, os s)) = Some (?e, os s)"
      using sbrk_zero [OF rd] by (simp add: heap_top_def)
    let ?bs = "blocks s @ [(?e, ?n, False)]"
    have layn: "layout a' ?bs (?e + (?n + sizeof_meta))" using lay' n by (auto simp: layout_append add.assoc)
    obtain zs q sq where l: "(Head, 0, False) # map cell_of (blocks s) = zs @ [(q, sq, last_free (blocks s))]"
      by (rule left_cell)
    have "Blk ?e \<notin> set (map fst (zs @ [(q, sq, last_free (blocks s)), (Tail, 0, False)]))"
      using distinct_cells [OF layn] l cells_split [of "blocks s" "(?e, ?n, False)" "[]"] by auto
    moreover have "chain (metas s) (zs @ [(q, sq, last_free (blocks s)), (Tail, 0, False)])"
      using ch l unfolding cells_def append_Cons [symmetric] by simp
    ultimately obtain h' where h': "add_block (metas s) ?e ?n = Some h'"
      "chain h' (zs @ [(q, sq, last_free (blocks s)), (Blk ?e, ?n, False), (Tail, 0, False)])"
      using add_block_chain by blast
    then have ch': "chain h' (cells ?bs)"
      using l cells_split [of "blocks s" "(?e, ?n, False)" "[]"] by simp
    let ?s = "s\<lparr>metas := h', alloc_end := ?e + (?n + sizeof_meta), os := m\<rparr>"
    have bs: "blocks ?s = ?bs" using blocks_cells [of ?s ?bs] ch' by simp
    have "successively apart ?bs"
      using ap by (auto simp: successively_append_iff apart_def)
    then have "heap_ok brk ready ?s" using bs ch' layn g by (auto simp: heap_ok_def)
    moreover have "malloc sbrk n s = Some (?e + sizeof_meta, ?s)"
      using ff None g h' w bk by (simp add: malloc_def Let_def)
    ultimately show ?thesis using bs g n e take_first_none [OF None] by (auto simp: alloc_spec_def)
  qed
qed


lemma alloc_spec_live:
  assumes lay: "layout a0 (blocks s) e" and lay': "layout a1 (blocks s') e'"
    and bs': "blocks s' = snd (alloc_spec m e (blocks s))"
    and p: "p = fst (alloc_spec m e (blocks s)) + sizeof_meta"
  shows "\<exists>k. m \<le> k \<and> live s p = None \<and> live s' = (live s)(p \<mapsto> k)"
proof -
  obtain a bs1 where sp: "alloc_spec m e (blocks s) = (a, bs1)" by (cases "alloc_spec m e (blocks s)")
  have "\<exists>k. m \<le> k \<and> used bs1 = insert (a, k) (used (blocks s)) \<and> (\<forall>j. (a, j) \<notin> used (blocks s))"
  proof (cases "take_first m (blocks s)")
    case None
    then have "a = e" "bs1 = blocks s @ [(e, m, False)]" using sp by (auto simp: alloc_spec_def)
    moreover have "(e, j) \<notin> used (blocks s)" for j
      using layout_range [OF lay, of e j False] by (auto simp: used_def)
    ultimately show ?thesis by auto
  next
    case (Some r)
    then have t: "take_first m (blocks s) = Some (a, bs1)" using sp by (cases r) (simp add: alloc_spec_def)
    show ?thesis using take_first_used [OF t] take_first_unused [OF t lay] by simp
  qed
  then obtain k where k: "m \<le> k" "used bs1 = insert (a, k) (used (blocks s))"
    "\<forall>j. (a, j) \<notin> used (blocks s)" by blast
  have pa: "p = a + sizeof_meta" and bs: "blocks s' = bs1" using p bs' sp by simp_all
  have none: "live s p = None"
    using k(3) live_iff [OF lay, of p] pa by (cases "live s p") auto
  have "live s' q = ((live s)(p \<mapsto> k)) q" for q
  proof (cases "q = p")
    case True
    then show ?thesis using live_iff [OF lay', of p k] k(2) bs pa by simp
  next
    case False
    then have "live s' q = Some j \<longleftrightarrow> live s q = Some j" for j
      unfolding live_iff [OF lay'] live_iff [OF lay] bs k(2) pa by auto
    then have "live s' q = live s q" by (cases "live s q"; cases "live s' q") auto
    then show ?thesis using False by simp
  qed
  then have "live s' = (live s)(p \<mapsto> k)" by (rule ext)
  then show ?thesis using k(1) none by blast
qed

lemma malloc_ok:
  assumes ok: "heap_ok brk ready s" and room: "brk (os s) + n + 4116 < limit"
  shows "\<exists>p s' k. malloc sbrk n s = Some (p, s') \<and> heap_ok brk ready s' \<and> sizeof_meta \<le> p \<and>
    n \<le> k \<and> live s p = None \<and> live s' = (live s)(p \<mapsto> k) \<and> hbytes s' = hbytes s \<and>
    brk (os s) \<le> brk (os s') \<and> brk (os s') \<le> brk (os s) + n + 4116"
proof -
  let ?r = "alloc_spec (long_align n) (heap_top brk s) (blocks s)"
  obtain s' where s': "malloc sbrk n s = Some (fst ?r + sizeof_meta, s')" "blocks s' = snd ?r"
    "heap_ok brk ready s'" "hbytes s' = hbytes s" "brk (os s) \<le> brk (os s')"
    "brk (os s') \<le> brk (os s) + n + 4116"
    using malloc_refines [OF ok room] by blast
  obtain a0 where lay: "layout a0 (blocks s) (heap_top brk s)" using heap_ok_layout_top(1) [OF ok] by blast
  obtain a1 where lay': "layout a1 (blocks s') (alloc_end s')" using s'(3) by (auto simp: heap_ok_def)
  obtain k where "long_align n \<le> k" "live s (fst ?r + sizeof_meta) = None"
    "live s' = (live s)(fst ?r + sizeof_meta \<mapsto> k)"
    using alloc_spec_live [OF lay lay' s'(2) refl] by blast
  moreover have "n \<le> long_align n" using long_align_bounds(1) [of n] room limit_le by simp
  ultimately show ?thesis using s' by (intro exI [of _ "fst ?r + sizeof_meta"] exI [of _ s'] exI [of _ k]) auto
qed

lemma free_refines:
  assumes ok: "heap_ok brk ready s" and p: "live s p = Some k"
  shows "\<exists>s'. free p s = Some s' \<and> blocks s' = release (p - sizeof_meta) (blocks s) \<and>
    heap_ok brk ready s' \<and> live s' = (live s)(p := None) \<and> hbytes s' = hbytes s \<and>
    os s' = os s \<and> alloc_end s' = alloc_end s"
proof -
  let ?a = "p - sizeof_meta"
  obtain a0 where lay: "layout a0 (blocks s) (alloc_end s)" using ok by (auto simp: heap_ok_def)
  have ch: "chain (metas s) (cells (blocks s))" and ap: "successively apart (blocks s)"
    and e: "alloc_end s < 4294967296"
    using ok brk_range [of "os s"] by (auto simp: heap_ok_def)
  have pm: "sizeof_meta \<le> p" and "(?a, k, False) \<in> set (blocks s)"
    using p live_iff [OF lay] by (auto simp: used_def)
  then obtain xs ys where bs: "blocks s = xs @ (?a, k, False) # ys" by (meson split_list)
  obtain m where m: "metas s (Blk ?a) = Some m" "m_size m = k"
    using chain_cell [of "metas s" "(Head, 0, False) # map cell_of xs" "Blk ?a" k False] ch bs
      cells_split [of xs "(?a, k, False)" ys] by auto
  let ?h = "(metas s)(Blk ?a \<mapsto> m\<lparr>m_free := True\<rparr>)"
  have ch1: "chain ?h (cells (xs @ (?a, k, True) # ys))"
    using chain_retag [of "metas s" "(Head, 0, False) # map cell_of xs" "Blk ?a" k False _ m
        "\<lambda>m. m\<lparr>m_free := True\<rparr>"] ch bs m cells_split [of xs "(?a, k, False)" ys]
      cells_split [of xs "(?a, k, True)" ys] by simp
  have lay1: "layout a0 (xs @ (?a, k, True) # ys) (alloc_end s)"
    using lay bs by (auto simp: layout_append)
  obtain h2 xs' a' k' where 2: "join_prev ?h (Blk ?a) = Some (h2, Blk a')"
    "chain h2 (cells (xs' @ (a', k', True) # ys))"
    "if last_free xs then \<exists>j. xs = xs' @ [(a', j, True)] \<and> k' = j + k + sizeof_meta
      else xs' = xs \<and> a' = ?a \<and> k' = k"
    using join_prev_cells [OF ch1 lay1 e] by blast
  have lay2: "layout a0 (xs' @ (a', k', True) # ys) (alloc_end s)"
    using lay1 2(3) layout_merge [of a0 xs' a' _ True ?a k True ys] by (auto split: if_splits)
  obtain h3 ys' k'' where 3: "join_next h2 (Blk a') = Some h3"
    "chain h3 (cells (xs' @ (a', k'', True) # ys'))"
    "if hd_free ys then \<exists>b j. ys = (b, j, True) # ys' \<and> k'' = k' + j + sizeof_meta
      else ys' = ys \<and> k'' = k'"
    using join_next_cells [OF 2(2) lay2 e] by blast
  have lay3: "layout a0 (xs' @ (a', k'', True) # ys') (alloc_end s)"
    using lay2 3(3) layout_merge [of a0 xs' a' k' True _ _ True ys'] by (auto split: if_splits)
  let ?s = "s\<lparr>metas := h3\<rparr>"
  have bs3: "blocks ?s = xs' @ (a', k'', True) # ys'" using blocks_cells [of ?s] 3(2) by simp
  have co: "release ?a (blocks s) = xs' @ (a', k'', True) # ys'" "successively apart (xs' @ (a', k'', True) # ys')"
    using release_split [of a0 xs ?a k ys] coalesce_middle [OF _ 2(3) 3(3)] lay ap bs by metis+
  have fr: "free p s = Some ?s"
    using pm m 2(1) 3(1) by (simp add: free_def upd_def Let_def)
  have ok': "heap_ok brk ready ?s" using ok bs3 3(2) co(2) lay3 by (auto simp: heap_ok_def)
  have un: "used (blocks ?s) = used xs \<union> used ys"
    using bs3 2(3) 3(3) by (auto split: if_splits)
  have notin: "(?a, j) \<notin> used xs \<union> used ys" for j
    using layout_distinct [OF lay1] by (force simp: used_def)
  have "live ?s q = ((live s)(p := None)) q" for q
  proof (cases "q = p")
    case True
    then show ?thesis using live_iff [of a0 ?s "alloc_end s" p] lay3 bs3 un notin by (cases "live ?s p") auto
  next
    case False
    have "live ?s q = Some j \<longleftrightarrow> live s q = Some j" for j
    proof -
      have "used (blocks s) = insert (?a, k) (used xs \<union> used ys)" using bs by auto
      moreover have "sizeof_meta \<le> q \<longrightarrow> q - sizeof_meta \<noteq> ?a" using False pm by auto
      ultimately show ?thesis
        using live_iff [of a0 ?s "alloc_end s" q j] live_iff [OF lay, of q j] lay3 bs3 un by auto
    qed
    then have "live ?s q = live s q" by (cases "live s q"; cases "live ?s q") auto
    then show ?thesis using False by simp
  qed
  then have "live ?s = (live s)(p := None)" by (rule ext)
  then show ?thesis using fr ok' bs3 co by simp
qed

text \<open>Payloads of different live blocks are a header apart.\<close>

lemma live_disjoint:
  assumes "heap_ok brk ready s" and "live s p = Some k" and "live s q = Some j" and "p \<noteq> q"
  shows "p + k + sizeof_meta \<le> q \<or> q + j + sizeof_meta \<le> p"
proof -
  obtain a where lay: "layout a (blocks s) (alloc_end s)" using assms(1) by (auto simp: heap_ok_def)
  have "sizeof_meta \<le> p" "sizeof_meta \<le> q" "(p - sizeof_meta, k, False) \<in> set (blocks s)"
    "(q - sizeof_meta, j, False) \<in> set (blocks s)"
    using assms(2,3) live_iff [OF lay] by (auto simp: used_def)
  then show ?thesis
    using layout_disjoint [OF lay, of "p - sizeof_meta" k False "q - sizeof_meta" j False] assms(4) by linarith
qed

lemma heap_ok_bytes: "heap_ok brk ready (s\<lparr>hbytes := b\<rparr>) = heap_ok brk ready s"
  and live_bytes: "live (s\<lparr>hbytes := b\<rparr>) = live s"
  by (simp_all add: heap_ok_def live_def blocks_def)

lemma live_meta:
  assumes "heap_ok brk ready s" and "live s p = Some k"
  shows "\<exists>m. metas s (Blk (p - sizeof_meta)) = Some m \<and> m_size m = k"
proof -
  obtain a where lay: "layout a (blocks s) (alloc_end s)" using assms(1) by (auto simp: heap_ok_def)
  have "(p - sizeof_meta, k, False) \<in> set (blocks s)"
    using assms(2) live_iff [OF lay] by (auto simp: used_def)
  then obtain xs ys where "blocks s = xs @ (p - sizeof_meta, k, False) # ys" by (meson split_list)
  then show ?thesis
    using chain_cell [of "metas s" "(Head, 0, False) # map cell_of xs" "Blk (p - sizeof_meta)" k False]
      cells_split [of xs "(p - sizeof_meta, k, False)" ys] assms(1) by (auto simp: heap_ok_def)
qed

lemma calloc_ok:
  assumes ok: "heap_ok brk ready s" and room: "brk (os s) + num * sz + 4116 < limit"
  shows "\<exists>p s' k. calloc sbrk num sz s = Some (p, s') \<and> heap_ok brk ready s' \<and>
    num * sz \<le> k \<and> live s p = None \<and> live s' = (live s)(p \<mapsto> k) \<and>
    hbytes s' = (\<lambda>q. if p \<le> q \<and> q < p + num * sz then 0 else hbytes s q)"
proof -
  obtain p s1 k where m: "malloc sbrk (num * sz) s = Some (p, s1)" "heap_ok brk ready s1"
    "sizeof_meta \<le> p" "num * sz \<le> k" "live s p = None" "live s1 = (live s)(p \<mapsto> k)" "hbytes s1 = hbytes s"
    using malloc_ok [OF ok room] by blast
  have "memset (hbytes s1) p 0 (num * sz) = (\<lambda>q. if p \<le> q \<and> q < p + num * sz then 0 else hbytes s q)"
    using memset_filled [of 0 "hbytes s1" p "num * sz"] m(7) by (simp add: filled_def)
  then have "calloc sbrk num sz s = Some (p,
      s1\<lparr>hbytes := (\<lambda>q. if p \<le> q \<and> q < p + num * sz then 0 else hbytes s q)\<rparr>)"
    using m room limit_le by (simp add: calloc_def Let_def w32_simps)
  then show ?thesis using m(2,4,5,6) by (auto simp: heap_ok_bytes live_bytes)
qed

lemma realloc_ok:
  assumes ok: "heap_ok brk ready s" and p: "live s p = Some k" and n: "0 < n"
    and room: "brk (os s) + n + 4116 < limit"
  shows "\<exists>q s' j. realloc sbrk p n s = Some (q, s') \<and> heap_ok brk ready s' \<and> n \<le> j \<and>
    live s q = None \<and> live s' = (live s)(p := None, q \<mapsto> j) \<and>
    (\<forall>i < min n k. hbytes s' (q + i) = hbytes s (p + i)) \<and>
    (\<forall>a. a < q \<or> q + min n k \<le> a \<longrightarrow> hbytes s' a = hbytes s a)"
proof -
  obtain q s1 j where m: "malloc sbrk n s = Some (q, s1)" "heap_ok brk ready s1"
    "sizeof_meta \<le> q" "n \<le> j" "live s q = None" "live s1 = (live s)(q \<mapsto> j)" "hbytes s1 = hbytes s"
    using malloc_ok [OF ok room] by blast
  have pq: "p \<noteq> q" using p m(5) by auto
  have p1: "live s1 p = Some k" and q1: "live s1 q = Some j" using m(6) p pq by simp_all
  have dis: "q \<le> p \<or> p + min n k \<le> q" using live_disjoint [OF m(2) p1 q1 pq] by auto
  obtain h where h: "metas s1 (Blk (p - sizeof_meta)) = Some h" "m_size h = k"
    using live_meta [OF m(2) p1] by blast
  obtain a where lay: "layout a (blocks s1) (alloc_end s1)" using m(2) by (auto simp: heap_ok_def)
  have p0: "p \<noteq> 0" using p1 live_iff [OF lay] by auto
  let ?b = "copied (hbytes s) q p (min n k)"
  let ?s = "s1\<lparr>hbytes := ?b\<rparr>"
  have "heap_ok brk ready ?s" "live ?s p = Some k"
    using m(2) p1 by (simp_all only: heap_ok_bytes live_bytes)
  then obtain s2 where f: "free p ?s = Some s2" "heap_ok brk ready s2" "live s2 = (live ?s)(p := None)"
    "hbytes s2 = hbytes ?s"
    using free_refines by blast
  have "(if n < m_size h then n else m_size h) = min n k" using h(2) by simp
  then have "realloc sbrk p n s = Some (q, s2)"
    using m p0 n h(1) f(1) memcpy_copied [OF dis, of "hbytes s"]
    by (simp add: realloc_def Let_def split del: if_split)
  moreover have "live s2 = (live s)(p := None, q \<mapsto> j)"
    using f(3) m(6) pq by (simp add: live_bytes fun_upd_twist)
  ultimately show ?thesis using f(2,4) m(4,5) by (auto simp: copied_def)
qed

lemma strdup_ok:
  assumes ok: "heap_ok brk ready s" and p: "live s p = Some k" and str: "cstr (hbytes s) src t"
    and inside: "p \<le> src" "src + length t < p + k" and room: "brk (os s) + (length t + 1) + 4116 < limit"
  shows "\<exists>d s' j. strdup sbrk src s = Some (d, s') \<and> heap_ok brk ready s' \<and> live s d = None \<and>
    length t < j \<and> live s' = (live s)(d \<mapsto> j) \<and> cstr (hbytes s') d t \<and> cstr (hbytes s') src t"
proof -
  obtain d s1 j where m: "malloc sbrk (length t + 1) s = Some (d, s1)" "heap_ok brk ready s1"
    "sizeof_meta \<le> d" "length t + 1 \<le> j" "live s d = None" "live s1 = (live s)(d \<mapsto> j)" "hbytes s1 = hbytes s"
    using malloc_ok [OF ok room] by blast
  have pd: "p \<noteq> d" using p m(5) by auto
  have "live s1 p = Some k" "live s1 d = Some j" using m(6) p pd by simp_all
  from live_disjoint [OF m(2) this pd] have dis: "d + length t < src \<or> src + length t < d" using inside m(4) by auto
  let ?b = "copied (hbytes s) d src (length t + 1)"
  have "strcpy (hbytes s) d src = Some ?b" by (rule strcpy_cstr [OF str]) (use dis in auto)
  then have "strdup sbrk src s = Some (d, s1\<lparr>hbytes := ?b\<rparr>)"
    using m(1,3,7) room limit_le by (simp add: strdup_def strlen_cstr [OF str] w32_simps)
  moreover have "cstr ?b src t"
    using str by (rule cstr_cong [THEN iffD2, rotated]) (use dis in \<open>auto simp: copied_def\<close>)
  ultimately show ?thesis
    using m copied_cstr [OF str, of d]
    by (intro exI [of _ d] exI [of _ "s1\<lparr>hbytes := ?b\<rparr>"] exI [of _ j]) (simp add: heap_ok_bytes live_bytes)
qed

end


text \<open>So every page provider yields an allocator in the sense of its clients.\<close>

sublocale sbrk_provider \<subseteq> heap: allocator "malloc sbrk" free live "heap_ok brk ready"
  "\<lambda>s. limit - 1 - brk (os s)"
proof
  fix s n
  assume ok: "heap_ok brk ready s" and "alloc_cost n \<le> limit - 1 - brk (os s)"
  then have "brk (os s) + n + 4116 < limit" by simp
  from malloc_ok [OF ok this]
  show "\<exists>p s' k. malloc sbrk n s = Some (p, s') \<and> heap_ok brk ready s' \<and> p \<noteq> NULL \<and> n \<le> k \<and>
      live s p = None \<and> live s' = (live s)(p \<mapsto> k) \<and>
      limit - 1 - brk (os s) \<le> limit - 1 - brk (os s') + alloc_cost n"
    by fastforce
next
  fix s p k
  assume "heap_ok brk ready s" "live s p = Some k"
  from free_refines [OF this]
  show "\<exists>s'. free p s = Some s' \<and> heap_ok brk ready s' \<and> live s' = (live s)(p := None) \<and>
      limit - 1 - brk (os s') = limit - 1 - brk (os s)"
    by auto
next
  fix s
  assume ok: "heap_ok brk ready s"
  then obtain a where "layout a (blocks s) (alloc_end s)" by (auto simp: heap_ok_def)
  then show "live s NULL = None" using live_iff [of a s "alloc_end s" 0] by (cases "live s 0") auto
qed

section \<open>Evaluation on concrete heaps\<close>

lemma first_fit_eval:
  "h p = Some b \<Longrightarrow> m_next b = Tail \<Longrightarrow> first_fit h n p = Some None"
  "h p = Some b \<Longrightarrow> m_next b \<noteq> Tail \<Longrightarrow> h (m_next b) = Some c \<Longrightarrow>
     first_fit h n p = (if m_free c \<and> n \<le> m_size c then Some (Some (m_next b)) else first_fit h n (m_next b))"
  by (subst first_fit.simps [of h n p], simp add: Let_def)+

lemma grow_eval:
  "sbrk 0 m = Some (b, m1) \<Longrightarrow> \<not> sub32 b ae < need \<Longrightarrow> grow sbrk ae need m = Some (True, m1)"
  "sbrk 0 m = Some (b, m1) \<Longrightarrow> sub32 b ae < need \<Longrightarrow> sbrk 4096 m1 = Some (r, m2) \<Longrightarrow>
    grow sbrk ae need m = (if r = 4294967295 then Some (False, m2) else grow sbrk ae need m2)"
  by (subst grow.simps [of sbrk ae need m], simp)+

lemma walk_eval:
  "h p = Some b \<Longrightarrow> m_next b = Tail \<Longrightarrow> walk h p = Some []"
  "h p = Some b \<Longrightarrow> m_next b \<noteq> Tail \<Longrightarrow> h (m_next b) = Some c \<Longrightarrow>
     walk h p = map_option ((#) (blk_addr (m_next b), m_size c, m_free c)) (walk h (m_next b))"
  by (subst walk.simps [of h p], simp add: map_conv_bind_option comp_def)+

lemmas malloc_eval = first_fit_eval grow_eval walk_eval malloc_def free_def realloc_def heap_start_def
  long_align_def w32_def sub32_def icp_sbrk_def icp_memallocp_def icp_memory_mult_alloc_pages_def
  icp_memory_start_def take_block_def add_block_def join_prev_def join_next_def upd_def put_def
  blocks_def Let_def

lemma icp_ready_start [simp]: "icp_ready icp_memory_start"
  by (simp add: icp_ready_def icp_memory_start_def)

lemma icp_start_ok [simp]: "heap_ok mem_allocate_starting icp_ready (heap_start icp_memory_start)"
  by (simp add: heap_ok_start)

lemma os_start [simp]: "os (heap_start m) = m"
  by (simp add: heap_start_def)

section \<open>Properties\<close>

text \<open>
  Runs of a client that asks for sizes that fit below \<open>2\<^sup>3\<^sup>2\<close> (a larger one wraps round, see \<open>malloc_size_wraps\<close>),
  resizes and releases only blocks it holds, never resizes to nothing (see \<open>realloc_zero_corrupts\<close>), and writes where it likes
  in the payloads.
\<close>

inductive heap_run :: "icp_memory heap \<Rightarrow> bool" where
  start: "heap_run (heap_start icp_memory_start)"
| alloc: "heap_run s \<Longrightarrow> mem_allocate_starting (os s) + n + 4116 < 4294967296 \<Longrightarrow>
    malloc icp_sbrk n s = Some (p, s') \<Longrightarrow> heap_run s'"
| calloc: "heap_run s \<Longrightarrow> mem_allocate_starting (os s) + num * n + 4116 < 4294967296 \<Longrightarrow>
    calloc icp_sbrk num n s = Some (p, s') \<Longrightarrow> heap_run s'"
| realloc: "heap_run s \<Longrightarrow> mem_allocate_starting (os s) + n + 4116 < 4294967296 \<Longrightarrow> 0 < n \<Longrightarrow>
    live s p = Some k \<Longrightarrow> realloc icp_sbrk p n s = Some (q, s') \<Longrightarrow> heap_run s'"
| free: "heap_run s \<Longrightarrow> live s p = Some k \<Longrightarrow> free p s = Some s' \<Longrightarrow> heap_run s'"
| store: "heap_run s \<Longrightarrow> heap_run (s\<lparr>hbytes := b\<rparr>)"

lemma heap_run_ok: "heap_run s \<Longrightarrow> heap_ok mem_allocate_starting icp_ready s"
proof (induction rule: heap_run.induct)
  case (alloc s n p s')
  then show ?case using icp.malloc_ok [OF alloc.IH alloc.hyps(2)] by auto
next
  case (calloc s num n p s')
  then show ?case using icp.calloc_ok [OF calloc.IH calloc.hyps(2)] by auto
next
  case (realloc s n p k q s')
  then show ?case using icp.realloc_ok [OF realloc.IH realloc.hyps(4,3,2)] by auto
next
  case (free s p k s')
  then show ?case using icp.free_refines [OF free.IH free.hyps(2)] by auto
qed (simp_all add: icp.heap_ok_bytes)

text \<open>
  Property C3. In every state that a well-behaved run of \<^verbatim>\<open>malloc\<close>, \<^verbatim>\<open>calloc\<close>, \<^verbatim>\<open>realloc\<close> and \<^verbatim>\<open>free\<close> reaches, two
  blocks in use never overlap: their payloads are at least a header apart. A run is well behaved when each request, with a page and
  headers to spare, ends below \<open>2\<^sup>3\<^sup>2\<close>, when no block is resized to zero bytes, and when only blocks in use are resized or
  released; without the first two the claim is false.
\<close>

theorem live_blocks_disjoint:
  assumes "heap_run s" and "live s p = Some k" and "live s q = Some j" and "p \<noteq> q"
  shows "p + k + sizeof_meta \<le> q \<or> q + j + sizeof_meta \<le> p"
  using icp.live_disjoint [OF heap_run_ok] assms by blast

theorem live_blocks_disjoint_witness:
  "\<exists>s. heap_run s \<and> live s 65552 = Some 64 \<and> live s 65632 = Some 8 \<and>
     (65552 + 64 + sizeof_meta \<le> 65632 \<or> 65632 + 8 + sizeof_meta \<le> (65552 :: nat))"
proof -
  obtain s1 where 1: "malloc icp_sbrk 61 (heap_start icp_memory_start) = Some (65552, s1)"
    "mem_allocate_starting (os s1) = 69632" "\<exists>s. malloc icp_sbrk 8 s1 = Some (65632, s) \<and>
      live s 65552 = Some 64 \<and> live s 65632 = Some 8"
    by (simp add: malloc_eval live_def)
  then obtain s2 where 2: "malloc icp_sbrk 8 s1 = Some (65632, s2)"
    "live s2 65552 = Some 64" "live s2 65632 = Some 8" by blast
  have "heap_run s1" using heap_run.alloc [OF heap_run.start _ 1(1)] by (simp add: icp_memory_start_def)
  then have r: "heap_run s2" using heap_run.alloc [OF _ _ 2(1)] 1(2) by simp
  from live_blocks_disjoint [OF r 2(2,3)] r 2(2,3) show ?thesis by auto
qed

text \<open>
  Property C4. \<^verbatim>\<open>malloc\<close> refines first-fit on the abstract heap: it returns (the loop that calls
  \<^verbatim>\<open>sbrk\<close> ends), the block it hands out is the first free one that fits, split when the rest can
  hold a block, or a new one at the end of the heap when none fits, and the heap invariant
  and all bytes are kept.
\<close>

theorem malloc_first_fit:
  assumes "heap_ok mem_allocate_starting icp_ready s"
    and "mem_allocate_starting (os s) + n + 4116 < 4294967296"
  shows "\<exists>s'. malloc icp_sbrk n s =
      Some (fst (alloc_spec (long_align n) (heap_top mem_allocate_starting s) (blocks s)) + sizeof_meta, s') \<and>
    blocks s' = snd (alloc_spec (long_align n) (heap_top mem_allocate_starting s) (blocks s)) \<and>
    heap_ok mem_allocate_starting icp_ready s' \<and> hbytes s' = hbytes s"
  using icp.malloc_refines [OF assms] by blast

theorem malloc_first_fit_witness:
  "\<exists>s'. malloc icp_sbrk 10 (heap_start icp_memory_start) = Some (0x10010, s') \<and>
     blocks s' = [(0x10000, 12, False)] \<and> heap_ok mem_allocate_starting icp_ready s'"
proof -
  have "mem_allocate_starting (os (heap_start icp_memory_start)) + 10 + 4116 < 4294967296"
    by (simp add: icp_memory_start_def)
  from malloc_first_fit [OF icp_start_ok this] show ?thesis
    by (simp add: alloc_spec_def heap_top_def malloc_eval)
qed

text \<open>
  \<^verbatim>\<open>malloc\<close> as a client sees it: the pointer is not null, was not in use, the block
  behind it is at least as large as the request, and every other block in use keeps its
  place and size.
\<close>

theorem malloc_fresh:
  assumes "heap_ok mem_allocate_starting icp_ready s"
    and "mem_allocate_starting (os s) + n + 4116 < 4294967296"
  shows "\<exists>p s' k. malloc icp_sbrk n s = Some (p, s') \<and> p \<noteq> NULL \<and> live s p = None \<and> n \<le> k \<and>
    live s' = (live s)(p \<mapsto> k) \<and> heap_ok mem_allocate_starting icp_ready s'"
  using icp.malloc_ok [OF assms] by fastforce

theorem malloc_fresh_witness:
  "\<exists>p s' k. malloc icp_sbrk 100 (heap_start icp_memory_start) = Some (p, s') \<and> p \<noteq> NULL \<and> 100 \<le> k \<and>
     live s' = [p \<mapsto> k]"
proof -
  have "mem_allocate_starting (os (heap_start icp_memory_start)) + 100 + 4116 < 4294967296"
    by (simp add: icp_memory_start_def)
  from malloc_fresh [OF icp_start_ok this] show ?thesis
    using heap_ok_start(2) [of "\<lambda>_. True" icp_memory_start] by auto
qed

text \<open>
  Property C16. \<^verbatim>\<open>free\<close> of a block in use returns, releases exactly that block, and joins it with
  its free neighbours: the abstract heap afterwards is the coalesced one, so two neighbouring
  blocks are never both free.
\<close>

theorem free_coalesces:
  assumes "heap_ok mem_allocate_starting icp_ready s" and "live s p = Some k"
  shows "\<exists>s'. free p s = Some s' \<and> blocks s' = release (p - sizeof_meta) (blocks s) \<and>
    live s' = (live s)(p := None) \<and> heap_ok mem_allocate_starting icp_ready s' \<and> hbytes s' = hbytes s"
  using icp.free_refines [OF assms] by blast

theorem free_coalesces_witness:
  "\<exists>(s :: icp_memory heap) s'. free 65552 s = Some s' \<and> blocks s = [(65536, 8, False)] \<and> blocks s' = [(65536, 8, True)] \<and>
     live s' 65552 = None"
proof -
  have "mem_allocate_starting (os (heap_start icp_memory_start)) + 8 + 4116 < 4294967296"
    by (simp add: icp_memory_start_def)
  then obtain s where s: "malloc icp_sbrk 8 (heap_start icp_memory_start) = Some (65552, s)"
    "heap_ok mem_allocate_starting icp_ready s" "blocks s = [(65536, 8, False)]"
    using icp.malloc_refines [OF icp_start_ok, of 8] by (auto simp: alloc_spec_def heap_top_def malloc_eval)
  then have "live s 65552 = Some 8" by (simp add: live_def)
  from free_coalesces [OF s(2) this] obtain s' where "free 65552 s = Some s'"
    "blocks s' = [(65536, 8, True)]" "live s' 65552 = None"
    using s(3) by (auto simp: release_def)
  then show ?thesis using s(3) by blast
qed

text \<open>
  \<^verbatim>\<open>calloc\<close> hands out a block of at least \<^verbatim>\<open>num * size\<close> bytes, all of which are zero,
  and changes no other byte.
\<close>

theorem calloc_zeroes:
  assumes "heap_ok mem_allocate_starting icp_ready s"
    and "mem_allocate_starting (os s) + num * sz + 4116 < 4294967296"
  shows "\<exists>p s' k. calloc icp_sbrk num sz s = Some (p, s') \<and> heap_ok mem_allocate_starting icp_ready s' \<and>
    num * sz \<le> k \<and> live s p = None \<and> live s' = (live s)(p \<mapsto> k) \<and>
    hbytes s' = (\<lambda>q. if p \<le> q \<and> q < p + num * sz then 0 else hbytes s q)"
  using icp.calloc_ok [OF assms] .

theorem calloc_zeroes_witness:
  "\<exists>p s' k. calloc icp_sbrk 3 4 (heap_start icp_memory_start) = Some (p, s') \<and> 12 \<le> k \<and>
     live s' = [p \<mapsto> k]"
proof -
  have "mem_allocate_starting (os (heap_start icp_memory_start)) + 3 * 4 + 4116 < 4294967296"
    by (simp add: icp_memory_start_def)
  from calloc_zeroes [OF icp_start_ok this] show ?thesis
    using heap_ok_start(2) [of "\<lambda>_. True" icp_memory_start] by auto
qed

text \<open>
  Property C30. \<^verbatim>\<open>realloc\<close> to a non-zero size moves the block: the new block holds the old bytes up to
  the smaller of the two sizes, the old block is released, and no other byte changes.
\<close>

theorem realloc_keeps_prefix:
  assumes "heap_ok mem_allocate_starting icp_ready s" and "live s p = Some k" and "0 < n"
    and "mem_allocate_starting (os s) + n + 4116 < 4294967296"
  shows "\<exists>q s' j. realloc icp_sbrk p n s = Some (q, s') \<and> heap_ok mem_allocate_starting icp_ready s' \<and>
    n \<le> j \<and> live s q = None \<and> live s' = (live s)(p := None, q \<mapsto> j) \<and>
    (\<forall>i < min n k. hbytes s' (q + i) = hbytes s (p + i)) \<and>
    (\<forall>a. a < q \<or> q + min n k \<le> a \<longrightarrow> hbytes s' a = hbytes s a)"
  using icp.realloc_ok [OF assms] .

theorem realloc_keeps_prefix_witness:
  "\<exists>s q s' j. live s 65552 = Some 8 \<and> realloc icp_sbrk 65552 20 s = Some (q, s') \<and> 20 \<le> j \<and>
     live s' = (live s)(65552 := None, q \<mapsto> j)"
proof -
  have "mem_allocate_starting (os (heap_start icp_memory_start)) + 8 + 4116 < 4294967296"
    by (simp add: icp_memory_start_def)
  then obtain s where s: "heap_ok mem_allocate_starting icp_ready s" "blocks s = [(65536, 8, False)]"
    "mem_allocate_starting (os s) \<le> 65536 + 8 + 4116"
    using icp.malloc_refines [OF icp_start_ok, of 8] by (auto simp: alloc_spec_def heap_top_def malloc_eval)
  then have "live s 65552 = Some 8" by (simp add: live_def)
  from realloc_keeps_prefix [OF s(1) this, of 20] this s(3) show ?thesis by auto
qed


lemma memcpy_nothing [simp]: "memcpy m d src 0 = m"
  by (simp add: memcpy_def)



text \<open>
  A request of \<open>2\<^sup>3\<^sup>2 - 16\<close> bytes wraps around when the header is added: \<^verbatim>\<open>malloc\<close> obtains no
  memory at all and returns a pointer to the end of the heap, which does not move, so the next
  new block is given the same address.
\<close>

theorem malloc_size_wraps:
  assumes "heap_ok mem_allocate_starting icp_ready s"
  shows "\<exists>s'. malloc icp_sbrk 0xFFFFFFF0 s = Some (heap_top mem_allocate_starting s + sizeof_meta, s') \<and>
    alloc_end s' = heap_top mem_allocate_starting s \<and> os s' = os s"
proof -
  let ?e = "heap_top mem_allocate_starting s"
  have ch: "chain (metas s) (cells (blocks s))" and rd: "icp_ready (os s)"
    using assms by (simp_all add: heap_ok_def)
  obtain a where lay: "layout a (blocks s) ?e" using icp.heap_ok_layout_top(1) [OF assms] by blast
  have e: "?e < 4294967296" "?e \<le> mem_allocate_starting (os s)"
    using icp.heap_ok_layout_top(2) [OF assms] icp.brk_range [OF rd] by simp_all
  have "find (\<lambda>(a, k, fr). fr \<and> 4294967280 \<le> k) (blocks s) = None"
    using layout_range [OF lay] e(1) by (force simp: find_None_iff)
  then have ff: "first_fit (metas s) 4294967280 Head = Some None"
    using first_fit_chain [of "metas s" "[]" Head "(0, False)" "blocks s"] ch by (simp add: cells_def)
  obtain zs q sq where l: "(Head, 0, False) # map cell_of (blocks s) = zs @ [(q, sq, last_free (blocks s))]"
    by (rule left_cell)
  have "distinct (map fst (cells (blocks s @ [(?e, 0, False)])))"
    using lay by (intro distinct_cells [of a _ "?e + 16"]) (auto simp: layout_append)
  then have "Blk ?e \<notin> set (map fst (zs @ [(q, sq, last_free (blocks s)), (Tail, 0, False)]))"
    using l cells_split [of "blocks s" "(?e, 0, False)" "[]"] by auto
  moreover have "chain (metas s) (zs @ [(q, sq, last_free (blocks s)), (Tail, 0, False)])"
    using ch l unfolding cells_def append_Cons [symmetric] by simp
  ultimately obtain h where h: "add_block (metas s) ?e 4294967280 = Some h"
    using add_block_chain by blast
  have bk: "(if alloc_end s = 0 then icp_sbrk 0 (os s) else Some (alloc_end s, os s)) = Some (?e, os s)"
    using icp.sbrk_zero [OF rd] by (simp add: heap_top_def)
  have "long_align 4294967280 = 4294967280" "w32 (4294967280 + sizeof_meta) = 0" "w32 (?e + 0) = ?e"
    using e(1) by (simp_all add: long_align_def w32_def)
  then show ?thesis
    using ff bk h grow_eval(1) [of icp_sbrk "os s" "mem_allocate_starting (os s)" "os s" ?e 0]
      icp.sbrk_zero [OF rd] by (simp add: malloc_def Let_def)
qed

theorem malloc_size_wraps_witness:
  "\<exists>s'. malloc icp_sbrk 0xFFFFFFF0 (heap_start icp_memory_start) = Some (0x10010, s') \<and>
     alloc_end s' = 0x10000 \<and> os s' = icp_memory_start"
  using malloc_size_wraps [OF icp_start_ok]
  by (simp add: heap_top_def) (simp add: icp_memory_start_def heap_start_def)

end
