(* ===== verification/Linked_List.thy ===== *)
theory Linked_List
  imports Malloc
begin

text \<open>
  The doubly linked list of \<^verbatim>\<open>src/kernel/lib/list.c\<close>. Nodes and list headers live in explicit
  stores indexed by address (one store per C struct), and the allocator is an argument of the
  operations that allocate or release. A read or write through a pointer at which no such
  object lives gives \<open>None\<close>.

  The second part proves that the pointer operations implement the operations on HOL lists.
\<close>

section \<open>Data\<close>

record node =
  n_next :: addr
  n_prev :: addr
  n_value :: addr

record klist =
  l_head :: addr
  l_tail :: addr
  l_length :: nat

type_synonym nodes = "addr \<rightharpoonup> node"

record 'h list_heap =
  nodes :: nodes
  lists :: "addr \<rightharpoonup> klist"
  lmem :: 'h

abbreviation sizeof_node :: nat where "sizeof_node \<equiv> 12"
abbreviation sizeof_list :: nat where "sizeof_list \<equiv> 12"

definition wnode :: "addr \<Rightarrow> (node \<Rightarrow> node) \<Rightarrow> ('h, 'z) list_heap_scheme \<Rightarrow> ('h, 'z) list_heap_scheme option" where
  "wnode p f s = (case nodes s p of None \<Rightarrow> None | Some n \<Rightarrow> Some (s\<lparr>nodes := (nodes s)(p \<mapsto> f n)\<rparr>))"

definition wlist :: "addr \<Rightarrow> (klist \<Rightarrow> klist) \<Rightarrow> ('h, 'z) list_heap_scheme \<Rightarrow> ('h, 'z) list_heap_scheme option" where
  "wlist p f s = (case lists s p of None \<Rightarrow> None | Some l \<Rightarrow> Some (s\<lparr>lists := (lists s)(p \<mapsto> f l)\<rparr>))"

section \<open>Operations\<close>

definition list_append :: "addr \<Rightarrow> addr \<Rightarrow> ('h, 'z) list_heap_scheme \<Rightarrow> ('h, 'z) list_heap_scheme option" where
  "list_append list node s0 = do {
     s1 \<leftarrow> wnode node (\<lambda>n. n\<lparr>n_next := NULL\<rparr>) s0;
     l \<leftarrow> lists s1 list;
     s2 \<leftarrow> (if l_tail l = NULL then do {
              s \<leftarrow> wlist list (\<lambda>l. l\<lparr>l_head := node\<rparr>) s1;
              wnode node (\<lambda>n. n\<lparr>n_prev := NULL\<rparr>) s
            } else do {
              s \<leftarrow> wnode (l_tail l) (\<lambda>n. n\<lparr>n_next := node\<rparr>) s1;
              wnode node (\<lambda>n. n\<lparr>n_prev := l_tail l\<rparr>) s
            });
     s3 \<leftarrow> wlist list (\<lambda>l. l\<lparr>l_tail := node\<rparr>) s2;
     wlist list (\<lambda>l. l\<lparr>l_length := w32 (l_length l + 1)\<rparr>) s3
   }"

text \<open>A new node, its three fields written.\<close>

definition new_node ::
  "'h alloc \<Rightarrow> addr \<Rightarrow> ('h, 'z) list_heap_scheme \<Rightarrow> (addr \<times> ('h, 'z) list_heap_scheme) option" where
  "new_node alloc item s = do {
     (node, m) \<leftarrow> alloc sizeof_node (lmem s);
     if node = NULL then None
     else Some (node, s\<lparr>lmem := m,
       nodes := (nodes s)(node \<mapsto> \<lparr>n_next = NULL, n_prev = NULL, n_value = item\<rparr>)\<rparr>)
   }"

definition list_insert ::
  "'h alloc \<Rightarrow> addr \<Rightarrow> addr \<Rightarrow> ('h, 'z) list_heap_scheme \<Rightarrow> (addr \<times> ('h, 'z) list_heap_scheme) option" where
  "list_insert alloc list item s = do {
     (node, s1) \<leftarrow> new_node alloc item s;
     s2 \<leftarrow> list_append list node s1;
     Some (node, s2)
   }"

definition list_append_after ::
  "addr \<Rightarrow> addr \<Rightarrow> addr \<Rightarrow> ('h, 'z) list_heap_scheme \<Rightarrow> ('h, 'z) list_heap_scheme option" where
  "list_append_after list before node s0 = do {
     l \<leftarrow> lists s0 list;
     if l_tail l = NULL then list_append list node s0
     else if before = NULL then do {
       s1 \<leftarrow> wnode node (\<lambda>n. n\<lparr>n_next := l_head l\<rparr>) s0;
       s2 \<leftarrow> wnode (l_head l) (\<lambda>n. n\<lparr>n_prev := node\<rparr>) s1;
       s3 \<leftarrow> wlist list (\<lambda>l. l\<lparr>l_head := node\<rparr>) s2;
       wlist list (\<lambda>l. l\<lparr>l_length := w32 (l_length l + 1)\<rparr>) s3
     } else do {
       s1 \<leftarrow> (if before = l_tail l then wlist list (\<lambda>l. l\<lparr>l_tail := node\<rparr>) s0
              else do {
                b \<leftarrow> nodes s0 before;
                s \<leftarrow> wnode (n_next b) (\<lambda>n. n\<lparr>n_prev := node\<rparr>) s0;
                b' \<leftarrow> nodes s before;
                wnode node (\<lambda>n. n\<lparr>n_next := n_next b'\<rparr>) s
              });
       s2 \<leftarrow> wnode node (\<lambda>n. n\<lparr>n_prev := before\<rparr>) s1;
       s3 \<leftarrow> wnode before (\<lambda>n. n\<lparr>n_next := node\<rparr>) s2;
       wlist list (\<lambda>l. l\<lparr>l_length := w32 (l_length l + 1)\<rparr>) s3
     }
   }"

definition list_insert_after ::
  "'h alloc \<Rightarrow> addr \<Rightarrow> addr \<Rightarrow> addr \<Rightarrow> ('h, 'z) list_heap_scheme \<Rightarrow> (addr \<times> ('h, 'z) list_heap_scheme) option" where
  "list_insert_after alloc list before item s = do {
     (node, s1) \<leftarrow> new_node alloc item s;
     s2 \<leftarrow> list_append_after list before node s1;
     Some (node, s2)
   }"

definition list_create ::
  "'h alloc \<Rightarrow> ('h, 'z) list_heap_scheme \<Rightarrow> (addr \<times> ('h, 'z) list_heap_scheme) option" where
  "list_create alloc s = do {
     (out, m) \<leftarrow> alloc sizeof_list (lmem s);
     if out = NULL then None
     else Some (out, s\<lparr>lmem := m,
       lists := (lists s)(out \<mapsto> \<lparr>l_head = NULL, l_tail = NULL, l_length = 0\<rparr>)\<rparr>)
   }"

partial_function (option) list_find_loop :: "nodes \<Rightarrow> addr \<Rightarrow> addr \<Rightarrow> addr option" where
  "list_find_loop h item value =
     (if item = NULL then Some NULL
      else do {
        n \<leftarrow> h item;
        if n_value n = value then Some item else list_find_loop h (n_next n) value
      })"

declare list_find_loop.simps [code]

definition list_find :: "addr \<Rightarrow> addr \<Rightarrow> ('h, 'z) list_heap_scheme \<Rightarrow> addr option" where
  "list_find list value s = do { l \<leftarrow> lists s list; list_find_loop (nodes s) (l_head l) value }"

partial_function (option) list_index_loop :: "nodes \<Rightarrow> addr \<Rightarrow> addr \<Rightarrow> int \<Rightarrow> int option" where
  "list_index_loop h item value i =
     (if item = NULL then Some (- 1)
      else do {
        n \<leftarrow> h item;
        if n_value n = value then Some i else list_index_loop h (n_next n) value (i + 1)
      })"

declare list_index_loop.simps [code]

definition list_index_of :: "addr \<Rightarrow> addr \<Rightarrow> ('h, 'z) list_heap_scheme \<Rightarrow> int option" where
  "list_index_of list value s = do { l \<leftarrow> lists s list; list_index_loop (nodes s) (l_head l) value 0 }"

definition list_delete :: "addr \<Rightarrow> addr \<Rightarrow> ('h, 'z) list_heap_scheme \<Rightarrow> ('h, 'z) list_heap_scheme option" where
  "list_delete list node s0 = do {
     l \<leftarrow> lists s0 list;
     s1 \<leftarrow> (if node = l_head l then do {
              n \<leftarrow> nodes s0 node; wlist list (\<lambda>l. l\<lparr>l_head := n_next n\<rparr>) s0 } else Some s0);
     s2 \<leftarrow> (if node = l_tail l then do {
              n \<leftarrow> nodes s1 node; wlist list (\<lambda>l. l\<lparr>l_tail := n_prev n\<rparr>) s1 } else Some s1);
     n \<leftarrow> nodes s2 node;
     s3 \<leftarrow> (if n_prev n \<noteq> NULL then wnode (n_prev n) (\<lambda>p. p\<lparr>n_next := n_next n\<rparr>) s2 else Some s2);
     n' \<leftarrow> nodes s3 node;
     s4 \<leftarrow> (if n_next n' \<noteq> NULL then wnode (n_next n') (\<lambda>p. p\<lparr>n_prev := n_prev n'\<rparr>) s3 else Some s3);
     s5 \<leftarrow> wnode node (\<lambda>n. n\<lparr>n_prev := NULL, n_next := NULL\<rparr>) s4;
     wlist list (\<lambda>l. l\<lparr>l_length := sub32 (l_length l) 1\<rparr>) s5
   }"

primrec nth_next :: "nodes \<Rightarrow> nat \<Rightarrow> addr \<Rightarrow> addr option" where
  "nth_next h 0 n = Some n"
| "nth_next h (Suc i) n = do { c \<leftarrow> h n; nth_next h i (n_next c) }"

definition list_remove :: "addr \<Rightarrow> nat \<Rightarrow> ('h, 'z) list_heap_scheme \<Rightarrow> ('h, 'z) list_heap_scheme option" where
  "list_remove list index s = do {
     l \<leftarrow> lists s list;
     if l_length l < index then Some s
     else do {
       n \<leftarrow> nth_next (nodes s) index (l_head l);
       list_delete list n s
     }
   }"

definition list_pop :: "addr \<Rightarrow> ('h, 'z) list_heap_scheme \<Rightarrow> (addr \<times> ('h, 'z) list_heap_scheme) option" where
  "list_pop list s = do {
     l \<leftarrow> lists s list;
     if l_tail l = NULL then Some (NULL, s)
     else do { s' \<leftarrow> list_delete list (l_tail l) s; Some (l_tail l, s') }
   }"

definition list_dequeue :: "addr \<Rightarrow> ('h, 'z) list_heap_scheme \<Rightarrow> (addr \<times> ('h, 'z) list_heap_scheme) option" where
  "list_dequeue list s = do {
     l \<leftarrow> lists s list;
     if l_head l = NULL then Some (NULL, s)
     else do { s' \<leftarrow> list_delete list (l_head l) s; Some (l_head l, s') }
   }"

text \<open>\<open>None\<close> is a loop that goes on for ever, or a step of it that does not return (a bad pointer, no memory).\<close>

partial_function (option) list_copy_loop ::
  "'h alloc \<Rightarrow> addr \<Rightarrow> addr \<Rightarrow> ('h, 'z) list_heap_scheme \<Rightarrow> ('h, 'z) list_heap_scheme option" where
  "list_copy_loop alloc out node s =
     (if node = NULL then Some s
      else do {
        n \<leftarrow> nodes s node;
        (x, s') \<leftarrow> list_insert alloc out (n_value n) s;
        list_copy_loop alloc out node s'
      })"

definition list_copy ::
  "'h alloc \<Rightarrow> addr \<Rightarrow> ('h, 'z) list_heap_scheme \<Rightarrow> (addr \<times> ('h, 'z) list_heap_scheme) option" where
  "list_copy alloc original s = do {
     (out, s1) \<leftarrow> list_create alloc s;
     l \<leftarrow> lists s1 original;
     s2 \<leftarrow> list_copy_loop alloc out (l_head l) s1;
     Some (out, s2)
   }"

definition list_merge ::
  "'h dealloc \<Rightarrow> addr \<Rightarrow> addr \<Rightarrow> ('h, 'z) list_heap_scheme \<Rightarrow> ('h, 'z) list_heap_scheme option" where
  "list_merge dealloc target source s0 = do {
     t \<leftarrow> lists s0 target;
     r \<leftarrow> lists s0 source;
     s1 \<leftarrow> (if l_tail t \<noteq> NULL then wnode (l_tail t) (\<lambda>n. n\<lparr>n_next := l_head r\<rparr>) s0
            else wlist target (\<lambda>l. l\<lparr>l_head := l_head r\<rparr>) s0);
     r1 \<leftarrow> lists s1 source;
     s2 \<leftarrow> (if l_tail r1 \<noteq> NULL then wlist target (\<lambda>l. l\<lparr>l_tail := l_tail r1\<rparr>) s1 else Some s1);
     r2 \<leftarrow> lists s2 source;
     s3 \<leftarrow> wlist target (\<lambda>l. l\<lparr>l_length := w32 (l_length l + l_length r2)\<rparr>) s2;
     m \<leftarrow> dealloc source (lmem s3);
     Some (s3\<lparr>lmem := m, lists := (lists s3)(source := None)\<rparr>)
   }"

partial_function (option) list_destroy_loop ::
  "'h dealloc \<Rightarrow> addr \<Rightarrow> ('h, 'z) list_heap_scheme \<Rightarrow> ('h, 'z) list_heap_scheme option" where
  "list_destroy_loop dealloc n s =
     (if n = NULL then Some s
      else do {
        c \<leftarrow> nodes s n;
        m \<leftarrow> dealloc (n_value c) (lmem s);
        list_destroy_loop dealloc (n_next c) (s\<lparr>lmem := m\<rparr>)
      })"

definition list_destroy ::
  "'h dealloc \<Rightarrow> addr \<Rightarrow> ('h, 'z) list_heap_scheme \<Rightarrow> ('h, 'z) list_heap_scheme option" where
  "list_destroy dealloc list s = do { l \<leftarrow> lists s list; list_destroy_loop dealloc (l_head l) s }"

partial_function (option) list_free_loop ::
  "'h dealloc \<Rightarrow> addr \<Rightarrow> ('h, 'z) list_heap_scheme \<Rightarrow> ('h, 'z) list_heap_scheme option" where
  "list_free_loop dealloc n s =
     (if n = NULL then Some s
      else do {
        c \<leftarrow> nodes s n;
        m \<leftarrow> dealloc n (lmem s);
        list_free_loop dealloc (n_next c) (s\<lparr>lmem := m, nodes := (nodes s)(n := None)\<rparr>)
      })"

definition list_free ::
  "'h dealloc \<Rightarrow> addr \<Rightarrow> ('h, 'z) list_heap_scheme \<Rightarrow> ('h, 'z) list_heap_scheme option" where
  "list_free dealloc list s = do { l \<leftarrow> lists s list; list_free_loop dealloc (l_head l) s }"

declare list_copy_loop.simps [code] list_destroy_loop.simps [code] list_free_loop.simps [code]


section \<open>Lists on the heap\<close>

type_synonym cell_list = "(addr \<times> addr) list"

definition first :: "cell_list \<Rightarrow> addr \<Rightarrow> addr" where
  "first xs q = (case xs of [] \<Rightarrow> q | (n, v) # _ \<Rightarrow> n)"

definition final :: "cell_list \<Rightarrow> addr \<Rightarrow> addr" where
  "final xs p = (if xs = [] then p else fst (last xs))"

definition addrs :: "cell_list \<Rightarrow> addr set" where
  "addrs xs = fst ` set xs"

definition no_dup :: "cell_list \<Rightarrow> bool" where
  "no_dup xs = distinct (map fst xs)"

lemma addrs_simps [simp]: "addrs [] = {}" "addrs ((n, v) # xs) = insert n (addrs xs)"
  "addrs (xs @ ys) = addrs xs \<union> addrs ys"
  by (auto simp: addrs_def)

lemma no_dup_simps [simp]: "no_dup []" "no_dup ((n, v) # xs) \<longleftrightarrow> n \<notin> addrs xs \<and> no_dup xs"
  "no_dup (xs @ ys) \<longleftrightarrow> no_dup xs \<and> no_dup ys \<and> addrs xs \<inter> addrs ys = {}"
  by (auto simp: addrs_def no_dup_def)

text \<open>
  \<open>dll h p xs q\<close>: the nodes and values of \<open>xs\<close> are stored as a doubly linked list whose first
  \<^verbatim>\<open>prev\<close> is \<open>p\<close> and whose last \<^verbatim>\<open>next\<close> is \<open>q\<close>.
\<close>

fun dll :: "nodes \<Rightarrow> addr \<Rightarrow> cell_list \<Rightarrow> addr \<Rightarrow> bool" where
  "dll h p [] q = True"
| "dll h p ((n, v) # xs) q =
     (n \<noteq> NULL \<and> h n = Some \<lparr>n_next = first xs q, n_prev = p, n_value = v\<rparr> \<and> dll h n xs q)"

definition list_rep :: "('h, 'z) list_heap_scheme \<Rightarrow> addr \<Rightarrow> cell_list \<Rightarrow> bool" where
  "list_rep s l xs \<longleftrightarrow> lists s l = Some \<lparr>l_head = first xs NULL, l_tail = final xs NULL, l_length = length xs\<rparr> \<and>
     dll (nodes s) NULL xs NULL \<and> no_dup xs \<and> length xs < 4294967296"

lemma first_simps [simp]: "first [] q = q" "first ((n, v) # xs) q = n"
  by (simp_all add: first_def)

lemma final_simps [simp]: "final [] p = p" "final (xs @ [(n, v)]) p = n" "final ((n, v) # xs) p = final xs n"
  "final (xs @ (n, v) # ys) p = final ys n"
  by (simp_all add: final_def)

lemma first_append: "first (xs @ ys) q = first xs (first ys q)"
  by (cases xs) auto

lemma dll_append: "dll h p (xs @ ys) q \<longleftrightarrow> dll h p xs (first ys q) \<and> dll h (final xs p) ys q"
  by (induction h p xs q rule: dll.induct) (auto simp: first_append)

lemma dll_frame: "x \<notin> addrs xs \<Longrightarrow> dll (h(x := y)) p xs q = dll h p xs q"
  by (induction h p xs q rule: dll.induct) auto

lemma dll_cong: "(\<And>x. x \<in> addrs xs \<Longrightarrow> h' x = h x) \<Longrightarrow> dll h' p xs q = dll h p xs q"
  by (induction h p xs q rule: dll.induct) auto

lemma dll_nonnull: "dll h p xs q \<Longrightarrow> NULL \<notin> addrs xs"
  by (induction h p xs q rule: dll.induct) auto

lemma dll_dom: "dll h p xs q \<Longrightarrow> x \<in> addrs xs \<Longrightarrow> h x \<noteq> None"
  by (induction h p xs q rule: dll.induct) auto

text \<open>Redirecting the last \<^verbatim>\<open>next\<close> and the first \<^verbatim>\<open>prev\<close>.\<close>

lemma dll_set_next:
  assumes "dll h p (xs @ [(n, v)]) q" and "no_dup (xs @ [(n, v)])" and "h n = Some c"
  shows "dll (h(n \<mapsto> c\<lparr>n_next := q'\<rparr>)) p (xs @ [(n, v)]) q'"
  using assms by (auto simp: dll_append dll_frame)

lemma dll_set_prev:
  assumes "dll h p ((n, v) # xs) q" and "no_dup ((n, v) # xs)" and "h n = Some c"
  shows "dll (h(n \<mapsto> c\<lparr>n_prev := p'\<rparr>)) p' ((n, v) # xs) q"
  using assms by (auto simp: dll_frame)

text \<open>Taking a node out: its neighbours are joined past it.\<close>

definition set_next :: "nodes \<Rightarrow> addr \<Rightarrow> addr \<Rightarrow> nodes" where
  "set_next h p q = (if p = NULL then h else h(p := map_option (\<lambda>c. c\<lparr>n_next := q\<rparr>) (h p)))"

definition set_prev :: "nodes \<Rightarrow> addr \<Rightarrow> addr \<Rightarrow> nodes" where
  "set_prev h q p = (if q = NULL then h else h(q := map_option (\<lambda>c. c\<lparr>n_prev := p\<rparr>) (h q)))"

lemma dll_set_final:
  assumes "dll h NULL xs q" and "no_dup xs"
  shows "dll (set_next h (final xs NULL) q') NULL xs q'"
proof (cases xs rule: rev_cases)
  case (snoc ys y)
  obtain n v where "y = (n, v)" by (cases y)
  then show ?thesis
    using assms snoc by (auto simp: set_next_def dll_append dll_frame)
qed (simp add: set_next_def)

lemma dll_set_first:
  assumes "dll h p xs NULL" and "no_dup xs"
  shows "dll (set_prev h (first xs NULL) p') p' xs NULL"
proof (cases xs)
  case (Cons y ys)
  obtain n v where "y = (n, v)" by (cases y)
  then show ?thesis
    using assms Cons by (auto simp: set_prev_def dll_frame)
qed (simp add: set_prev_def)

lemma final_in: "final xs NULL = NULL \<or> final xs NULL \<in> addrs xs"
  by (cases xs rule: rev_cases) auto

lemma first_in: "first xs NULL = NULL \<or> first xs NULL \<in> addrs xs"
  by (cases xs) auto

lemma set_next_other: "x \<noteq> p \<Longrightarrow> set_next h p q x = h x"
  and set_prev_other: "x \<noteq> p \<Longrightarrow> set_prev h p q x = h x"
  and dom_set_next [simp]: "dom (set_next h p q) = dom h"
  and dom_set_prev [simp]: "dom (set_prev h p q) = dom h"
  by (auto simp: set_next_def set_prev_def split: if_splits)

lemma dll_unlink:
  assumes d: "dll h NULL (xs @ (n, v) # ys) NULL" and dist: "no_dup (xs @ (n, v) # ys)"
  shows "dll (set_prev (set_next h (final xs NULL) (first ys NULL)) (first ys NULL) (final xs NULL))
    NULL (xs @ ys) NULL" (is "dll ?h _ _ _")
proof -
  let ?g = "set_next h (final xs NULL) (first ys NULL)"
  have dx: "dll h NULL xs n" and dy: "dll h n ys NULL" using d by (simp_all add: dll_append)
  have x: "x \<noteq> first ys NULL" if "x \<in> addrs xs" for x
    using that dist dll_nonnull [OF dx] first_in [of ys] by (auto simp: disjoint_iff)
  have y: "x \<noteq> final xs NULL" if "x \<in> addrs ys" for x
    using that dist dll_nonnull [OF dy] final_in [of xs] by (auto simp: disjoint_iff)
  have "dll ?g NULL xs (first ys NULL)" by (rule dll_set_final [OF dx]) (use dist in simp)
  then have "dll ?h NULL xs (first ys NULL)"
    by (rule dll_cong [THEN iffD2, rotated]) (auto simp: set_prev_other x)
  moreover have "dll ?g n ys NULL"
    using dy by (rule dll_cong [THEN iffD2, rotated]) (auto simp: set_next_other y)
  then have "dll ?h (final xs NULL) ys NULL" by (rule dll_set_first) (use dist in simp)
  ultimately show ?thesis by (simp add: dll_append)
qed

lemma final_null_iff: "dll h p xs q \<Longrightarrow> (final xs NULL = NULL) = (xs = [])"
  by (cases xs rule: rev_cases) (auto simp: dll_append)

lemma first_null_iff: "dll h p xs q \<Longrightarrow> (first xs NULL = NULL) = (xs = [])"
  by (cases xs) auto

lemmas list_simps = wnode_def wlist_def list_rep_def

section \<open>Refinement of HOL lists\<close>

lemma wnode_set_next:
  "p \<noteq> NULL \<Longrightarrow> nodes s p \<noteq> None \<Longrightarrow>
    wnode p (\<lambda>c. c\<lparr>n_next := q\<rparr>) s = Some (s\<lparr>nodes := set_next (nodes s) p q\<rparr>)"
  by (auto simp: wnode_def set_next_def)

lemma wnode_set_prev:
  "p \<noteq> NULL \<Longrightarrow> nodes s p \<noteq> None \<Longrightarrow>
    wnode p (\<lambda>c. c\<lparr>n_prev := q\<rparr>) s = Some (s\<lparr>nodes := set_prev (nodes s) p q\<rparr>)"
  by (auto simp: wnode_def set_prev_def)

lemma final_append: "final (xs @ ys) p = final ys (final xs p)"
  by (simp add: final_def)

lemma list_append_rep:
  assumes rep: "list_rep s l xs" and n: "nodes s n = Some c" "n_value c = v" "n \<noteq> NULL"
    "n \<notin> addrs xs" and len: "length xs + 1 < 4294967296"
  shows "\<exists>s'. list_append l n s = Some s' \<and> list_rep s' l (xs @ [(n, v)]) \<and>
    (\<forall>k. k \<noteq> l \<longrightarrow> lists s' k = lists s k) \<and> lmem s' = lmem s \<and>
    (\<forall>x. x \<noteq> n \<and> x \<notin> addrs xs \<longrightarrow> nodes s' x = nodes s x) \<and> dom (nodes s') = dom (nodes s) \<and>
    list_heap.more s' = list_heap.more s"
proof (cases xs rule: rev_cases)
  case Nil
  then show ?thesis using assms by (auto simp: list_append_def list_simps w32_simps)
next
  case (snoc ys y)
  obtain m w where y: "y = (m, w)" by (cases y)
  have d: "dll (nodes s) NULL (ys @ [(m, w)]) NULL" and dist: "no_dup (ys @ [(m, w)])"
    using rep snoc y by (auto simp: list_rep_def)
  then obtain cm where m: "nodes s m = Some cm" "m \<noteq> NULL" by (auto simp: dll_append)
  have mn: "m \<noteq> n" using n(4) snoc y by auto
  let ?h = "(nodes s)(m \<mapsto> cm\<lparr>n_next := n\<rparr>, n \<mapsto> c\<lparr>n_next := NULL, n_prev := m\<rparr>)"
  have "dll ((nodes s)(m \<mapsto> cm\<lparr>n_next := n\<rparr>)) NULL (ys @ [(m, w)]) n"
    by (rule dll_set_next [OF d dist m(1)])
  then have "dll ?h NULL (ys @ [(m, w)]) n"
    using n(4) snoc y by (subst dll_frame) auto
  then have "dll ?h NULL (xs @ [(n, v)]) NULL"
    using snoc y n by (cases c) (auto simp: dll_append)
  then show ?thesis
    using rep n m mn len snoc y
    by (auto simp: list_append_def list_simps w32_simps fun_upd_twist first_append)
qed

lemma list_delete_rep:
  assumes rep: "list_rep s l (xs @ (n, v) # ys)"
  shows "\<exists>s'. list_delete l n s = Some s' \<and> list_rep s' l (xs @ ys) \<and>
    nodes s' n = Some \<lparr>n_next = NULL, n_prev = NULL, n_value = v\<rparr> \<and>
    (\<forall>k. k \<noteq> l \<longrightarrow> lists s' k = lists s k) \<and> lmem s' = lmem s \<and>
    (\<forall>x. x \<notin> addrs (xs @ (n, v) # ys) \<longrightarrow> nodes s' x = nodes s x) \<and> dom (nodes s') = dom (nodes s)"
proof -
  let ?p = "final xs NULL" and ?q = "first ys NULL"
  have d: "dll (nodes s) NULL (xs @ (n, v) # ys) NULL" and dist: "no_dup (xs @ (n, v) # ys)"
    and l: "lists s l = Some \<lparr>l_head = first xs n, l_tail = final ys n, l_length = length xs + 1 + length ys\<rparr>"
    and len: "length xs + 1 + length ys < 4294967296"
    using rep by (auto simp: list_rep_def first_append)
  have n: "nodes s n = Some \<lparr>n_next = ?q, n_prev = ?p, n_value = v\<rparr>" "n \<noteq> NULL"
    using d by (auto simp: dll_append)
  have np: "n \<noteq> ?p" using final_in [of xs] n(2) dist by auto
  have nq: "n \<noteq> ?q" using first_in [of ys] n(2) dist by auto
  have pe: "nodes s ?p \<noteq> None" if "?p \<noteq> NULL"
    using final_in [of xs] that dll_dom [OF d, of ?p] by auto
  have qe: "set_next (nodes s) ?p ?q ?q \<noteq> None" if "?q \<noteq> NULL"
    using first_in [of ys] that dll_dom [OF d, of ?q] by (auto simp: set_next_def)
  have dll_tail: "dll (nodes s) n ys NULL" using d by (simp add: dll_append)
  have xs: "n = first xs n \<longleftrightarrow> xs = []" using dist by (cases xs) auto
  have ys: "n = final ys n \<longleftrightarrow> ys = []" using dist by (cases ys rule: rev_cases) auto
  let ?h = "(set_prev (set_next (nodes s) ?p ?q) ?q ?p)(n \<mapsto> \<lparr>n_next = NULL, n_prev = NULL, n_value = v\<rparr>)"
  let ?l = "\<lparr>l_head = first (xs @ ys) NULL, l_tail = final (xs @ ys) NULL, l_length = length (xs @ ys)\<rparr>"
  have dh: "dll ?h NULL (xs @ ys) NULL"
    using dll_unlink [OF d dist] dist by (subst dll_frame) auto
  have "list_delete l n s = Some (s\<lparr>nodes := ?h, lists := (lists s)(l \<mapsto> ?l)\<rparr>)"
  proof (cases ys)
    case Nil
    show ?thesis
    proof (cases xs rule: rev_cases)
      case Nil
      then show ?thesis using l len n \<open>ys = []\<close>
        by (simp add: list_delete_def wlist_def wnode_def set_next_def set_prev_def w32_simps)
    next
      case (snoc zs z)
      obtain m w where z: "z = (m, w)" by (cases z)
      then obtain c where m: "nodes s m = Some c" "m \<noteq> NULL" "m \<noteq> n" "first xs n \<noteq> n" "n \<noteq> first xs n"
        "first xs n = first xs NULL"
        using snoc d xs dist by (auto simp: dll_append first_append)
      show ?thesis using l len n \<open>ys = []\<close> m snoc z
        by (simp add: list_delete_def wlist_def wnode_def set_next_def set_prev_def w32_simps first_append
            fun_upd_twist)
    qed
  next
    case (Cons y zs)
    obtain q w where y: "y = (q, w)" by (cases y)
    then obtain cq where q: "nodes s q = Some cq" "q \<noteq> NULL" "q \<noteq> n" "final zs q \<noteq> n" "n \<noteq> final zs q"
      using Cons d ys dist by (auto simp: dll_append)
    show ?thesis
    proof (cases xs rule: rev_cases)
      case Nil
      then show ?thesis using l len n q Cons y
        by (simp add: list_delete_def wlist_def wnode_def set_next_def set_prev_def w32_simps fun_upd_twist)
    next
      case (snoc us z)
      obtain m w where z: "z = (m, w)" by (cases z)
      then obtain c where m: "nodes s m = Some c" "m \<noteq> NULL" "m \<noteq> n" "m \<noteq> q" "first xs n \<noteq> n" "n \<noteq> first xs n"
        using snoc d xs dist Cons y by (auto simp: dll_append first_append)
      show ?thesis using l len n q m Cons y snoc z
        by (simp add: list_delete_def wlist_def wnode_def set_next_def set_prev_def w32_simps first_append
            fun_upd_twist)
    qed
  qed
  moreover have "dom ?h = dom (nodes s)" using n by auto
  moreover have "?h x = nodes s x" if "x \<notin> addrs (xs @ (n, v) # ys)" for x
    using that final_in [of xs] first_in [of ys] by (auto simp: set_next_def set_prev_def)
  ultimately show ?thesis using dh dist len by (auto simp: list_rep_def)
qed


lemma list_append_after_rep:
  assumes rep: "list_rep s l (xs @ (b, w) # ys)"
    and n: "nodes s n = Some \<lparr>n_next = NULL, n_prev = NULL, n_value = v\<rparr>" "n \<noteq> NULL"
      "n \<notin> addrs (xs @ (b, w) # ys)"
    and len: "length (xs @ (b, w) # ys) + 1 < 4294967296"
  shows "\<exists>s'. list_append_after l b n s = Some s' \<and> list_rep s' l (xs @ (b, w) # (n, v) # ys)"
proof -
  have d: "dll (nodes s) NULL (xs @ (b, w) # ys) NULL" and dist: "no_dup (xs @ (b, w) # ys)"
    and l: "lists s l = Some \<lparr>l_head = first xs b, l_tail = final ys b, l_length = length xs + 1 + length ys\<rparr>"
    using rep by (auto simp: list_rep_def first_append)
  obtain cb where b: "nodes s b = Some cb" "n_next cb = first ys NULL" "b \<noteq> NULL" "b \<noteq> n"
    using d n(3) by (auto simp: dll_append)
  show ?thesis
  proof (cases ys)
    case Nil
    let ?h = "(nodes s)(b \<mapsto> cb\<lparr>n_next := n\<rparr>, n \<mapsto> \<lparr>n_next = NULL, n_prev = b, n_value = v\<rparr>)"
    have "dll ?h NULL (xs @ [(b, w), (n, v)]) NULL"
      using d n dist b Nil by (auto simp: dll_append dll_frame)
    then show ?thesis using l b n len Nil dist
      by (auto simp: list_append_after_def list_simps w32_simps first_append fun_upd_twist)
  next
    case (Cons y zs)
    obtain q u where y: "y = (q, u)" by (cases y)
    obtain cq where q: "nodes s q = Some cq" "q \<noteq> NULL" "q \<noteq> n" "q \<noteq> b" "final zs q \<noteq> NULL" "b \<noteq> final zs q"
      using d n dist b Cons y dll_nonnull [OF d] by (cases zs rule: rev_cases) (auto simp: dll_append)
    let ?h = "(nodes s)(b \<mapsto> cb\<lparr>n_next := n\<rparr>, q \<mapsto> cq\<lparr>n_prev := n\<rparr>,
      n \<mapsto> \<lparr>n_next = q, n_prev = b, n_value = v\<rparr>)"
    have "dll ?h NULL (xs @ (b, w) # (n, v) # (q, u) # zs) NULL"
      using d n dist b q Cons y by (auto simp: dll_append dll_frame)
    then show ?thesis using l b n len q Cons y dist
      by (auto simp: list_append_after_def list_simps w32_simps first_append fun_upd_twist)
  qed
qed

text \<open>
  \<^verbatim>\<open>list_merge\<close> links the two chains forwards only: the first node of the source keeps its null
  \<^verbatim>\<open>prev\<close>.
\<close>

lemma list_merge_result:
  assumes t: "list_rep s t (xs @ [(m, u)])" and r: "list_rep s r ((n, v) # ys)" and tr: "t \<noteq> r"
    and dis: "addrs (xs @ [(m, u)]) \<inter> addrs ((n, v) # ys) = {}"
    and len: "length xs + length ys + 2 < 4294967296" and fr: "dealloc r (lmem s) = Some m'"
  shows "\<exists>s'. list_merge dealloc t r s = Some s' \<and>
    lists s' t = Some \<lparr>l_head = first (xs @ [(m, u)]) NULL, l_tail = final ys n, l_length = length xs + length ys + 2\<rparr> \<and>
    dll (nodes s') NULL (xs @ [(m, u)]) n \<and> dll (nodes s') NULL ((n, v) # ys) NULL"
proof -
  obtain c where m: "nodes s m = Some c" using t by (auto simp: list_rep_def dll_append)
  let ?h = "(nodes s)(m \<mapsto> c\<lparr>n_next := n\<rparr>)"
  have 1: "dll ?h NULL (xs @ [(m, u)]) n"
    using t m by (auto simp: list_rep_def dll_append dll_frame)
  have 2: "dll ?h NULL ((n, v) # ys) NULL"
    using r dis by (subst dll_frame) (auto simp: list_rep_def)
  have z: "m \<noteq> NULL" "final ys n \<noteq> NULL"
    using t r by (auto simp: list_rep_def dll_append) (cases ys rule: rev_cases; auto simp: dll_append)+
  have "list_merge dealloc t r s = Some (s\<lparr>nodes := ?h, lmem := m', lists := (lists s)(t \<mapsto>
      \<lparr>l_head = first (xs @ [(m, u)]) NULL, l_tail = final ys n, l_length = length xs + length ys + 2\<rparr>,
      r := None)\<rparr>)"
    using t r tr m z len fr
    by (simp add: list_merge_def list_simps w32_simps fun_upd_twist)
  then show ?thesis using 1 2 tr by auto
qed

text \<open>The other lists are untouched as long as they share no node with this one.\<close>

lemma list_rep_frame:
  assumes "list_rep s k ys" and "lists s' k = lists s k"
    and "\<And>x. x \<in> addrs ys \<Longrightarrow> nodes s' x = nodes s x"
  shows "list_rep s' k ys"
  using assms dll_cong [of ys "nodes s'" "nodes s" NULL NULL] by (simp add: list_rep_def)

lemma dll_unique: "dll h p xs q \<Longrightarrow> dll h p ys q \<Longrightarrow> length xs = length ys \<Longrightarrow> first xs q = first ys q \<Longrightarrow> xs = ys"
proof (induction h p xs q arbitrary: ys rule: dll.induct)
  case (2 h p n v xs q)
  then show ?case by (cases ys) auto
qed simp

lemma list_rep_unique: "list_rep s l xs \<Longrightarrow> list_rep s l ys \<Longrightarrow> xs = ys"
  by (rule dll_unique [of "nodes s" NULL xs NULL]) (auto simp: list_rep_def)

lemma list_find_loop_dll:
  "dll h p xs NULL \<Longrightarrow> list_find_loop h (first xs NULL) v
     = Some (case find (\<lambda>(n, w). w = v) xs of None \<Rightarrow> NULL | Some (n, w) \<Rightarrow> n)"
proof (induction xs arbitrary: p)
  case Nil
  then show ?case by (simp add: list_find_loop.simps)
next
  case (Cons x xs)
  obtain n w where x: "x = (n, w)" by (cases x)
  with Cons show ?case by (subst list_find_loop.simps) auto
qed

lemma list_find_rep:
  assumes "list_rep s l xs"
  shows "list_find l v s = Some (case find (\<lambda>(n, w). w = v) xs of None \<Rightarrow> NULL | Some (n, w) \<Rightarrow> n)"
  using assms list_find_loop_dll by (auto simp: list_find_def list_rep_def)

fun index_from :: "addr \<Rightarrow> addr list \<Rightarrow> int \<Rightarrow> int" where
  "index_from v [] i = - 1"
| "index_from v (w # ws) i = (if w = v then i else index_from v ws (i + 1))"

lemma list_index_loop_dll:
  "dll h p xs NULL \<Longrightarrow> list_index_loop h (first xs NULL) v i = Some (index_from v (map snd xs) i)"
proof (induction xs arbitrary: p i)
  case Nil
  then show ?case by (simp add: list_index_loop.simps)
next
  case (Cons x xs)
  obtain n w where x: "x = (n, w)" by (cases x)
  with Cons show ?case by (subst list_index_loop.simps) auto
qed

lemma index_from_spec:
  "v \<in> set ws \<Longrightarrow> \<exists>j < length ws. index_from v ws i = i + int j \<and> ws ! j = v \<and> (\<forall>k < j. ws ! k \<noteq> v)"
  "v \<notin> set ws \<Longrightarrow> index_from v ws i = - 1"
proof (induction ws arbitrary: i)
  case (Cons w ws)
  {
    case 1
    show ?case
    proof (cases "w = v")
      case False
      then obtain j where "j < length ws" "index_from v ws (i + 1) = i + 1 + int j" "ws ! j = v"
        "\<forall>k < j. ws ! k \<noteq> v"
        using Cons.IH(1) [of "i + 1"] 1 by auto
      then show ?thesis using False by (intro exI [of _ "Suc j"]) (auto simp: nth_Cons split: nat.splits)
    qed auto
  }
  case 2
  then show ?case using Cons.IH(2) by auto
qed auto

lemma nth_next_dll:
  "dll h p xs NULL \<Longrightarrow> i \<le> length xs \<Longrightarrow> nth_next h i (first xs NULL) = Some (first (drop i xs) NULL)"
proof (induction xs arbitrary: p i)
  case (Cons x xs)
  obtain n w where "x = (n, w)" by (cases x)
  with Cons show ?case by (cases i) auto
qed simp

lemma list_remove_rep:
  assumes rep: "list_rep s l xs" and i: "i < length xs"
  shows "\<exists>s'. list_remove l i s = Some s' \<and> list_rep s' l (take i xs @ drop (Suc i) xs)"
proof -
  obtain n v where x: "xs ! i = (n, v)" by (cases "xs ! i")
  have xs: "xs = take i xs @ (n, v) # drop (Suc i) xs" using id_take_nth_drop [OF i] x by simp
  have "drop i xs = (n, v) # drop (Suc i) xs" using Cons_nth_drop_Suc [OF i] x by simp
  then have "nth_next (nodes s) i (first xs NULL) = Some n"
    using nth_next_dll [of "nodes s" NULL xs i] rep i by (simp add: list_rep_def)
  moreover obtain s' where "list_delete l n s = Some s'" "list_rep s' l (take i xs @ drop (Suc i) xs)"
    using list_delete_rep [of s l "take i xs" n v "drop (Suc i) xs"] rep xs by metis
  ultimately show ?thesis using rep i by (auto simp: list_remove_def list_rep_def)
qed

lemma list_pop_rep:
  assumes "list_rep s l (xs @ [(n, v)])"
  shows "\<exists>s'. list_pop l s = Some (n, s') \<and> list_rep s' l xs \<and>
    nodes s' n = Some \<lparr>n_next = NULL, n_prev = NULL, n_value = v\<rparr> \<and> lmem s' = lmem s"
proof -
  have "n \<noteq> NULL" using assms by (auto simp: list_rep_def dll_append)
  moreover obtain s' where "list_delete l n s = Some s'" "list_rep s' l xs"
    "nodes s' n = Some \<lparr>n_next = NULL, n_prev = NULL, n_value = v\<rparr>" "lmem s' = lmem s"
    using list_delete_rep [of s l xs n v "[]"] assms by auto
  ultimately show ?thesis using assms by (auto simp: list_pop_def list_rep_def)
qed

lemma list_dequeue_rep:
  assumes "list_rep s l ((n, v) # xs)"
  shows "\<exists>s'. list_dequeue l s = Some (n, s') \<and> list_rep s' l xs \<and>
    nodes s' n = Some \<lparr>n_next = NULL, n_prev = NULL, n_value = v\<rparr> \<and> lmem s' = lmem s"
proof -
  have "n \<noteq> NULL" using assms by (auto simp: list_rep_def)
  moreover obtain s' where "list_delete l n s = Some s'" "list_rep s' l xs"
    "nodes s' n = Some \<lparr>n_next = NULL, n_prev = NULL, n_value = v\<rparr>" "lmem s' = lmem s"
    using list_delete_rep [of s l "[]" n v xs] assms by auto
  ultimately show ?thesis using assms by (auto simp: list_dequeue_def list_rep_def)
qed

text \<open>\<^verbatim>\<open>list_copy\<close> never advances to the next node.\<close>

lemma list_copy_loop_None: "node \<noteq> NULL \<Longrightarrow> list_copy_loop alloc out node s = None"
proof -
  have "node = NULL" if "list_copy_loop alloc out node s = Some r" for r
    by (rule list_copy_loop.raw_induct [OF _ that, where P = "\<lambda>_ _ node _ _. node = NULL"])
      (fastforce split: if_splits Option.bind_splits)
  then show "node \<noteq> NULL \<Longrightarrow> list_copy_loop alloc out node s = None" by (cases "list_copy_loop alloc out node s") auto
qed

section \<open>Over any allocator\<close>

text \<open>Nodes and headers are blocks in use, and distinct ones.\<close>

definition lheap_ok :: "('h \<Rightarrow> addr \<rightharpoonup> nat) \<Rightarrow> ('h \<Rightarrow> bool) \<Rightarrow> ('h, 'z) list_heap_scheme \<Rightarrow> bool" where
  "lheap_ok allocated valid s \<longleftrightarrow> valid (lmem s) \<and>
     dom (nodes s) \<union> dom (lists s) \<subseteq> dom (allocated (lmem s)) \<and> dom (nodes s) \<inter> dom (lists s) = {}"

context allocator
begin

lemma new_node_ok:
  assumes "lheap_ok allocated valid s" and "alloc_cost sizeof_node \<le> room (lmem s)"
  shows "\<exists>n s'. new_node alloc item s = Some (n, s') \<and> lheap_ok allocated valid s' \<and> n \<noteq> NULL \<and>
    nodes s n = None \<and> nodes s' = (nodes s)(n \<mapsto> \<lparr>n_next = NULL, n_prev = NULL, n_value = item\<rparr>) \<and>
    lists s' = lists s \<and> dom (allocated (lmem s)) \<subseteq> dom (allocated (lmem s')) \<and> list_heap.more s' = list_heap.more s \<and>
    room (lmem s) \<le> room (lmem s') + alloc_cost sizeof_node"
proof -
  have v: "valid (lmem s)" using assms(1) by (simp add: lheap_ok_def)
  obtain n m k where "alloc sizeof_node (lmem s) = Some (n, m)" "valid m" "n \<noteq> NULL"
    "allocated (lmem s) n = None" "allocated m = (allocated (lmem s))(n \<mapsto> k)"
    "room (lmem s) \<le> room m + alloc_cost sizeof_node"
    using alloc_ok [OF v assms(2)] by blast
  moreover from this have "nodes s n = None" "lists s n = None"
    using assms(1) by (auto simp: lheap_ok_def)
  ultimately show ?thesis using assms(1) by (auto simp: new_node_def lheap_ok_def)
qed

lemma list_insert_ok:
  assumes ok: "lheap_ok allocated valid s" and rm: "alloc_cost sizeof_node \<le> room (lmem s)"
    and rep: "list_rep s l xs" and len: "length xs + 1 < 4294967296"
  shows "\<exists>n s'. list_insert alloc l item s = Some (n, s') \<and> lheap_ok allocated valid s' \<and>
    nodes s n = None \<and> list_rep s' l (xs @ [(n, item)]) \<and>
    (\<forall>k ys. k \<noteq> l \<longrightarrow> addrs ys \<inter> addrs xs = {} \<longrightarrow> list_rep s k ys \<longrightarrow> list_rep s' k ys) \<and>
    dom (allocated (lmem s)) \<subseteq> dom (allocated (lmem s')) \<and> list_heap.more s' = list_heap.more s \<and>
    room (lmem s) \<le> room (lmem s') + alloc_cost sizeof_node"
proof -
  obtain n s1 where n: "new_node alloc item s = Some (n, s1)" "lheap_ok allocated valid s1" "n \<noteq> NULL"
    "nodes s n = None" "nodes s1 = (nodes s)(n \<mapsto> \<lparr>n_next = NULL, n_prev = NULL, n_value = item\<rparr>)"
    "lists s1 = lists s" "room (lmem s) \<le> room (lmem s1) + alloc_cost sizeof_node"
    "dom (allocated (lmem s)) \<subseteq> dom (allocated (lmem s1))" "list_heap.more s1 = list_heap.more s"
    using new_node_ok [OF ok rm] by blast
  have out: "n \<notin> addrs ys" if "list_rep s k ys" for k ys
    using that n(4) dll_dom [of "nodes s" NULL ys NULL n] by (auto simp: list_rep_def)
  have keep: "list_rep s1 k ys" if "list_rep s k ys" for k ys
    by (rule list_rep_frame [OF that]) (use n(5,6) out [OF that] in auto)
  obtain s2 where s2: "list_append l n s1 = Some s2" "list_rep s2 l (xs @ [(n, item)])"
    "\<forall>k. k \<noteq> l \<longrightarrow> lists s2 k = lists s1 k" "lmem s2 = lmem s1"
    "\<forall>x. x \<noteq> n \<and> x \<notin> addrs xs \<longrightarrow> nodes s2 x = nodes s1 x" "dom (nodes s2) = dom (nodes s1)"
    "list_heap.more s2 = list_heap.more s1"
    using list_append_rep [OF keep [OF rep], of n "\<lparr>n_next = NULL, n_prev = NULL, n_value = item\<rparr>" item]
      n(3,5) out [OF rep] len by auto
  have "lists s1 l \<noteq> None" using keep [OF rep] by (simp add: list_rep_def)
  then have "lists s2 x = None \<longleftrightarrow> lists s1 x = None" for x
    using s2(2,3) by (cases "x = l") (auto simp: list_rep_def)
  then have "dom (lists s2) = dom (lists s1)" by (simp add: dom_def)
  then have "lheap_ok allocated valid s2" using n(2) s2(4,6) by (simp add: lheap_ok_def)
  moreover have "list_rep s2 k ys" if "k \<noteq> l" "addrs ys \<inter> addrs xs = {}" "list_rep s k ys" for k ys
  proof (rule list_rep_frame [OF keep [OF that(3)]])
    show "lists s2 k = lists s1 k" using s2(3) that(1) by simp
    fix x
    assume x: "x \<in> addrs ys"
    have "x \<noteq> n" using out [OF that(3)] x by metis
    moreover have "x \<notin> addrs xs" using that(2) x by (metis disjoint_iff)
    ultimately show "nodes s2 x = nodes s1 x" using s2(5) by simp
  qed
  ultimately show ?thesis using n s2 by (auto simp: list_insert_def)
qed

lemma list_create_ok:
  assumes ok: "lheap_ok allocated valid s" and rm: "alloc_cost sizeof_list \<le> room (lmem s)"
  shows "\<exists>l s'. list_create alloc s = Some (l, s') \<and> lheap_ok allocated valid s' \<and> l \<noteq> NULL \<and>
    lists s l = None \<and> list_rep s' l [] \<and> nodes s' = nodes s \<and> (\<forall>k. k \<noteq> l \<longrightarrow> lists s' k = lists s k) \<and>
    dom (allocated (lmem s)) \<subseteq> dom (allocated (lmem s')) \<and> list_heap.more s' = list_heap.more s \<and>
    room (lmem s) \<le> room (lmem s') + alloc_cost sizeof_list"
proof -
  have v: "valid (lmem s)" using ok by (simp add: lheap_ok_def)
  obtain n m k where "alloc sizeof_list (lmem s) = Some (n, m)" "valid m" "n \<noteq> NULL"
    "allocated (lmem s) n = None" "allocated m = (allocated (lmem s))(n \<mapsto> k)"
    "room (lmem s) \<le> room m + alloc_cost sizeof_list"
    using alloc_ok [OF v rm] by blast
  moreover from this have "nodes s n = None" "lists s n = None"
    using ok by (auto simp: lheap_ok_def)
  ultimately show ?thesis using ok by (auto simp: list_create_def lheap_ok_def list_rep_def)
qed

lemma list_copy_diverges:
  assumes "lheap_ok allocated valid s" and "alloc_cost sizeof_list \<le> room (lmem s)"
    and "list_rep s l xs" and "xs \<noteq> []"
  shows "list_copy alloc l s = None"
proof -
  obtain k s' where s': "list_create alloc s = Some (k, s')" "lists s k = None"
    "\<forall>j. j \<noteq> k \<longrightarrow> lists s' j = lists s j"
    using list_create_ok [OF assms(1,2)] by blast
  have "lists s' l = lists s l" using s'(2,3) assms(3) by (metis list_rep_def option.discI)
  moreover have "first xs NULL \<noteq> NULL" using assms(3,4) first_null_iff by (auto simp: list_rep_def)
  ultimately show ?thesis using s'(1) assms(3) by (simp add: list_copy_def list_rep_def list_copy_loop_None)
qed

end


section \<open>Properties\<close>

abbreviation kheap_ok :: "icp_memory heap \<Rightarrow> bool" where
  "kheap_ok \<equiv> heap_ok mem_allocate_starting icp_ready"

abbreviation kroom :: "icp_memory heap \<Rightarrow> nat" where
  "kroom s \<equiv> 4294967296 - 1 - mem_allocate_starting (os s)"

definition list_start :: "icp_memory heap list_heap" where
  "list_start = \<lparr>nodes = Map.empty, lists = Map.empty, lmem = heap_start icp_memory_start\<rparr>"

lemma list_start_ok [simp]: "lheap_ok live kheap_ok list_start"
  by (simp add: lheap_ok_def list_start_def)

lemma list_start_room [simp]: "mem_allocate_starting (os (lmem list_start)) = 65536"
  by (simp add: list_start_def icp_memory_start_def)

text \<open>A concrete two-element list, for evaluation.\<close>

definition sample_lists :: "icp_memory heap list_heap" where
  "sample_lists = list_start\<lparr>
     nodes := [8 \<mapsto> \<lparr>n_next = 24, n_prev = 0, n_value = 5\<rparr>, 24 \<mapsto> \<lparr>n_next = 0, n_prev = 8, n_value = 6\<rparr>,
               40 \<mapsto> \<lparr>n_next = 0, n_prev = 0, n_value = 7\<rparr>],
     lists := [64 \<mapsto> \<lparr>l_head = 8, l_tail = 24, l_length = 2\<rparr>, 80 \<mapsto> \<lparr>l_head = 40, l_tail = 40, l_length = 1\<rparr>]\<rparr>"

lemma sample_rep: "list_rep sample_lists 64 [(8, 5), (24, 6)]" "list_rep sample_lists 80 [(40, 7)]"
  by (simp_all add: list_rep_def sample_lists_def final_def)

text \<open>
  Property C31. \<^verbatim>\<open>list_insert\<close> over the kernel heap returns a fresh node and appends the item at the
  end; all other lists of the kernel that share no node with this one are unchanged.
\<close>

theorem list_insert_appends:
  assumes "lheap_ok live kheap_ok s" and "alloc_cost sizeof_node \<le> kroom (lmem s)"
    and "list_rep s l xs" and "length xs + 1 < 4294967296"
  shows "\<exists>n s'. list_insert (malloc icp_sbrk) l item s = Some (n, s') \<and> lheap_ok live kheap_ok s' \<and>
    nodes s n = None \<and> list_rep s' l (xs @ [(n, item)]) \<and>
    (\<forall>k ys. k \<noteq> l \<longrightarrow> addrs ys \<inter> addrs xs = {} \<longrightarrow> list_rep s k ys \<longrightarrow> list_rep s' k ys)"
  using icp.heap.list_insert_ok [OF assms] by blast

theorem list_insert_appends_witness:
  "\<exists>l (s :: icp_memory heap list_heap) n s'. list_rep s l [] \<and> list_insert (malloc icp_sbrk) l 7 s = Some (n, s') \<and> list_rep s' l [(n, 7)]"
proof -
  have "alloc_cost sizeof_list \<le> kroom (lmem list_start)" by simp
  then obtain l and s :: "icp_memory heap list_heap" where s: "lheap_ok live kheap_ok s" "list_rep s l []"
    "kroom (lmem list_start) \<le> kroom (lmem s) + alloc_cost sizeof_list"
    using icp.heap.list_create_ok [OF list_start_ok] by blast
  then have "alloc_cost sizeof_node \<le> kroom (lmem s)" by simp
  from list_insert_appends [OF s(1) this s(2), of 7] s(2) show ?thesis by auto
qed

text \<open>
  Property C15. \<^verbatim>\<open>list_delete\<close> of a node of the list returns, joins its neighbours in both
  directions, clears the links of the node, and keeps the node's value and all other nodes.
\<close>

theorem list_delete_removes:
  assumes "list_rep s l (xs @ (n, v) # ys)"
  shows "\<exists>s'. list_delete l n s = Some s' \<and> list_rep s' l (xs @ ys) \<and>
    nodes s' n = Some \<lparr>n_next = NULL, n_prev = NULL, n_value = v\<rparr> \<and>
    (\<forall>x. x \<notin> addrs (xs @ (n, v) # ys) \<longrightarrow> nodes s' x = nodes s x) \<and>
    (\<forall>k. k \<noteq> l \<longrightarrow> lists s' k = lists s k) \<and> lmem s' = lmem s"
  using list_delete_rep [OF assms] by blast

theorem list_delete_removes_witness:
  "\<exists>s'. list_delete 64 8 sample_lists = Some s' \<and> list_rep s' 64 [(24, 6)]"
  using list_delete_removes [of sample_lists 64 "[]" 8 5 "[(24, 6)]"] sample_rep(1) by auto

text \<open>
  \<^verbatim>\<open>list_dequeue\<close> takes the first element and \<^verbatim>\<open>list_pop\<close> the last one, and both give
  the null pointer on the empty list.
\<close>

theorem list_ends:
  assumes "list_rep s l xs"
  shows "if xs = [] then list_dequeue l s = Some (NULL, s) \<and> list_pop l s = Some (NULL, s)
     else (\<exists>s'. list_dequeue l s = Some (fst (hd xs), s') \<and> list_rep s' l (tl xs)) \<and>
       (\<exists>s'. list_pop l s = Some (fst (last xs), s') \<and> list_rep s' l (butlast xs))"
proof (cases "xs = []")
  case True
  then show ?thesis using assms by (simp add: list_dequeue_def list_pop_def list_rep_def)
next
  case False
  obtain n v where "hd xs = (n, v)" by (cases "hd xs")
  then have "xs = (n, v) # tl xs" using False by (cases xs) auto
  moreover obtain m u where "last xs = (m, u)" by (cases "last xs")
  then have "xs = butlast xs @ [(m, u)]" using False append_butlast_last_id [of xs] by simp
  ultimately show ?thesis
    using False assms list_dequeue_rep [of s l n v "tl xs"] list_pop_rep [of s l "butlast xs" m u]
      \<open>hd xs = (n, v)\<close> \<open>last xs = (m, u)\<close> by auto
qed

theorem list_ends_witness:
  "(\<exists>s'. list_dequeue 64 sample_lists = Some (8, s') \<and> list_rep s' 64 [(24, 6)]) \<and>
   (\<exists>s'. list_pop 64 sample_lists = Some (24, s') \<and> list_rep s' 64 [(8, 5)])"
  using list_ends [OF sample_rep(1)] by simp

text \<open>
  \<^verbatim>\<open>list_remove\<close> with an index equal to the length passes its range check and then
  dereferences the null pointer behind the last node.
\<close>

theorem list_remove_length_faults:
  assumes "list_rep s l xs" and "nodes s NULL = None"
  shows "list_remove l (length xs) s = None"
proof -
  have "nth_next (nodes s) (length xs) (first xs NULL) = Some NULL"
    using nth_next_dll [of "nodes s" NULL xs "length xs"] assms(1) by (simp add: list_rep_def)
  moreover have "list_delete l NULL s = None"
    using assms by (auto simp: list_delete_def list_rep_def wlist_def split: Option.bind_splits)
  ultimately show ?thesis using assms(1) by (simp add: list_remove_def list_rep_def)
qed

theorem list_remove_length_faults_witness: "list_remove 64 2 sample_lists = None"
proof -
  have "nodes sample_lists NULL = None" by (simp add: sample_lists_def)
  from list_remove_length_faults [OF sample_rep(1) this] show ?thesis by (simp add: numeral_2_eq_2)
qed

text \<open>
  Property C40. \<^verbatim>\<open>list_copy\<close> of a list with at least one element never returns: its loop appends the
  first value over and over.
\<close>

theorem list_copy_never_returns:
  assumes "lheap_ok live kheap_ok s" and "alloc_cost sizeof_list \<le> kroom (lmem s)"
    and "list_rep s l xs" and "xs \<noteq> []"
  shows "list_copy (malloc icp_sbrk) l s = None"
  using icp.heap.list_copy_diverges [OF assms] .

theorem list_copy_never_returns_witness:
  "\<exists>(s :: icp_memory heap list_heap) l n. list_rep s l [(n, 7)] \<and> list_copy (malloc icp_sbrk) l s = None"
proof -
  have "alloc_cost sizeof_list \<le> kroom (lmem list_start)" by simp
  then obtain l and s :: "icp_memory heap list_heap" where s: "lheap_ok live kheap_ok s" "list_rep s l []"
    "kroom (lmem list_start) \<le> kroom (lmem s) + alloc_cost sizeof_list"
    using icp.heap.list_create_ok [OF list_start_ok] by blast
  then have "alloc_cost sizeof_node \<le> kroom (lmem s)" by simp
  then obtain n and s' :: "icp_memory heap list_heap" where s': "lheap_ok live kheap_ok s'" "list_rep s' l [(n, 7)]"
    "kroom (lmem s) \<le> kroom (lmem s') + alloc_cost sizeof_node"
    using icp.heap.list_insert_ok [OF s(1) _ s(2), of 7] by auto
  have "alloc_cost sizeof_list \<le> kroom (lmem s')" using s(3) s'(3) by simp
  from list_copy_never_returns [OF s'(1) this s'(2)] s'(2) show ?thesis by blast
qed

text \<open>
  \<^verbatim>\<open>list_merge\<close> of two non-empty lists leaves a header and forward links for the joined
  list, but the first node of the second part still has a null \<^verbatim>\<open>prev\<close>: the result is not a
  doubly linked list.
\<close>

theorem list_merge_breaks_prev:
  assumes "list_rep s t (xs @ [(m, u)])" and "list_rep s r ((n, v) # ys)" and "t \<noteq> r"
    and "addrs (xs @ [(m, u)]) \<inter> addrs ((n, v) # ys) = {}"
    and "length xs + length ys + 2 < 4294967296" and "dealloc r (lmem s) = Some m'"
  shows "\<exists>s'. list_merge dealloc t r s = Some s' \<and> dll (nodes s') NULL (xs @ [(m, u)]) n \<and>
    dll (nodes s') NULL ((n, v) # ys) NULL \<and> (\<forall>zs. \<not> list_rep s' t (xs @ [(m, u)] @ (n, v) # zs))"
proof -
  obtain s' where s': "list_merge dealloc t r s = Some s'" "dll (nodes s') NULL (xs @ [(m, u)]) n"
    "dll (nodes s') NULL ((n, v) # ys) NULL"
    using list_merge_result [where dealloc = dealloc, OF assms] by blast
  moreover have "\<not> list_rep s' t (xs @ [(m, u)] @ (n, v) # zs)" for zs
    using s'(2,3) by (auto simp: list_rep_def dll_append)
  ultimately show ?thesis by blast
qed

theorem list_merge_breaks_prev_witness:
  "\<exists>s'. list_merge (\<lambda>p m. Some m) 64 80 sample_lists = Some s' \<and>
     (\<forall>zs. \<not> list_rep s' 64 ([(8, 5)] @ [(24, 6)] @ (40, 7) # zs))"
  using list_merge_breaks_prev [of sample_lists 64 "[(8, 5)]" 24 6 80 40 7 "[]" "\<lambda>p m. Some m"] sample_rep
  by auto

end
