(* ===== verification/Kernel_Tree.thy ===== *)
theory Kernel_Tree
  imports Linked_List "HOL-Library.Multiset"
begin

text \<open>
  The general tree of \<^verbatim>\<open>src/kernel/lib/tree.c\<close>: nodes with a value, a parent and a list of
  children built from \<^verbatim>\<open>src/kernel/lib/list.c\<close>. The heap of \<open>Linked_List\<close> is extended with a
  store of tree nodes and one of tree headers. The recursive routines walk the children of a
  node with a loop that calls the routine again; here the loop is the recursive function and
  the body of the routine for a child is written inside it.
\<close>

section \<open>Data\<close>

record tree_node =
  t_value :: addr
  t_children :: addr
  t_parent :: addr

record tree =
  tr_nodes :: nat
  tr_root :: addr

record 'h tree_heap = "'h list_heap" +
  tnodes :: "addr \<rightharpoonup> tree_node"
  trees :: "addr \<rightharpoonup> tree"

abbreviation sizeof_tree :: nat where "sizeof_tree \<equiv> 8"
abbreviation sizeof_tree_node :: nat where "sizeof_tree_node \<equiv> 12"

definition wtree :: "addr \<Rightarrow> (tree \<Rightarrow> tree) \<Rightarrow> 'h tree_heap \<Rightarrow> 'h tree_heap option" where
  "wtree p f s = (case trees s p of None \<Rightarrow> None | Some t \<Rightarrow> Some (s\<lparr>trees := (trees s)(p \<mapsto> f t)\<rparr>))"

definition wtnode :: "addr \<Rightarrow> (tree_node \<Rightarrow> tree_node) \<Rightarrow> 'h tree_heap \<Rightarrow> 'h tree_heap option" where
  "wtnode p f s = (case tnodes s p of None \<Rightarrow> None | Some t \<Rightarrow> Some (s\<lparr>tnodes := (tnodes s)(p \<mapsto> f t)\<rparr>))"

section \<open>Construction\<close>

definition tree_create :: "'h alloc \<Rightarrow> 'h tree_heap \<Rightarrow> (addr \<times> 'h tree_heap) option" where
  "tree_create alloc s = do {
     (out, m) \<leftarrow> alloc sizeof_tree (lmem s);
     if out = NULL then None
     else Some (out, s\<lparr>lmem := m, trees := (trees s)(out \<mapsto> \<lparr>tr_nodes = 0, tr_root = NULL\<rparr>)\<rparr>)
   }"

definition tree_node_create :: "'h alloc \<Rightarrow> addr \<Rightarrow> 'h tree_heap \<Rightarrow> (addr \<times> 'h tree_heap) option" where
  "tree_node_create alloc value s = do {
     (out, m) \<leftarrow> alloc sizeof_tree_node (lmem s);
     if out = NULL then None
     else do {
       (children, s1) \<leftarrow> list_create alloc (s\<lparr>lmem := m\<rparr>);
       Some (out, s1\<lparr>tnodes := (tnodes s1)(out \<mapsto>
         \<lparr>t_value = value, t_children = children, t_parent = NULL\<rparr>)\<rparr>)
     }
   }"

definition tree_set_root :: "'h alloc \<Rightarrow> addr \<Rightarrow> addr \<Rightarrow> 'h tree_heap \<Rightarrow> 'h tree_heap option" where
  "tree_set_root alloc tree value s = do {
     (root, s1) \<leftarrow> tree_node_create alloc value s;
     wtree tree (\<lambda>t. t\<lparr>tr_root := root, tr_nodes := 1\<rparr>) s1
   }"

definition tree_node_insert_child_node ::
  "'h alloc \<Rightarrow> addr \<Rightarrow> addr \<Rightarrow> addr \<Rightarrow> 'h tree_heap \<Rightarrow> 'h tree_heap option" where
  "tree_node_insert_child_node alloc tree parent node s = do {
     p \<leftarrow> tnodes s parent;
     (x, s1) \<leftarrow> list_insert alloc (t_children p) node s;
     s2 \<leftarrow> wtnode node (\<lambda>n. n\<lparr>t_parent := parent\<rparr>) s1;
     wtree tree (\<lambda>t. t\<lparr>tr_nodes := w32 (tr_nodes t + 1)\<rparr>) s2
   }"

definition tree_node_insert_child ::
  "'h alloc \<Rightarrow> addr \<Rightarrow> addr \<Rightarrow> addr \<Rightarrow> 'h tree_heap \<Rightarrow> (addr \<times> 'h tree_heap) option" where
  "tree_node_insert_child alloc tree parent value s = do {
     (out, s1) \<leftarrow> tree_node_create alloc value s;
     s2 \<leftarrow> tree_node_insert_child_node alloc tree parent out s1;
     Some (out, s2)
   }"

section \<open>Release\<close>

text \<open>\<open>item\<close> is the list node whose value is the child to visit.\<close>

partial_function (option) destroy_children ::
  "'h dealloc \<Rightarrow> addr \<Rightarrow> 'h tree_heap \<Rightarrow> 'h tree_heap option" where
  "destroy_children dealloc item s =
     (if item = NULL then Some s
      else do {
        c \<leftarrow> nodes s item;
        n \<leftarrow> tnodes s (n_value c);
        l \<leftarrow> lists s (t_children n);
        s1 \<leftarrow> destroy_children dealloc (l_head l) s;
        m \<leftarrow> dealloc (t_value n) (lmem s1);
        destroy_children dealloc (n_next c) (s1\<lparr>lmem := m\<rparr>)
      })"

definition tree_node_destroy :: "'h dealloc \<Rightarrow> addr \<Rightarrow> 'h tree_heap \<Rightarrow> 'h tree_heap option" where
  "tree_node_destroy dealloc node s = do {
     n \<leftarrow> tnodes s node;
     l \<leftarrow> lists s (t_children n);
     s1 \<leftarrow> destroy_children dealloc (l_head l) s;
     m \<leftarrow> dealloc (t_value n) (lmem s1);
     Some (s1\<lparr>lmem := m\<rparr>)
   }"

definition tree_destroy :: "'h dealloc \<Rightarrow> addr \<Rightarrow> 'h tree_heap \<Rightarrow> 'h tree_heap option" where
  "tree_destroy dealloc tree s = do {
     t \<leftarrow> trees s tree;
     if tr_root t \<noteq> NULL then tree_node_destroy dealloc (tr_root t) s else Some s
   }"

partial_function (option) free_children ::
  "'h dealloc \<Rightarrow> addr \<Rightarrow> 'h tree_heap \<Rightarrow> 'h tree_heap option" where
  "free_children dealloc item s =
     (if item = NULL then Some s
      else do {
        c \<leftarrow> nodes s item;
        s1 \<leftarrow> (if n_value c = NULL then Some s
               else do {
                 n \<leftarrow> tnodes s (n_value c);
                 l \<leftarrow> lists s (t_children n);
                 s1 \<leftarrow> free_children dealloc (l_head l) s;
                 m \<leftarrow> dealloc (n_value c) (lmem s1);
                 Some (s1\<lparr>lmem := m, tnodes := (tnodes s1)(n_value c := None)\<rparr>)
               });
        free_children dealloc (n_next c) s1
      })"

definition tree_node_free :: "'h dealloc \<Rightarrow> addr \<Rightarrow> 'h tree_heap \<Rightarrow> 'h tree_heap option" where
  "tree_node_free dealloc node s =
     (if node = NULL then Some s
      else do {
        n \<leftarrow> tnodes s node;
        l \<leftarrow> lists s (t_children n);
        s1 \<leftarrow> free_children dealloc (l_head l) s;
        m \<leftarrow> dealloc node (lmem s1);
        Some (s1\<lparr>lmem := m, tnodes := (tnodes s1)(node := None)\<rparr>)
      })"

definition tree_free :: "'h dealloc \<Rightarrow> addr \<Rightarrow> 'h tree_heap \<Rightarrow> 'h tree_heap option" where
  "tree_free dealloc tree s = do { t \<leftarrow> trees s tree; tree_node_free dealloc (tr_root t) s }"

section \<open>Search\<close>

partial_function (option) find_parent_in :: "'h tree_heap \<Rightarrow> addr \<Rightarrow> addr \<Rightarrow> addr \<Rightarrow> addr option" where
  "find_parent_in s haystack item needle =
     (if item = NULL then Some NULL
      else do {
        c \<leftarrow> nodes s item;
        if n_value c = needle then Some haystack
        else do {
          n \<leftarrow> tnodes s (n_value c);
          l \<leftarrow> lists s (t_children n);
          found \<leftarrow> find_parent_in s (n_value c) (l_head l) needle;
          if found \<noteq> NULL then Some found else find_parent_in s haystack (n_next c) needle
        }
      })"

definition tree_node_find_parent :: "addr \<Rightarrow> addr \<Rightarrow> 'h tree_heap \<Rightarrow> addr option" where
  "tree_node_find_parent haystack needle s = do {
     n \<leftarrow> tnodes s haystack;
     l \<leftarrow> lists s (t_children n);
     find_parent_in s haystack (l_head l) needle
   }"

definition tree_find_parent :: "addr \<Rightarrow> addr \<Rightarrow> 'h tree_heap \<Rightarrow> addr option" where
  "tree_find_parent tree node s = do {
     t \<leftarrow> trees s tree;
     if tr_root t = NULL then Some NULL else tree_node_find_parent (tr_root t) node s
   }"

partial_function (option) count_in :: "'h tree_heap \<Rightarrow> addr \<Rightarrow> nat option" where
  "count_in s item =
     (if item = NULL then Some 0
      else do {
        c \<leftarrow> nodes s item;
        k \<leftarrow> (if n_value c = NULL then Some 0
              else do {
                n \<leftarrow> tnodes s (n_value c);
                if t_children n = NULL then Some 0
                else do { l \<leftarrow> lists s (t_children n); j \<leftarrow> count_in s (l_head l); Some (w32 (l_length l + j)) }
              });
        r \<leftarrow> count_in s (n_next c);
        Some (w32 (k + r))
      })"

definition tree_count_children :: "addr \<Rightarrow> 'h tree_heap \<Rightarrow> nat option" where
  "tree_count_children node s =
     (if node = NULL then Some 0
      else do {
        n \<leftarrow> tnodes s node;
        if t_children n = NULL then Some 0
        else do { l \<leftarrow> lists s (t_children n); j \<leftarrow> count_in s (l_head l); Some (w32 (l_length l + j)) }
      })"

partial_function (option) find_in :: "(addr \<Rightarrow> addr \<Rightarrow> bool) \<Rightarrow> 'h tree_heap \<Rightarrow> addr \<Rightarrow> addr \<Rightarrow> addr option" where
  "find_in comparator s item search =
     (if item = NULL then Some NULL
      else do {
        c \<leftarrow> nodes s item;
        n \<leftarrow> tnodes s (n_value c);
        found \<leftarrow> (if comparator (t_value n) search then Some (n_value c)
                  else do { l \<leftarrow> lists s (t_children n); find_in comparator s (l_head l) search });
        if found \<noteq> NULL then Some found else find_in comparator s (n_next c) search
      })"

definition tree_node_find :: "(addr \<Rightarrow> addr \<Rightarrow> bool) \<Rightarrow> addr \<Rightarrow> addr \<Rightarrow> 'h tree_heap \<Rightarrow> addr option" where
  "tree_node_find comparator node search s = do {
     n \<leftarrow> tnodes s node;
     if comparator (t_value n) search then Some node
     else do { l \<leftarrow> lists s (t_children n); find_in comparator s (l_head l) search }
   }"

definition tree_find :: "(addr \<Rightarrow> addr \<Rightarrow> bool) \<Rightarrow> addr \<Rightarrow> addr \<Rightarrow> 'h tree_heap \<Rightarrow> addr option" where
  "tree_find comparator tree value s = do {
     t \<leftarrow> trees s tree;
     tree_node_find comparator (tr_root t) value s
   }"

section \<open>Removal\<close>

definition tree_node_parent_remove ::
  "'h dealloc \<Rightarrow> addr \<Rightarrow> addr \<Rightarrow> addr \<Rightarrow> 'h tree_heap \<Rightarrow> 'h tree_heap option" where
  "tree_node_parent_remove dealloc tree parent node s = do {
     k \<leftarrow> tree_count_children node s;
     s1 \<leftarrow> wtree tree (\<lambda>t. t\<lparr>tr_nodes := sub32 (tr_nodes t) (w32 (k + 1))\<rparr>) s;
     p \<leftarrow> tnodes s1 parent;
     item \<leftarrow> list_find (t_children p) node s1;
     s2 \<leftarrow> list_delete (t_children p) item s1;
     tree_node_free dealloc node s2
   }"

definition tree_node_remove :: "'h dealloc \<Rightarrow> addr \<Rightarrow> addr \<Rightarrow> 'h tree_heap \<Rightarrow> 'h tree_heap option" where
  "tree_node_remove dealloc tree node s = do {
     n \<leftarrow> tnodes s node;
     t \<leftarrow> trees s tree;
     let parent = t_parent n;
     s1 \<leftarrow> (if parent = NULL \<and> node = tr_root t then do {
              s1 \<leftarrow> wtree tree (\<lambda>t. t\<lparr>tr_nodes := 0, tr_root := NULL\<rparr>) s;
              tree_node_free dealloc node s1
            } else Some s);
     tree_node_parent_remove dealloc tree parent node s1
   }"

partial_function (option) reparent :: "addr \<Rightarrow> addr \<Rightarrow> 'h tree_heap \<Rightarrow> 'h tree_heap option" where
  "reparent parent item s =
     (if item = NULL then Some s
      else do {
        c \<leftarrow> nodes s item;
        s1 \<leftarrow> wtnode (n_value c) (\<lambda>n. n\<lparr>t_parent := parent\<rparr>) s;
        reparent parent (n_next c) s1
      })"

definition tree_remove :: "'h dealloc \<Rightarrow> addr \<Rightarrow> addr \<Rightarrow> 'h tree_heap \<Rightarrow> 'h tree_heap option" where
  "tree_remove dealloc tree node s = do {
     n \<leftarrow> tnodes s node;
     let parent = t_parent n;
     if parent = NULL then Some s
     else do {
       s1 \<leftarrow> wtree tree (\<lambda>t. t\<lparr>tr_nodes := sub32 (tr_nodes t) 1\<rparr>) s;
       p \<leftarrow> tnodes s1 parent;
       item \<leftarrow> list_find (t_children p) node s1;
       s2 \<leftarrow> list_delete (t_children p) item s1;
       l \<leftarrow> lists s2 (t_children n);
       s3 \<leftarrow> reparent parent (l_head l) s2;
       s4 \<leftarrow> list_merge dealloc (t_children p) (t_children n) s3;
       m \<leftarrow> dealloc node (lmem s4);
       Some (s4\<lparr>lmem := m, tnodes := (tnodes s4)(node := None)\<rparr>)
     }
   }"


section \<open>Trees on the heap\<close>

text \<open>
  An abstract tree keeps, for each node, the list cell through which its parent refers to it,
  its address, its value, the address of its list of children, and the children. The functions
  below work on forests; a tree is a forest of one.
\<close>

datatype tr = TNode (cell: addr) (ptr: addr) (tval: addr) (tlist: addr) (kids: "tr list")

fun flat :: "tr list \<Rightarrow> (addr \<times> addr) list" where
  "flat [] = []"
| "flat (TNode c p v l ks # ts) = (p, v) # flat ks @ flat ts"

fun fcells :: "tr list \<Rightarrow> addr list" where
  "fcells [] = []"
| "fcells (TNode c p v l ks # ts) = c # fcells ks @ fcells ts"

fun fptrs :: "tr list \<Rightarrow> addr list" where
  "fptrs [] = []"
| "fptrs (TNode c p v l ks # ts) = p # fptrs ks @ fptrs ts"

fun flists :: "tr list \<Rightarrow> addr list" where
  "flists [] = []"
| "flists (TNode c p v l ks # ts) = l # flists ks @ flists ts"

definition kcells :: "tr list \<Rightarrow> cell_list" where
  "kcells ks = map (\<lambda>k. (cell k, ptr k)) ks"

lemma kcells_simps [simp]: "kcells [] = []" "kcells (TNode c p v l ks # ts) = (c, p) # kcells ts"
  "kcells (xs @ ys) = kcells xs @ kcells ys"
  by (simp_all add: kcells_def)

lemma kcells_length [simp]: "length (kcells ks) = length ks"
  by (simp add: kcells_def)

fun trep :: "'h tree_heap \<Rightarrow> addr \<Rightarrow> tr list \<Rightarrow> bool" where
  "trep s par [] = True"
| "trep s par (TNode c p v l ks # ts) \<longleftrightarrow>
     p \<noteq> NULL \<and> l \<noteq> NULL \<and> tnodes s p = Some \<lparr>t_value = v, t_children = l, t_parent = par\<rparr> \<and>
     list_rep s l (kcells ks) \<and> trep s p ks \<and> trep s par ts"

lemma flat_append [simp]: "flat (xs @ ys) = flat xs @ flat ys"
  by (induction xs rule: flat.induct) auto

lemma trep_append [simp]: "trep s par (xs @ ys) \<longleftrightarrow> trep s par xs \<and> trep s par ys"
  by (induction s par xs rule: trep.induct) auto

lemma addrs_kcells: "addrs (kcells ts) \<subseteq> set (fcells ts)"
  by (induction ts rule: fcells.induct) auto

text \<open>Search meets the nodes in preorder.\<close>

definition first_match :: "(addr \<Rightarrow> bool) \<Rightarrow> (addr \<times> addr) list \<Rightarrow> addr" where
  "first_match P xs = (case find (\<lambda>(p, v). P v) xs of None \<Rightarrow> NULL | Some (p, v) \<Rightarrow> p)"

lemma first_match_simps [simp]: "first_match P [] = NULL"
  "first_match P ((p, v) # xs) = (if P v then p else first_match P xs)"
  by (simp_all add: first_match_def)

lemma first_match_append:
  "NULL \<notin> fst ` set xs \<Longrightarrow>
     first_match P (xs @ ys) = (if first_match P xs \<noteq> NULL then first_match P xs else first_match P ys)"
  by (induction xs) (auto split: if_splits)

lemma flat_nonnull: "trep s par ts \<Longrightarrow> NULL \<notin> fst ` set (flat ts)"
  by (induction s par ts rule: trep.induct) auto

lemma find_in_forest:
  assumes "dll (nodes s) q (kcells ts) NULL" and "trep s par ts"
  shows "find_in cmp s (first (kcells ts) NULL) v = Some (first_match (\<lambda>x. cmp x v) (flat ts))"
  using assms
proof (induction ts arbitrary: q par rule: flat.induct)
  case 1
  then show ?case by (simp add: find_in.simps)
next
  case (2 c p w l ks ts)
  have ks: "find_in cmp s (first (kcells ks) NULL) v = Some (first_match (\<lambda>x. cmp x v) (flat ks))"
    using "2.IH"(1) [of NULL p] "2.prems"(2) by (simp add: list_rep_def)
  have ts: "find_in cmp s (first (kcells ts) NULL) v = Some (first_match (\<lambda>x. cmp x v) (flat ts))"
    using "2.IH"(2) "2.prems" by auto
  show ?case
    using "2.prems" ks ts flat_nonnull [of s p ks]
    by (subst find_in.simps) (auto simp: list_rep_def first_match_append)
qed

lemma count_in_forest:
  assumes "dll (nodes s) q (kcells ts) NULL" and "trep s par ts" and "length (flat ts) < 4294967296"
  shows "count_in s (first (kcells ts) NULL) = Some (length (flat ts) - length ts) \<and> length ts \<le> length (flat ts)"
  using assms
proof (induction ts arbitrary: q par rule: flat.induct)
  case 1
  then show ?case by (simp add: count_in.simps)
next
  case (2 c p w l ks ts)
  have ks: "count_in s (first (kcells ks) NULL) = Some (length (flat ks) - length ks)" "length ks \<le> length (flat ks)"
    using "2.IH"(1) [of NULL p] "2.prems"(2,3) by (simp_all add: list_rep_def)
  have ts: "count_in s (first (kcells ts) NULL) = Some (length (flat ts) - length ts)" "length ts \<le> length (flat ts)"
    using "2.IH"(2) [of c par] "2.prems" by auto
  have "w32 (w32 (length ks + (length (flat ks) - length ks)) + (length (flat ts) - length ts))
      = length (flat ks) + length (flat ts) - length ts"
    using ks(2) ts(2) "2.prems"(3) by (simp add: w32_simps)
  then show ?case
    using "2.prems" ks ts by (subst count_in.simps) (auto simp: list_rep_def)
qed


text \<open>Adding a last child below the node at \<open>q\<close>.\<close>

fun add_child :: "addr \<Rightarrow> tr \<Rightarrow> tr list \<Rightarrow> tr list" where
  "add_child q new [] = []"
| "add_child q new (TNode c p v l ks # ts) =
     TNode c p v l (if p = q then ks @ [new] else add_child q new ks) # add_child q new ts"

lemma kcells_add_child [simp]: "kcells (add_child q new ts) = kcells ts"
  by (induction q new ts rule: add_child.induct) auto

lemma add_child_other: "q \<notin> set (fptrs ts) \<Longrightarrow> add_child q new ts = ts"
  by (induction q new ts rule: add_child.induct) auto

lemma trep_ptr:
  assumes "trep s par ts" and "q \<in> set (fptrs ts)"
  shows "\<exists>v l par' ks. tnodes s q = Some \<lparr>t_value = v, t_children = l, t_parent = par'\<rparr> \<and> l \<in> set (flists ts) \<and>
     list_rep s l (kcells ks) \<and> addrs (kcells ks) \<subseteq> set (fcells ts) \<and>
     (distinct (fcells ts) \<longrightarrow> addrs (kcells ks) \<inter> addrs (kcells ts) = {})"
  using assms
proof (induction s par ts rule: trep.induct)
  case (2 s par c p v l ks ts)
  consider "p = q" | "q \<in> set (fptrs ks)" | "q \<in> set (fptrs ts)" using "2.prems"(2) by auto
  then show ?case
  proof cases
    case 1
    then show ?thesis using "2.prems" addrs_kcells [of ks] addrs_kcells [of ts]
      by (intro exI [of _ v] exI [of _ l] exI [of _ par] exI [of _ ks]) auto
  next
    case 2
    then show ?thesis using "2.IH"(1) "2.prems" addrs_kcells [of ts] by fastforce
  next
    case 3
    then show ?thesis using "2.IH"(2) "2.prems" addrs_kcells [of ts] by fastforce
  qed
qed simp

text \<open>The cells below the top level of a forest.\<close>

fun finner :: "tr list \<Rightarrow> addr list" where
  "finner [] = []"
| "finner (TNode c p v l ks # ts) = fcells ks @ finner ts"

lemma finner_fcells: "set (finner ts) \<subseteq> set (fcells ts)"
  by (induction ts rule: finner.induct) auto

lemma kcells_finner: "distinct (fcells ts) \<Longrightarrow> addrs (kcells ts) \<inter> set (finner ts) = {}"
proof (induction ts rule: finner.induct)
  case (2 c p v l ks ts)
  then show ?case using addrs_kcells [of ts] finner_fcells [of ts] by auto
qed simp

text \<open>What an insertion into the list \<open>lq\<close> with cells \<open>xs\<close> changes.\<close>

definition inserted :: "'h tree_heap \<Rightarrow> 'h tree_heap \<Rightarrow> addr \<Rightarrow> cell_list \<Rightarrow> addr \<Rightarrow> bool" where
  "inserted s s' lq xs out \<longleftrightarrow>
     (\<forall>k ys. k \<noteq> lq \<longrightarrow> addrs ys \<inter> addrs xs = {} \<longrightarrow> list_rep s k ys \<longrightarrow> list_rep s' k ys) \<and>
     (\<forall>x. x \<noteq> out \<longrightarrow> tnodes s' x = tnodes s x)"

lemma inserted_list:
  "inserted s s' lq xs out \<Longrightarrow> k \<noteq> lq \<Longrightarrow> addrs ys \<inter> addrs xs = {} \<Longrightarrow> list_rep s k ys \<Longrightarrow> list_rep s' k ys"
  by (simp add: inserted_def)

lemma trep_frame:
  assumes "inserted s s' lq xs out" and "trep s par ts" and "lq \<notin> set (flists ts)"
    and "addrs xs \<inter> set (finner ts) = {}" and "out \<notin> set (fptrs ts)"
  shows "trep s' par ts"
  using assms
proof (induction s par ts rule: trep.induct)
  case (2 s par c p v l ks ts)
  have "addrs (kcells ks) \<inter> addrs xs = {}" using "2.prems"(4) addrs_kcells [of ks] by auto
  then have "list_rep s' l (kcells ks)" using "2.prems"(1,2,3) by (auto simp: inserted_def)
  moreover have "addrs xs \<inter> set (finner ks) = {}" "addrs xs \<inter> set (finner ts) = {}"
    using "2.prems"(4) finner_fcells [of ks] by auto
  ultimately show ?case using 2 by (auto simp: inserted_def)
qed simp

lemma trep_add_child:
  assumes ins: "inserted s s' lq xs out" and rep: "trep s par ts" and q: "q \<in> set (fptrs ts)"
    and lq: "tnodes s q = Some \<lparr>t_value = vq, t_children = lq, t_parent = parq\<rparr>"
    and xs: "list_rep s lq xs" and xs': "list_rep s' lq (xs @ [(n, out)])"
    and new: "tnodes s' out = Some \<lparr>t_value = v, t_children = lo, t_parent = q\<rparr>" "list_rep s' lo []"
      "out \<noteq> NULL" "lo \<noteq> NULL"
    and dist: "distinct (flists ts)" "distinct (fcells ts)" "distinct (fptrs ts)" and out: "out \<notin> set (fptrs ts)"
  shows "trep s' par (add_child q (TNode n out v lo []) ts)"
  using rep q dist out
proof (induction ts arbitrary: par rule: flat.induct)
  case (2 c p w l ks ts)
  let ?new = "TNode n out v lo []"
  have inner: "set (finner ts) \<subseteq> set (fcells ts)" "set (finner ks) \<subseteq> set (fcells ks)" by (rule finner_fcells)+
  have tops: "addrs (kcells ks) \<subseteq> set (fcells ks)" "addrs (kcells ts) \<subseteq> set (fcells ts)" by (rule addrs_kcells)+
  consider (here) "p = q" | (below) "q \<in> set (fptrs ks)" "p \<noteq> q" | (right) "q \<in> set (fptrs ts)" "p \<noteq> q"
    using "2.prems"(2) by auto
  then show ?case
  proof cases
    case here
    then have l: "l = lq" using "2.prems"(1) lq by simp
    then have k: "kcells ks = xs" using "2.prems"(1) xs list_rep_unique by auto
    have "trep s' q ks"
      by (rule trep_frame [OF ins]) (use "2.prems" here l k kcells_finner [of ks] in auto)
    moreover have "trep s' par ts"
      by (rule trep_frame [OF ins]) (use "2.prems" here l k tops inner in auto)
    moreover have "tnodes s' p = tnodes s p" using ins "2.prems"(6) by (auto simp: inserted_def)
    ultimately show ?thesis
      using here l k xs' new "2.prems" add_child_other [of q ts] by (simp add: trep.simps)
  next
    case below
    obtain kq where kq: "lq \<in> set (flists ks)" "list_rep s lq (kcells kq)" "addrs (kcells kq) \<subseteq> set (fcells ks)"
      "addrs (kcells kq) \<inter> addrs (kcells ks) = {}"
      using trep_ptr [of s p ks q] below "2.prems" lq by auto
    have k: "kcells kq = xs" using kq(2) xs list_rep_unique by blast
    have "trep s' p (add_child q ?new ks)" by (rule "2.IH"(1)) (use below "2.prems" in auto)
    moreover have "trep s' par ts"
      by (rule trep_frame [OF ins]) (use "2.prems" kq k inner in auto)
    moreover have "list_rep s' l (kcells ks)"
      by (rule inserted_list [OF ins]) (use kq k "2.prems" in auto)
    moreover have "tnodes s' p = tnodes s p" using ins "2.prems"(6) by (auto simp: inserted_def)
    moreover have "q \<notin> set (fptrs ts)" using below "2.prems"(5) by auto
    ultimately show ?thesis using below "2.prems" by (simp add: add_child_other)
  next
    case right
    obtain kq where kq: "lq \<in> set (flists ts)" "list_rep s lq (kcells kq)" "addrs (kcells kq) \<subseteq> set (fcells ts)"
      using trep_ptr [of s par ts q] right "2.prems" lq by auto
    have k: "kcells kq = xs" using kq(2) xs list_rep_unique by blast
    have "trep s' par (add_child q ?new ts)" by (rule "2.IH"(2)) (use right "2.prems" in auto)
    moreover have "trep s' p ks"
      by (rule trep_frame [OF ins]) (use "2.prems" kq k inner in auto)
    moreover have "list_rep s' l (kcells ks)"
      by (rule inserted_list [OF ins]) (use kq k tops "2.prems" in auto)
    moreover have "tnodes s' p = tnodes s p" using ins "2.prems"(6) by (auto simp: inserted_def)
    moreover have "q \<notin> set (fptrs ks)" using right "2.prems"(5) by auto
    ultimately show ?thesis using right "2.prems" by (simp add: add_child_other)
  qed
qed simp


lemma add_child_mset:
  assumes "q \<in> set (fptrs ts)" and "distinct (fptrs ts)"
  shows "mset (fcells (add_child q (TNode n out v lo []) ts)) = add_mset n (mset (fcells ts))"
    and "mset (fptrs (add_child q (TNode n out v lo []) ts)) = add_mset out (mset (fptrs ts))"
    and "mset (flists (add_child q (TNode n out v lo []) ts)) = add_mset lo (mset (flists ts))"
    and "mset (flat (add_child q (TNode n out v lo []) ts)) = add_mset (out, v) (mset (flat ts))"
proof -
  have app: "fcells (xs @ ys) = fcells xs @ fcells ys" "fptrs (xs @ ys) = fptrs xs @ fptrs ys"
    "flists (xs @ ys) = flists xs @ flists ys" for xs ys
    by (induction xs rule: flat.induct) auto
  have "mset (fcells (add_child q (TNode n out v lo []) ts)) = add_mset n (mset (fcells ts)) \<and>
    mset (fptrs (add_child q (TNode n out v lo []) ts)) = add_mset out (mset (fptrs ts)) \<and>
    mset (flists (add_child q (TNode n out v lo []) ts)) = add_mset lo (mset (flists ts)) \<and>
    mset (flat (add_child q (TNode n out v lo []) ts)) = add_mset (out, v) (mset (flat ts))"
    using assms
  proof (induction ts rule: flat.induct)
    case (2 c p w l ks ts)
    consider (here) "p = q" | (below) "q \<in> set (fptrs ks)" "p \<noteq> q" | (right) "q \<in> set (fptrs ts)" "p \<noteq> q"
      using "2.prems"(1) by auto
    then show ?case
    proof cases
      case here
      then have "add_child q (TNode n out v lo []) ts = ts" using "2.prems"(2) by (intro add_child_other) auto
      then show ?thesis using here by (simp add: app)
    next
      case below
      then have "add_child q (TNode n out v lo []) ts = ts" using "2.prems"(2) by (intro add_child_other) auto
      then show ?thesis using below "2.IH"(1) "2.prems"(2) by simp
    next
      case right
      then have "add_child q (TNode n out v lo []) ks = ks" using "2.prems"(2) by (intro add_child_other) auto
      then show ?thesis using right "2.IH"(2) "2.prems"(2) by simp
    qed
  qed simp
  then show "mset (fcells (add_child q (TNode n out v lo []) ts)) = add_mset n (mset (fcells ts))"
    and "mset (fptrs (add_child q (TNode n out v lo []) ts)) = add_mset out (mset (fptrs ts))"
    and "mset (flists (add_child q (TNode n out v lo []) ts)) = add_mset lo (mset (flists ts))"
    and "mset (flat (add_child q (TNode n out v lo []) ts)) = add_mset (out, v) (mset (flat ts))"
    by blast+
qed

definition separate :: "tr list \<Rightarrow> bool" where
  "separate ts \<longleftrightarrow> distinct (fcells ts) \<and> distinct (fptrs ts) \<and> distinct (flists ts)"

lemma distinct_add_mset: "mset xs = add_mset a (mset ys) \<Longrightarrow> distinct ys \<Longrightarrow> a \<notin> set ys \<Longrightarrow> distinct xs"
  using mset_eq_imp_distinct_iff [of xs "a # ys"] by simp

lemma separate_add_child:
  assumes "q \<in> set (fptrs ts)" and "separate ts" and "n \<notin> set (fcells ts)" and "out \<notin> set (fptrs ts)"
    and "lo \<notin> set (flists ts)"
  shows "separate (add_child q (TNode n out v lo []) ts)"
  using assms add_child_mset [of q ts n out v lo] distinct_add_mset unfolding separate_def by metis

lemma trep_dom:
  assumes "trep s par ts"
  shows "set (fptrs ts) \<subseteq> dom (tnodes s)" and "set (flists ts) \<subseteq> dom (lists s)" and "set (finner ts) \<subseteq> dom (nodes s)"
proof -
  have k: "set (fcells ks) \<subseteq> addrs (kcells ks) \<union> set (finner ks)" for ks
    by (induction ks rule: flat.induct) auto
  have d: "addrs (kcells ks) \<subseteq> dom (nodes s)" if "list_rep s l (kcells ks)" for s :: "'a tree_heap" and l ks
    using that dll_dom by (auto simp: list_rep_def)
  show "set (fptrs ts) \<subseteq> dom (tnodes s)" using assms by (induction s par ts rule: trep.induct) auto
  show "set (flists ts) \<subseteq> dom (lists s)" using assms
    by (induction s par ts rule: trep.induct) (auto simp: list_rep_def)
  show "set (finner ts) \<subseteq> dom (nodes s)" using assms
  proof (induction s par ts rule: trep.induct)
    case (2 s par c p v l ks ts)
    then show ?case using k [of ks] d [of s l ks] by auto
  qed simp
qed

lemma more_tree:
  fixes s s' :: "'h tree_heap"
  assumes "list_heap.more s' = list_heap.more s"
  shows "tnodes s' = tnodes s" and "trees s' = trees s"
  using assms by (cases s; cases s'; simp)+

definition theap_ok :: "('h \<Rightarrow> addr \<rightharpoonup> nat) \<Rightarrow> ('h \<Rightarrow> bool) \<Rightarrow> 'h tree_heap \<Rightarrow> bool" where
  "theap_ok allocated valid s \<longleftrightarrow> lheap_ok allocated valid s \<and>
     dom (tnodes s) \<union> dom (trees s) \<subseteq> dom (allocated (lmem s))"

context allocator
begin

lemma tree_node_create_ok:
  assumes ok: "theap_ok allocated valid s" and rm: "2 * alloc_cost 12 \<le> room (lmem s)"
  shows "\<exists>p l s'. tree_node_create alloc v s = Some (p, s') \<and> theap_ok allocated valid s' \<and> p \<noteq> NULL \<and> l \<noteq> NULL \<and>
    tnodes s p = None \<and> tnodes s' = (tnodes s)(p \<mapsto> \<lparr>t_value = v, t_children = l, t_parent = NULL\<rparr>) \<and>
    lists s l = None \<and> list_rep s' l [] \<and> nodes s' = nodes s \<and> (\<forall>k. k \<noteq> l \<longrightarrow> lists s' k = lists s k) \<and>
    trees s' = trees s \<and> room (lmem s) \<le> room (lmem s') + 2 * alloc_cost 12"
proof -
  have v: "valid (lmem s)" using ok by (simp add: theap_ok_def lheap_ok_def)
  obtain p m k where p: "alloc sizeof_tree_node (lmem s) = Some (p, m)" "valid m" "p \<noteq> NULL"
    "allocated (lmem s) p = None" "allocated m = (allocated (lmem s))(p \<mapsto> k)"
    "room (lmem s) \<le> room m + alloc_cost 12"
    using alloc_ok [OF v, of sizeof_tree_node] rm by auto
  have none: "tnodes s p = None" using p(4) ok by (auto simp: theap_ok_def)
  let ?s = "s\<lparr>lmem := m\<rparr>"
  have ok1: "lheap_ok allocated valid ?s" using ok p by (auto simp: theap_ok_def lheap_ok_def)
  have "alloc_cost sizeof_list \<le> room (lmem ?s)" using rm p(6) by simp
  then obtain l s1 where l: "list_create alloc ?s = Some (l, s1)" "lheap_ok allocated valid s1" "l \<noteq> NULL"
    "lists s l = None" "list_rep s1 l []" "nodes s1 = nodes s" "\<forall>k. k \<noteq> l \<longrightarrow> lists s1 k = lists s k"
    "room m \<le> room (lmem s1) + alloc_cost 12" "dom (allocated m) \<subseteq> dom (allocated (lmem s1))"
    "list_heap.more s1 = list_heap.more ?s"
    using list_create_ok [OF ok1] by auto
  have t: "tnodes s1 = tnodes s" "trees s1 = trees s" using more_tree [OF l(10)] by simp_all
  let ?s' = "s1\<lparr>tnodes := (tnodes s1)(p \<mapsto> \<lparr>t_value = v, t_children = l, t_parent = NULL\<rparr>)\<rparr>"
  have "dom (tnodes s) \<union> dom (trees s) \<union> {p} \<subseteq> dom (allocated m)"
    using ok p(5) by (auto simp: theap_ok_def)
  then have "dom (tnodes ?s') \<union> dom (trees ?s') \<subseteq> dom (allocated (lmem ?s'))"
    using l(9) t by simp blast
  then have "theap_ok allocated valid ?s'"
    using l(2) by (simp add: theap_ok_def lheap_ok_def)
  moreover have "tree_node_create alloc v s = Some (p, ?s')" using p(1,3) l(1) by (simp add: tree_node_create_def)
  moreover have "list_rep ?s' l []" using l(5) by (simp add: list_rep_def)
  ultimately show ?thesis using p(3,6) l none t by (intro exI [of _ p] exI [of _ l] exI [of _ ?s']) simp
qed

lemma tree_node_insert_child_ok:
  assumes ok: "theap_ok allocated valid s" and rm: "3 * alloc_cost 12 \<le> room (lmem s)"
    and rep: "trep s par ts" and sep: "separate ts"
    and q: "q \<in> set (fptrs ts)" and tr: "trees s tree = Some h"
    and ts: "ts = [TNode NULL p w l ks]" and len: "length (flat ts) < 4294967295"
  shows "\<exists>n out lo s'. tree_node_insert_child alloc tree q v s = Some (out, s') \<and> theap_ok allocated valid s' \<and>
    trep s' par (add_child q (TNode n out v lo []) ts) \<and> separate (add_child q (TNode n out v lo []) ts) \<and>
    trees s' = (trees s)(tree \<mapsto> h\<lparr>tr_nodes := w32 (tr_nodes h + 1)\<rparr>)"
proof -
  obtain vq lq parq kq where lq: "tnodes s q = Some \<lparr>t_value = vq, t_children = lq, t_parent = parq\<rparr>"
    "list_rep s lq (kcells kq)" "addrs (kcells kq) \<subseteq> set (fcells ts)"
    using trep_ptr [OF rep q] by blast
  let ?xs = "kcells kq"
  obtain out lo s1 where c: "tree_node_create alloc v s = Some (out, s1)" "theap_ok allocated valid s1" "out \<noteq> NULL"
    "lo \<noteq> NULL" "tnodes s out = None" "tnodes s1 = (tnodes s)(out \<mapsto> \<lparr>t_value = v, t_children = lo, t_parent = NULL\<rparr>)"
    "lists s lo = None" "list_rep s1 lo []" "nodes s1 = nodes s" "\<forall>k. k \<noteq> lo \<longrightarrow> lists s1 k = lists s k"
    "trees s1 = trees s" "room (lmem s) \<le> room (lmem s1) + 2 * alloc_cost 12"
    using tree_node_create_ok [OF ok, of v] rm by auto
  have keep1: "list_rep s1 k ys" if "list_rep s k ys" for k ys
  proof (rule list_rep_frame [OF that])
    have "k \<noteq> lo" using that c(7) by (auto simp: list_rep_def)
    then show "lists s1 k = lists s k" using c(10) by simp
  qed (simp add: c(9))
  have qo: "q \<noteq> out" using lq(1) c(5) by auto
  have lqo: "lo \<noteq> lq" using lq(2) c(7) by (auto simp: list_rep_def)
  have ok1: "lheap_ok allocated valid s1" using c(2) by (simp add: theap_ok_def)
  have rm1: "alloc_cost sizeof_node \<le> room (lmem s1)" using rm c(12) by simp
  have "length ?xs + 1 < 4294967296"
  proof -
    have le: "length ?xs \<le> length (fcells ts)"
      using card_mono [OF _ lq(3)] sep lq(2) distinct_card [of "fcells ts"] distinct_card [of "map fst ?xs"]
      by (simp add: list_rep_def no_dup_def addrs_def separate_def)
    have "length (fcells us) = length (flat us)" for us by (induction us rule: flat.induct) auto
    from this [of ts] show ?thesis using len le by simp
  qed
  then obtain n s2 where i: "list_insert alloc lq out s1 = Some (n, s2)" "lheap_ok allocated valid s2"
    "nodes s1 n = None" "list_rep s2 lq (?xs @ [(n, out)])"
    "\<forall>k ys. k \<noteq> lq \<longrightarrow> addrs ys \<inter> addrs ?xs = {} \<longrightarrow> list_rep s1 k ys \<longrightarrow> list_rep s2 k ys"
    "dom (allocated (lmem s1)) \<subseteq> dom (allocated (lmem s2))" "list_heap.more s2 = list_heap.more s1"
    using list_insert_ok [OF ok1 rm1 keep1 [OF lq(2)], of out] by auto
  have t2: "tnodes s2 = tnodes s1" "trees s2 = trees s1" using more_tree [OF i(7)] by simp_all
  let ?s = "s2\<lparr>tnodes := (tnodes s2)(out \<mapsto> \<lparr>t_value = v, t_children = lo, t_parent = q\<rparr>),
    trees := (trees s)(tree \<mapsto> h\<lparr>tr_nodes := w32 (tr_nodes h + 1)\<rparr>)\<rparr>"
  have ins: "tree_node_insert_child alloc tree q v s = Some (out, ?s)"
    using c(1,6,11) lq(1) qo i(1) t2 tr
    by (simp add: tree_node_insert_child_def tree_node_insert_child_node_def wtnode_def wtree_def)
  have list_s: "list_rep ?s k ys = list_rep s2 k ys" for k ys by (simp add: list_rep_def)
  have insd: "inserted s ?s lq ?xs out"
    using keep1 i(5) c(6) t2 unfolding inserted_def list_s by auto
  have fr: "out \<notin> set (fptrs ts)" "lo \<notin> set (flists ts)" "n \<notin> set (finner ts)"
    using trep_dom [OF rep] c(5,7) i(3) unfolding c(9) by blast+
  have nn: "n \<noteq> NULL" using i(4) by (auto simp: list_rep_def dll_append)
  have "list_rep ?s lo []" using i(5) lqo c(8) unfolding list_s by simp
  then have "trep ?s par (add_child q (TNode n out v lo []) ts)"
    using trep_add_child [OF insd rep q lq(1,2), of n v lo] i(4) c(3,4) fr(1) sep
    unfolding list_s separate_def by simp
  moreover have "separate (add_child q (TNode n out v lo []) ts)"
    using separate_add_child [OF q sep, of n out lo v] fr nn ts by simp
  moreover have "theap_ok allocated valid ?s"
  proof -
    have "dom (tnodes ?s) \<union> dom (trees ?s) = dom (tnodes s1) \<union> dom (trees s1)"
      using t2 c(6,11) tr by auto
    then have "dom (tnodes ?s) \<union> dom (trees ?s) \<subseteq> dom (allocated (lmem ?s))"
      using c(2) i(6) unfolding theap_ok_def by simp blast
    then show ?thesis using i(2) by (simp add: theap_ok_def lheap_ok_def)
  qed
  ultimately show ?thesis using ins by auto
qed

end


lemma tree_find_first:
  assumes "trep s NULL [t]" and "trees s tree = Some h" and "tr_root h = ptr t"
  shows "tree_find cmp tree v s = Some (first_match (\<lambda>x. cmp x v) (flat [t]))"
proof -
  obtain c p w l ks where t: "t = TNode c p w l ks" by (cases t)
  have "find_in cmp s (first (kcells ks) NULL) v = Some (first_match (\<lambda>x. cmp x v) (flat ks))"
    using find_in_forest [of s NULL ks p] assms(1) t by (simp add: list_rep_def)
  then show ?thesis using assms t by (auto simp: tree_find_def tree_node_find_def list_rep_def)
qed

lemma tree_start_ok: "theap_ok live kheap_ok (list_heap.extend list_start \<lparr>tnodes = Map.empty, trees = Map.empty\<rparr>)"
  by (simp add: theap_ok_def lheap_ok_def list_start_def list_heap.defs)

text \<open>A tree of one node can be built on the fresh kernel heap, with room left for insertions.\<close>

lemma kernel_root_tree:
  "\<exists>s p l tree. theap_ok live kheap_ok s \<and> 3 * alloc_cost 12 \<le> kroom (lmem s) \<and> p \<noteq> NULL \<and>
     trep s NULL [TNode NULL p v l []] \<and> trees s tree = Some \<lparr>tr_nodes = 1, tr_root = p\<rparr>"
proof -
  let ?s = "list_heap.extend list_start \<lparr>tnodes = Map.empty, trees = Map.empty\<rparr>"
  have m: "kroom (lmem ?s) = 4294901759"
    by (simp add: list_heap.defs list_start_def icp_memory_start_def)
  have rm: "2 * alloc_cost 12 \<le> kroom (lmem ?s)" unfolding m by simp
  from icp.heap.tree_node_create_ok [OF tree_start_ok rm, of v]
  obtain p l s1 where c: "theap_ok live kheap_ok s1" "p \<noteq> NULL" "l \<noteq> NULL"
    "tnodes s1 = (tnodes ?s)(p \<mapsto> \<lparr>t_value = v, t_children = l, t_parent = NULL\<rparr>)" "list_rep s1 l []"
    "kroom (lmem ?s) \<le> kroom (lmem s1) + 2 * alloc_cost 12"
    by blast
  have rm1: "4 * alloc_cost 12 \<le> kroom (lmem s1)" using c(6) unfolding m by simp
  have "heap_ok mem_allocate_starting icp_ready (lmem s1)" using c(1) by (simp add: theap_ok_def lheap_ok_def)
  moreover have "alloc_cost sizeof_tree \<le> kroom (lmem s1)" using rm1 by simp
  ultimately obtain tree m k where t: "malloc icp_sbrk sizeof_tree (lmem s1) = Some (tree, m)"
    "heap_ok mem_allocate_starting icp_ready m" "live m = (live (lmem s1))(tree \<mapsto> k)"
    "kroom (lmem s1) \<le> kroom m + alloc_cost sizeof_tree"
    using icp.heap.alloc_ok by metis
  let ?s2 = "s1\<lparr>lmem := m, trees := [tree \<mapsto> \<lparr>tr_nodes = 1, tr_root = p\<rparr>]\<rparr>"
  have "theap_ok live kheap_ok ?s2" using c(1) t by (auto simp: theap_ok_def lheap_ok_def)
  moreover have "trep ?s2 NULL [TNode NULL p v l []]" using c by (simp add: list_rep_def)
  moreover have "3 * alloc_cost 12 \<le> kroom (lmem ?s2)" using rm1 t(4) by simp
  moreover have "trees ?s2 tree = Some \<lparr>tr_nodes = 1, tr_root = p\<rparr>" by simp
  ultimately show ?thesis using c(2) by blast
qed

section \<open>Properties\<close>

text \<open>
  Property C32. \<^verbatim>\<open>tree_find\<close> returns and gives the first node in preorder whose value the comparator
  accepts, or the null pointer when there is none.
\<close>

theorem tree_find_preorder:
  assumes "trep s NULL [t]" and "trees s tree = Some h" and "tr_root h = ptr t"
  shows "tree_find cmp tree v s = Some (first_match (\<lambda>x. cmp x v) (flat [t]))"
  using assms by (rule tree_find_first)

text \<open>A root with two children, the second with one of its own, for evaluation.\<close>

definition sample_tree :: "icp_memory heap tree_heap" where
  "sample_tree = list_heap.extend (list_start\<lparr>
     lists := [100 \<mapsto> \<lparr>l_head = 8, l_tail = 24, l_length = 2\<rparr>, 120 \<mapsto> \<lparr>l_head = 0, l_tail = 0, l_length = 0\<rparr>,
       140 \<mapsto> \<lparr>l_head = 40, l_tail = 40, l_length = 1\<rparr>, 160 \<mapsto> \<lparr>l_head = 0, l_tail = 0, l_length = 0\<rparr>],
     nodes := [8 \<mapsto> \<lparr>n_next = 24, n_prev = 0, n_value = 220\<rparr>, 24 \<mapsto> \<lparr>n_next = 0, n_prev = 8, n_value = 240\<rparr>,
       40 \<mapsto> \<lparr>n_next = 0, n_prev = 0, n_value = 260\<rparr>]\<rparr>)
     \<lparr>tnodes = [200 \<mapsto> \<lparr>t_value = 1, t_children = 100, t_parent = 0\<rparr>, 220 \<mapsto> \<lparr>t_value = 2, t_children = 120, t_parent = 200\<rparr>,
        240 \<mapsto> \<lparr>t_value = 3, t_children = 140, t_parent = 200\<rparr>, 260 \<mapsto> \<lparr>t_value = 4, t_children = 160, t_parent = 240\<rparr>],
      trees = [300 \<mapsto> \<lparr>tr_nodes = 4, tr_root = 200\<rparr>]\<rparr>"

definition sample_abs :: tr where
  "sample_abs = TNode 0 200 1 100 [TNode 8 220 2 120 [], TNode 24 240 3 140 [TNode 40 260 4 160 []]]"

lemma sample_tree_rep: "trep sample_tree NULL [sample_abs]"
  by (simp add: sample_tree_def sample_abs_def list_heap.defs list_rep_def final_def)

theorem tree_find_preorder_witness:
  "tree_find (\<lambda>x v. v \<le> x) 300 3 sample_tree = Some 240"
  using tree_find_preorder [OF sample_tree_rep, of 300 _ "\<lambda>x v. v \<le> x" 3]
  by (simp add: sample_tree_def sample_abs_def list_heap.defs)

text \<open>
  \<^verbatim>\<open>tree_count_children\<close> counts all descendants of a node, not only its children.
\<close>

theorem tree_count_descendants:
  assumes "trep s par [t]" and "length (flat [t]) < 4294967296"
  shows "tree_count_children (ptr t) s = Some (length (flat [t]) - 1)"
proof -
  obtain c p w l ks where t: "t = TNode c p w l ks" by (cases t)
  have "count_in s (first (kcells ks) NULL) = Some (length (flat ks) - length ks)" "length ks \<le> length (flat ks)"
    using count_in_forest [of s NULL ks p] assms t by (simp_all add: list_rep_def)
  then show ?thesis using assms t by (auto simp: tree_count_children_def list_rep_def w32_simps)
qed

theorem tree_count_descendants_witness: "tree_count_children 200 sample_tree = Some 3"
  using tree_count_descendants [OF sample_tree_rep] by (simp add: sample_abs_def)

text \<open>
  Property C19. \<^verbatim>\<open>tree_node_insert_child\<close> over the kernel heap adds a new leaf as the last child of
  the given node, keeps the rest of the tree, and counts it.
\<close>

theorem tree_insert_child_refines:
  assumes "theap_ok live kheap_ok s" and "3 * alloc_cost 12 \<le> kroom (lmem s)"
    and "trep s par [TNode NULL p w l ks]" and "separate [TNode NULL p w l ks]"
    and "q \<in> set (fptrs [TNode NULL p w l ks])" and "trees s tree = Some h"
    and "length (flat [TNode NULL p w l ks]) < 4294967295"
  shows "\<exists>n out lo s'. tree_node_insert_child (malloc icp_sbrk) tree q v s = Some (out, s') \<and>
    theap_ok live kheap_ok s' \<and> trep s' par (add_child q (TNode n out v lo []) [TNode NULL p w l ks]) \<and>
    separate (add_child q (TNode n out v lo []) [TNode NULL p w l ks]) \<and>
    trees s' = (trees s)(tree \<mapsto> h\<lparr>tr_nodes := w32 (tr_nodes h + 1)\<rparr>)"
  using icp.heap.tree_node_insert_child_ok [OF assms(1-6) refl assms(7), of v] .

theorem tree_insert_child_refines_witness:
  "\<exists>s p l tree n out lo s'. trep s NULL [TNode NULL p 1 l []] \<and>
     tree_node_insert_child (malloc icp_sbrk) tree p 2 s = Some (out, s') \<and>
     trep s' NULL [TNode NULL p 1 l [TNode n out 2 lo []]] \<and> trees s' tree = Some \<lparr>tr_nodes = 2, tr_root = p\<rparr>"
proof -
  obtain s :: "icp_memory heap tree_heap" and p l tree where s: "theap_ok live kheap_ok s"
    "3 * alloc_cost 12 \<le> kroom (lmem s)" "trep s NULL [TNode NULL p 1 l []]"
    "trees s tree = Some \<lparr>tr_nodes = 1, tr_root = p\<rparr>" using kernel_root_tree [of 1] by blast
  obtain n out lo s' where
    "tree_node_insert_child (malloc icp_sbrk) tree p 2 s = Some (out, s')"
    "trep s' NULL [TNode NULL p 1 l [TNode n out 2 lo []]]" "trees s' tree = Some \<lparr>tr_nodes = 2, tr_root = p\<rparr>"
    using tree_insert_child_refines [of s NULL p 1 l "[]" p tree "\<lparr>tr_nodes = 1, tr_root = p\<rparr>" 2] s
    by (auto simp: separate_def w32_simps)
  then show ?thesis using s(3) by blast
qed

text \<open>
  \<^verbatim>\<open>tree_node_remove\<close> of the root never returns to its caller: after releasing the whole
  tree it goes on to remove the freed node from its null parent.
\<close>

theorem tree_remove_root_faults:
  assumes "trees s tree = Some h" and "tnodes s (tr_root h) = Some n" and "t_parent n = NULL"
    and "tr_root h \<noteq> NULL"
  shows "tree_node_remove dealloc tree (tr_root h) s = None"
proof -
  have "tnodes s' (tr_root h) = None" if "tree_node_free dealloc (tr_root h) s1 = Some s'" for s1 s'
    using that assms(4) by (auto simp: tree_node_free_def split: Option.bind_splits)
  then have "tree_node_parent_remove dealloc tree NULL (tr_root h) s' = None"
    if "tree_node_free dealloc (tr_root h) s1 = Some s'" for s1 s'
    using that assms(4) by (simp add: tree_node_parent_remove_def tree_count_children_def)
  then show ?thesis
    using assms by (auto simp: tree_node_remove_def wtree_def split: Option.bind_splits)
qed

theorem tree_remove_root_faults_witness: "tree_node_remove (\<lambda>p m. Some m) 300 200 sample_tree = None"
  using tree_remove_root_faults [of sample_tree 300 "\<lparr>tr_nodes = 4, tr_root = 200\<rparr>"]
  by (simp add: sample_tree_def list_heap.defs)

end
