(* ===== verification/Device_Manager.thy ===== *)
theory Device_Manager
  imports Kernel_Tree Lock
begin

text \<open>
  The device tree and the life cycle of a device: \<^verbatim>\<open>src/kernel/device.c\<close> and \<^verbatim>\<open>driver.c\<close>. The tree is
  the one of \<open>Kernel_Tree\<close>; the values of its nodes are pointers to devices, which live in a store
  of their own, and names are C strings in byte memory compared with \<^verbatim>\<open>strcmp\<close>. The start and stop
  functions of a driver are arguments over a state \<open>'w\<close> of the machine; a driver call that does not
  return gives \<open>None\<close>. Log messages are left out.
\<close>

record device =
  d_name :: addr
  d_id :: u32
  d_type :: u32
  d_flags :: u32
  d_permissions :: u32
  d_interface :: u32
  d_status :: u32
  d_mutex :: addr
  d_driver :: addr

abbreviation (input) DEVICE_INTERFACE_KERNEL :: u32 where "DEVICE_INTERFACE_KERNEL \<equiv> 0"
abbreviation (input) DEVICE_TYPE_NAMESPACE :: u32 where "DEVICE_TYPE_NAMESPACE \<equiv> 0"
abbreviation (input) DEVICE_STATUS_UNSET :: u32 where "DEVICE_STATUS_UNSET \<equiv> 0"
abbreviation (input) DEVICE_STATUS_HALTED :: u32 where "DEVICE_STATUS_HALTED \<equiv> 1"
abbreviation (input) DEVICE_STATUS_ONLINE :: u32 where "DEVICE_STATUS_ONLINE \<equiv> 3"
abbreviation (input) DEVICE_STATUS_ABORTED :: u32 where "DEVICE_STATUS_ABORTED \<equiv> 5"
abbreviation (input) sizeof_device :: nat where "sizeof_device \<equiv> 36"

text \<open>\<open>dmem\<close> is the byte memory of the names; the last fields are the globals of \<^verbatim>\<open>device.c\<close>.\<close>

record 'h devs =
  dheap :: "'h tree_heap"
  devices :: "addr \<rightharpoonup> device"
  dmem :: mem
  device_tree :: addr
  dev_root :: addr
  kernel_ns :: addr
  inserted_statically :: bool

text \<open>The addresses the linker gives to the two name literals and to the devices of the x86 drivers.\<close>

record dev_image =
  root_name :: addr
  ns_name :: addr
  pit_device :: addr
  serial_device :: addr
  keyboard_device :: addr

section \<open>Searching and inserting\<close>

definition device_search_tree_comparator :: "addr \<Rightarrow> addr \<Rightarrow> bool" where
  "device_search_tree_comparator a b = (a = b)"

definition device_search_name_comparator :: "'h devs \<Rightarrow> addr \<Rightarrow> addr \<Rightarrow> bool" where
  "device_search_name_comparator s a b =
     (case devices s a of None \<Rightarrow> False | Some dnode \<Rightarrow> strcmp (dmem s) (d_name dnode) b = Some 0)"

definition device_search_tree_node :: "addr \<Rightarrow> 'h devs \<Rightarrow> addr option" where
  "device_search_tree_node device s = tree_find device_search_tree_comparator (device_tree s) device (dheap s)"

definition device_search_node :: "addr \<Rightarrow> 'h devs \<Rightarrow> addr option" where
  "device_search_node name s = tree_find (device_search_name_comparator s) (device_tree s) name (dheap s)"

definition device_search :: "addr \<Rightarrow> 'h devs \<Rightarrow> addr option" where
  "device_search name s = do {
     result \<leftarrow> device_search_node name s;
     n \<leftarrow> (if result = NULL then None else tnodes (dheap s) result);
     Some (t_value n)
   }"

definition device_manager_insert :: "'h alloc \<Rightarrow> addr \<Rightarrow> addr \<Rightarrow> 'h devs \<Rightarrow> 'h devs option" where
  "device_manager_insert alloc device parent s = do {
     p \<leftarrow> devices s parent;
     res \<leftarrow> device_search_node (d_name p) s;
     if res = NULL then Some s
     else do {
       (out, h) \<leftarrow> tree_node_insert_child alloc (device_tree s) res device (dheap s);
       Some (s\<lparr>dheap := h\<rparr>)
     }
   }"

definition device_manager_remove :: "'h dealloc \<Rightarrow> addr \<Rightarrow> 'h devs \<Rightarrow> 'h devs option" where
  "device_manager_remove dealloc device s = do {
     node \<leftarrow> device_search_tree_node device s;
     h \<leftarrow> (if node = NULL then None else tree_node_remove dealloc (device_tree s) node (dheap s));
     Some (s\<lparr>dheap := h\<rparr>)
   }"

text \<open>
  A device from \<^verbatim>\<open>malloc\<close> keeps what the block held (\<open>junk\<close>) in the fields the code does not set.
\<close>

definition new_device :: "'h alloc \<Rightarrow> device \<Rightarrow> 'h devs \<Rightarrow> (addr \<times> 'h devs) option" where
  "new_device alloc d s = do {
     (p, m) \<leftarrow> alloc sizeof_device (lmem (dheap s));
     if p = NULL then None
     else Some (p, s\<lparr>dheap := (dheap s)\<lparr>lmem := m\<rparr>, devices := (devices s)(p \<mapsto> d)\<rparr>)
   }"

definition device_manager_insert_kernel :: "'h alloc \<Rightarrow> dev_image \<Rightarrow> device \<Rightarrow> 'h devs \<Rightarrow> 'h devs option" where
  "device_manager_insert_kernel alloc img junk s =
     (if inserted_statically s then Some s
      else do {
        (ns, s1) \<leftarrow> new_device alloc (junk\<lparr>d_name := ns_name img, d_type := DEVICE_TYPE_NAMESPACE, d_flags := 0,
                       d_interface := DEVICE_INTERFACE_KERNEL\<rparr>) s;
        let s2 = s1\<lparr>kernel_ns := ns\<rparr>;
        r \<leftarrow> device_search (root_name img) s2;
        s3 \<leftarrow> device_manager_insert alloc ns r s2;
        k1 \<leftarrow> device_search (ns_name img) s3;
        s4 \<leftarrow> device_manager_insert alloc (pit_device img) k1 s3;
        k2 \<leftarrow> device_search (ns_name img) s4;
        s5 \<leftarrow> device_manager_insert alloc (serial_device img) k2 s4;
        k3 \<leftarrow> device_search (ns_name img) s5;
        s6 \<leftarrow> device_manager_insert alloc (keyboard_device img) k3 s5;
        Some (s6\<lparr>inserted_statically := True\<rparr>)
      })"

definition device_manager_start :: "'h alloc \<Rightarrow> dev_image \<Rightarrow> device \<Rightarrow> device \<Rightarrow> 'h devs \<Rightarrow> 'h devs option" where
  "device_manager_start alloc img junk junk' s = do {
     (tree, h) \<leftarrow> tree_create alloc (dheap s);
     (root, s1) \<leftarrow> new_device alloc (junk\<lparr>d_name := root_name img, d_type := 0, d_flags := 0, d_permissions := 0,
                     d_interface := DEVICE_INTERFACE_KERNEL\<rparr>) (s\<lparr>dheap := h, device_tree := tree\<rparr>);
     h2 \<leftarrow> tree_set_root alloc tree root (dheap s1);
     device_manager_insert_kernel alloc img junk' (s1\<lparr>dheap := h2, dev_root := root\<rparr>)
   }"

section \<open>Starting and stopping\<close>

type_synonym 'w driver_call = "addr \<Rightarrow> 'w \<Rightarrow> (u32 \<times> 'w) option"

text \<open>The driver's \<^verbatim>\<open>start\<close> may be absent here, in contrast to \<^verbatim>\<open>device_start\<close>, which calls it unseen.\<close>

definition driver_start :: "'w driver_call option \<Rightarrow> addr \<Rightarrow> 'w \<Rightarrow> (u32 \<times> 'w) option" where
  "driver_start start driver w =
     (case start of Some f \<Rightarrow> f driver w | None \<Rightarrow> Some (0xFFFFFFFF, w))"

definition set_status :: "addr \<Rightarrow> u32 \<Rightarrow> (addr \<rightharpoonup> device) \<Rightarrow> addr \<rightharpoonup> device" where
  "set_status dev st ds = (case ds dev of None \<Rightarrow> ds | Some d \<Rightarrow> ds(dev \<mapsto> d\<lparr>d_status := st\<rparr>))"

definition device_stop :: "'w driver_call \<Rightarrow> addr \<Rightarrow> (addr \<rightharpoonup> device) \<times> 'w \<Rightarrow> (u32 \<times> (addr \<rightharpoonup> device) \<times> 'w) option" where
  "device_stop stop dev s =
     (let (ds, w) = s in
      if dev = NULL then Some (0xFFFFFFFF, ds, w)
      else do {
        d \<leftarrow> ds dev;
        if d_status d \<noteq> DEVICE_STATUS_ONLINE then Some (d_status d, ds, w)
        else if d_driver d = NULL then Some (0xFFFFFFFE, ds, w)
        else do {
          mutex_lock (d_mutex d);
          (ret, w') \<leftarrow> stop (d_driver d) w;
          let st = (if ret = 0 then DEVICE_STATUS_HALTED else DEVICE_STATUS_ONLINE);
          mutex_unlock (d_mutex d);
          Some (st, set_status dev st ds, w')
        }
      })"

definition device_start :: "'w driver_call \<Rightarrow> addr \<Rightarrow> (addr \<rightharpoonup> device) \<times> 'w \<Rightarrow> (u32 \<times> (addr \<rightharpoonup> device) \<times> 'w) option" where
  "device_start start dev s =
     (let (ds, w) = s in
      if dev = NULL then Some (0xFFFFFFFF, ds, w)
      else do {
        d \<leftarrow> ds dev;
        if d_status d = DEVICE_STATUS_ONLINE then Some (DEVICE_STATUS_ONLINE, ds, w)
        else if d_driver d = NULL then Some (0xFFFFFFFE, ds, w)
        else do {
          (ret, w') \<leftarrow> start (d_driver d) w;
          let st = (if ret = 0 then DEVICE_STATUS_ONLINE else DEVICE_STATUS_ABORTED);
          Some (st, set_status dev st ds, w')
        }
      })"

section \<open>The life cycle\<close>

text \<open>
  An answer of a driver: the device it was asked for, whether to start or to stop it, and the value it returned. \<open>recorded\<close>
  adds to a driver's function the record of its answers.
\<close>

type_synonym answer = "addr \<times> bool \<times> u32"

definition recorded :: "bool \<Rightarrow> addr \<Rightarrow> 'w driver_call \<Rightarrow> (answer list \<times> 'w) driver_call" where
  "recorded up dev call drv s = do { (ret, w) \<leftarrow> call drv (snd s); Some (ret, fst s @ [(dev, up, ret)], w) }"

text \<open>Calls of \<^verbatim>\<open>device_start\<close> and \<^verbatim>\<open>device_stop\<close> on any devices, with any drivers behind them.\<close>

inductive lifecycle :: "(addr \<rightharpoonup> device) \<times> answer list \<times> 'w \<Rightarrow> (addr \<rightharpoonup> device) \<times> answer list \<times> 'w \<Rightarrow> bool" for s where
  initially: "lifecycle s s"
| starts: "lifecycle s s1 \<Longrightarrow> device_start (recorded True dev start) dev s1 = Some (r, s2) \<Longrightarrow> lifecycle s s2"
| stops: "lifecycle s s1 \<Longrightarrow> device_stop (recorded False dev stop) dev s1 = Some (r, s2) \<Longrightarrow> lifecycle s s2"

text \<open>
  The state machine of a device: a driver is only asked to start a device that is not online and to stop one that is, and
  its answer decides the next status. Any other question has no next status.
\<close>

definition status_step :: "answer \<Rightarrow> u32 \<Rightarrow> u32 option" where
  "status_step a st =
     (case a of (dev, up, ret) \<Rightarrow>
        if up then (if st = DEVICE_STATUS_ONLINE then None
                    else Some (if ret = 0 then DEVICE_STATUS_ONLINE else DEVICE_STATUS_ABORTED))
        else (if st \<noteq> DEVICE_STATUS_ONLINE then None
              else Some (if ret = 0 then DEVICE_STATUS_HALTED else DEVICE_STATUS_ONLINE)))"

lemma device_start_cases:
  assumes "device_start start dev (ds, w) = Some (r, ds', w')"
  obtains (none) "dev = NULL" "r = 0xFFFFFFFF" "ds' = ds" "w' = w"
  | (online) d where "dev \<noteq> NULL" "ds dev = Some d" "d_status d = DEVICE_STATUS_ONLINE" "r = DEVICE_STATUS_ONLINE" "ds' = ds" "w' = w"
  | (driverless) d where "dev \<noteq> NULL" "ds dev = Some d" "d_status d \<noteq> DEVICE_STATUS_ONLINE" "r = 0xFFFFFFFE" "ds' = ds" "w' = w"
  | (called) d ret where "dev \<noteq> NULL" "ds dev = Some d" "d_status d \<noteq> DEVICE_STATUS_ONLINE" "start (d_driver d) w = Some (ret, w')"
      "r = (if ret = 0 then DEVICE_STATUS_ONLINE else DEVICE_STATUS_ABORTED)" "ds' = ds(dev \<mapsto> d\<lparr>d_status := r\<rparr>)"
  using assms
  by (auto simp: device_start_def Let_def set_status_def split: if_splits Option.bind_splits option.splits)

lemma device_stop_cases:
  assumes "device_stop stop dev (ds, w) = Some (r, ds', w')"
  obtains (none) "dev = NULL" "r = 0xFFFFFFFF" "ds' = ds" "w' = w"
  | (offline) d where "dev \<noteq> NULL" "ds dev = Some d" "d_status d \<noteq> DEVICE_STATUS_ONLINE" "r = d_status d" "ds' = ds" "w' = w"
  | (driverless) d where "dev \<noteq> NULL" "ds dev = Some d" "d_status d = DEVICE_STATUS_ONLINE" "r = 0xFFFFFFFE" "ds' = ds" "w' = w"
  | (called) d ret where "dev \<noteq> NULL" "ds dev = Some d" "d_status d = DEVICE_STATUS_ONLINE" "d_mutex d = NULL"
      "stop (d_driver d) w = Some (ret, w')"
      "r = (if ret = 0 then DEVICE_STATUS_HALTED else DEVICE_STATUS_ONLINE)" "ds' = ds(dev \<mapsto> d\<lparr>d_status := r\<rparr>)"
  using assms
  by (auto dest!: mutex_lock_Some simp: device_stop_def Let_def set_status_def split: if_splits Option.bind_splits option.splits)

text \<open>One call: the answers it records are those of its device, and they move its status.\<close>

lemma device_start_step:
  assumes "device_start (recorded True dev start) dev (ds, log, w) = Some (r, ds', log', w')" and "ds p = Some d"
  shows "\<exists>as d'. log' = log @ as \<and> ds' p = Some d' \<and> d'\<lparr>d_status := d_status d\<rparr> = d \<and>
    foldM status_step (filter (\<lambda>a. fst a = p) as) (d_status d) = Some (d_status d')"
  using assms(1)
proof (cases rule: device_start_cases)
  case (called e ret)
  then have l: "log' = log @ [(dev, True, ret)]" by (auto simp: recorded_def split: Option.bind_splits)
  show ?thesis
  proof (cases "p = dev")
    case True
    with called l assms(2) show ?thesis by (intro exI [of _ "[(dev, True, ret)]"]) (auto simp: status_step_def)
  next
    case False
    with called l assms(2) show ?thesis by (intro exI [of _ "[(dev, True, ret)]"]) auto
  qed
qed (use assms(2) in \<open>auto intro: exI [of _ "[]"]\<close>)

lemma device_stop_step:
  assumes "device_stop (recorded False dev stop) dev (ds, log, w) = Some (r, ds', log', w')" and "ds p = Some d"
  shows "\<exists>as d'. log' = log @ as \<and> ds' p = Some d' \<and> d'\<lparr>d_status := d_status d\<rparr> = d \<and>
    foldM status_step (filter (\<lambda>a. fst a = p) as) (d_status d) = Some (d_status d')"
  using assms(1)
proof (cases rule: device_stop_cases)
  case (called e ret)
  then have l: "log' = log @ [(dev, False, ret)]" by (auto simp: recorded_def split: Option.bind_splits)
  show ?thesis
  proof (cases "p = dev")
    case True
    with called l assms(2) show ?thesis by (intro exI [of _ "[(dev, False, ret)]"]) (auto simp: status_step_def)
  next
    case False
    with called l assms(2) show ?thesis by (intro exI [of _ "[(dev, False, ret)]"]) auto
  qed
qed (use assms(2) in \<open>auto intro: exI [of _ "[]"]\<close>)

lemma same_but_status:
  "a\<lparr>d_status := d_status b\<rparr> = b \<Longrightarrow> b\<lparr>d_status := d_status c\<rparr> = c \<Longrightarrow> a\<lparr>d_status := d_status (c :: device)\<rparr> = c"
  by (cases a; cases b; cases c) simp

lemma lifecycle_refines:
  assumes "lifecycle s s'" and "fst s p = Some d" and "fst (snd s) = []"
  shows "\<exists>d'. fst s' p = Some d' \<and> d'\<lparr>d_status := d_status d\<rparr> = d \<and>
    foldM status_step (filter (\<lambda>a. fst a = p) (fst (snd s'))) (d_status d) = Some (d_status d')"
  using assms(1)
proof (induction rule: lifecycle.induct)
  case initially
  then show ?case using assms(2,3) by simp
next
  case (starts s1 dev start r s2)
  obtain ds1 l1 w1 ds2 l2 w2 where [simp]: "s1 = (ds1, l1, w1)" "s2 = (ds2, l2, w2)" by (cases s1; cases s2) auto
  from starts.IH obtain d1 where d1: "ds1 p = Some d1" "d1\<lparr>d_status := d_status d\<rparr> = d"
    "foldM status_step (filter (\<lambda>a. fst a = p) l1) (d_status d) = Some (d_status d1)" by auto
  from device_start_step [OF starts.hyps(2) [unfolded \<open>s1 = _\<close> \<open>s2 = _\<close>] d1(1)] d1(2,3)
  show ?case by (auto simp: foldM_append dest: same_but_status)
next
  case (stops s1 dev stop r s2)
  obtain ds1 l1 w1 ds2 l2 w2 where [simp]: "s1 = (ds1, l1, w1)" "s2 = (ds2, l2, w2)" by (cases s1; cases s2) auto
  from stops.IH obtain d1 where d1: "ds1 p = Some d1" "d1\<lparr>d_status := d_status d\<rparr> = d"
    "foldM status_step (filter (\<lambda>a. fst a = p) l1) (d_status d) = Some (d_status d1)" by auto
  from device_stop_step [OF stops.hyps(2) [unfolded \<open>s1 = _\<close> \<open>s2 = _\<close>] d1(1)] d1(2,3)
  show ?case by (auto simp: foldM_append dest: same_but_status)
qed

section \<open>Insertion as a refinement\<close>

text \<open>\<open>named s n v\<close>: the tree value \<open>v\<close> is a device whose name reads as the string \<open>n\<close>.\<close>

definition named :: "'h devs \<Rightarrow> u8 list \<Rightarrow> addr \<Rightarrow> bool" where
  "named s n v \<longleftrightarrow> (\<exists>d. devices s v = Some d \<and> cstr (dmem s) (d_name d) n)"

text \<open>The device tree \<open>t\<close> is represented in the heap, and every value in it is a named device.\<close>

definition dev_tree :: "'h devs \<Rightarrow> tr \<Rightarrow> bool" where
  "dev_tree s t \<longleftrightarrow> trep (dheap s) NULL [t] \<and> separate [t] \<and> cell t = NULL \<and>
     (\<exists>h. trees (dheap s) (device_tree s) = Some h \<and> tr_root h = ptr t) \<and>
     (\<forall>v \<in> snd ` set (flat [t]). \<exists>n. named s n v)"

lemma name_comparator_iff:
  assumes "named s n v" and "cstr (dmem s) p n'"
  shows "device_search_name_comparator s v p \<longleftrightarrow> n = n'"
  using assms strcmp_cstr strcmp_val_0 cstr_nonzero
  by (fastforce simp: named_def device_search_name_comparator_def)

lemma first_match_cong:
  "(\<And>v. v \<in> snd ` set xs \<Longrightarrow> P v = Q v) \<Longrightarrow> first_match P xs = first_match Q xs"
  by (induction xs) auto

lemma first_match_nonnull:
  "NULL \<notin> fst ` set xs \<Longrightarrow> first_match P xs \<noteq> NULL \<longleftrightarrow> (\<exists>(p, v) \<in> set xs. P v)"
  by (induction xs) auto

lemma first_match_in: "first_match P xs \<noteq> NULL \<Longrightarrow> \<exists>v. (first_match P xs, v) \<in> set xs \<and> P v"
  by (induction xs) (auto split: if_splits)

lemma fst_flat: "map fst (flat ts) = fptrs ts"
  by (induction ts rule: flat.induct) auto

text \<open>Search by name gives the first node, in preorder, whose device has the name.\<close>

lemma device_search_node_first:
  assumes "dev_tree s t" and "cstr (dmem s) p n"
  shows "device_search_node p s = Some (first_match (named s n) (flat [t]))"
proof -
  obtain h where h: "trep (dheap s) NULL [t]" "trees (dheap s) (device_tree s) = Some h" "tr_root h = ptr t"
    using assms(1) by (auto simp: dev_tree_def)
  have "device_search_name_comparator s v p = named s n v" if v: "v \<in> snd ` set (flat [t])" for v
  proof -
    obtain n' where "named s n' v" using assms(1) v unfolding dev_tree_def by blast
    moreover have "n' = n" if "named s n' v" "named s n v"
      using that name_comparator_iff [OF that(1) assms(2)] name_comparator_iff [OF that(2) assms(2)] by simp
    ultimately show ?thesis using name_comparator_iff [OF _ assms(2)] by blast
  qed
  then have "first_match (\<lambda>x. device_search_name_comparator s x p) (flat [t]) = first_match (named s n) (flat [t])"
    by (rule first_match_cong)
  then show ?thesis unfolding device_search_node_def tree_find_first [OF h] by simp
qed

lemma add_child_singleton: "\<exists>t'. add_child q new [t] = [t'] \<and> cell t' = cell t \<and> ptr t' = ptr t"
  by (cases t) auto

lemma device_search_found:
  assumes "dev_tree s t" and "cstr (dmem s) p n" and "\<exists>v \<in> snd ` set (flat [t]). named s n v"
  shows "\<exists>v. device_search p s = Some v \<and> named s n v"
proof -
  have rep: "trep (dheap s) NULL [t]" using assms(1) by (simp add: dev_tree_def)
  have nn: "first_match (named s n) (flat [t]) \<noteq> NULL"
  proof -
    have "\<exists>(q, v) \<in> set (flat [t]). named s n v" using assms(3) by (fastforce simp del: flat.simps)
    then show ?thesis using first_match_nonnull [OF flat_nonnull [OF rep]] by blast
  qed
  then obtain v where v: "(first_match (named s n) (flat [t]), v) \<in> set (flat [t])" "named s n v"
    using first_match_in by blast
  have val: "\<exists>l par. tnodes h q = Some \<lparr>t_value = w, t_children = l, t_parent = par\<rparr>"
    if "trep h par ts" "(q, w) \<in> set (flat ts)" for h :: "'h tree_heap" and q w ts par
    using that by (induction h par ts rule: trep.induct) auto
  obtain l par where "tnodes (dheap s) (first_match (named s n) (flat [t])) =
      Some \<lparr>t_value = v, t_children = l, t_parent = par\<rparr>"
    using val [OF rep v(1)] by blast
  then show ?thesis using nn v(2) device_search_node_first [OF assms(1,2)] by (simp add: device_search_def)
qed

lemma named_dheap [simp]: "named (s\<lparr>dheap := h\<rparr>) n v = named s n v"
  by (simp add: named_def)

section \<open>Properties\<close>

text \<open>
  Property C20. Inserting a device looks its parent up by name. When the tree has no device of that name nothing
  changes; otherwise the device becomes the last child of the first such node in preorder, the rest
  of the tree is kept, and a search for the device's own name succeeds.
\<close>

theorem device_manager_insert_refines:
  assumes "theap_ok live kheap_ok (dheap s)" and "3 * alloc_cost 12 \<le> kroom (lmem (dheap s))"
    and "dev_tree s t" and "length (flat [t]) < 4294967295"
    and "devices s device = Some d" and "cstr (dmem s) (d_name d) n"
    and "devices s parent = Some p" and "cstr (dmem s) (d_name p) np"
  shows "\<exists>s'. device_manager_insert (malloc icp_sbrk) device parent s = Some s' \<and>
    (if first_match (named s np) (flat [t]) = NULL then s' = s
     else \<exists>c out l t'. [t'] = add_child (first_match (named s np) (flat [t])) (TNode c out device l []) [t] \<and>
       dev_tree s' t' \<and> (\<exists>v. device_search (d_name d) s' = Some v \<and> named s' n v))"
proof -
  let ?q = "first_match (named s np) (flat [t])"
  obtain w l ks r h where t: "t = TNode NULL r w l ks" "trees (dheap s) (device_tree s) = Some h" "tr_root h = r"
    using assms(3) by (cases t) (auto simp: dev_tree_def)
  have q: "device_search_node (d_name p) s = Some ?q" by (rule device_search_node_first [OF assms(3,8)])
  show ?thesis
  proof (cases "?q = NULL")
    case True
    then show ?thesis using q assms(7) by (simp add: device_manager_insert_def)
  next
    case False
    then obtain v where "(?q, v) \<in> set (flat [t])" using first_match_in by blast
    then have qin: "?q \<in> set (fptrs [t])" using fst_flat [of "[t]"] by (metis fst_conv image_eqI list.set_map)
    have sep: "trep (dheap s) NULL [t]" "separate [t]" using assms(3) by (simp_all add: dev_tree_def)
    obtain c out lo h' where i: "tree_node_insert_child (malloc icp_sbrk) (device_tree s) ?q device (dheap s) = Some (out, h')"
      "trep h' NULL (add_child ?q (TNode c out device lo []) [t])" "separate (add_child ?q (TNode c out device lo []) [t])"
      "trees h' = (trees (dheap s))(device_tree s \<mapsto> h\<lparr>tr_nodes := w32 (tr_nodes h + 1)\<rparr>)"
      using icp.heap.tree_node_insert_child_ok [OF assms(1,2) sep qin t(2) _ assms(4)] t(1) by blast
    let ?s' = "s\<lparr>dheap := h'\<rparr>"
    obtain t' where t': "add_child ?q (TNode c out device lo []) [t] = [t']" "cell t' = cell t" "ptr t' = ptr t"
      using add_child_singleton by blast
    have "mset (flat [t']) = add_mset (out, device) (mset (flat [t]))"
      using add_child_mset(4) [OF qin, of c out device lo] sep(2) unfolding t'(1) separate_def by simp
    then have fl: "set (flat [t']) = insert (out, device) (set (flat [t]))"
      by (metis set_mset_add_mset_insert set_mset_mset)
    have "\<exists>n. named s n device" using assms(5,6) by (auto simp: named_def)
    then have dt: "dev_tree ?s' t'"
      using assms(3) i t' t fl unfolding dev_tree_def by (auto simp del: flat.simps)
    have "\<exists>v. device_search (d_name d) ?s' = Some v \<and> named ?s' n v"
      by (rule device_search_found [OF dt]) (use assms(5,6) fl in \<open>auto simp: named_def simp del: flat.simps\<close>)
    moreover have "device_manager_insert (malloc icp_sbrk) device parent s = Some ?s'"
      using q False i(1) assms(7) by (simp add: device_manager_insert_def)
    ultimately show ?thesis using False dt t'(1) [symmetric] by (metis (no_types, lifting) named_dheap)
  qed
qed

theorem device_manager_insert_refines_witness:
  "\<exists>(s :: icp_memory heap devs) s' v. device_manager_insert (malloc icp_sbrk) 16 8 s = Some s' \<and>
     device_search 4 s' = Some v \<and> named s' [107] v"
proof -
  obtain h :: "icp_memory heap tree_heap" and p l tree where h: "theap_ok live kheap_ok h"
    "3 * alloc_cost 12 \<le> kroom (lmem h)" "p \<noteq> NULL" "trep h NULL [TNode NULL p 8 l []]"
    "trees h tree = Some \<lparr>tr_nodes = 1, tr_root = p\<rparr>" using kernel_root_tree [of 8] by blast
  let ?d = "\<lambda>nm. \<lparr>d_name = nm, d_id = 0, d_type = 0, d_flags = 0, d_permissions = 0, d_interface = 0,
      d_status = 0, d_mutex = 0, d_driver = 0\<rparr>"
  let ?s = "\<lparr>dheap = h, devices = [8 \<mapsto> ?d 1, 16 \<mapsto> ?d 4], dmem = (\<lambda>a. 0)(1 := 114, 4 := 107),
      device_tree = tree, dev_root = 8, kernel_ns = 0, inserted_statically = False\<rparr>"
  have nm: "named ?s [114] 8" by (simp add: named_def)
  then have "dev_tree ?s (TNode NULL p 8 l [])" using h by (auto simp: dev_tree_def separate_def)
  from device_manager_insert_refines [OF _ _ this, of 16 "?d 4" "[107]" 8 "?d 1" "[114]"] h(1-3) nm
  obtain s' v where "device_manager_insert (malloc icp_sbrk) 16 8 ?s = Some s'"
    "device_search 4 s' = Some v" "named s' [107] v"
    by auto
  then show ?thesis by blast
qed

text \<open>
  Property C34. Starting and stopping devices refines a state machine: whatever calls are made, in whatever order and with
  whatever drivers, the driver of a device is only asked to start it when it is not online and to stop it when it is, the status of
  the device is the one its driver's answers lead to (online after a start that succeeds, aborted after one that fails, halted
  after a stop that succeeds, still online after one that fails), and no other field of a device ever changes.
\<close>

theorem device_lifecycle_status:
  assumes "lifecycle s s'" and "fst s p = Some d" and "fst (snd s) = []"
  shows "\<exists>d'. fst s' p = Some d' \<and> d'\<lparr>d_status := d_status d\<rparr> = d \<and>
    foldM status_step (filter (\<lambda>a. fst a = p) (fst (snd s'))) (d_status d) = Some (d_status d')"
  using assms by (rule lifecycle_refines)

text \<open>
  A device that has been started is online exactly when the call returned the online status, and
  starting it again then returns online without calling the driver; a failing driver leaves it
  aborted, from where it can be started again.
\<close>

theorem device_start_online:
  assumes "device_start start dev (ds, w) = Some (r, ds', w')" and "ds dev = Some d" and "dev \<noteq> NULL"
  shows "(r = DEVICE_STATUS_ONLINE \<longleftrightarrow> (\<exists>d'. ds' dev = Some d' \<and> d_status d' = DEVICE_STATUS_ONLINE)) \<and>
    (r = DEVICE_STATUS_ONLINE \<longrightarrow> device_start start' dev (ds', w') = Some (DEVICE_STATUS_ONLINE, ds', w')) \<and>
    (r \<in> {DEVICE_STATUS_ONLINE, DEVICE_STATUS_ABORTED, 0xFFFFFFFE})"
  using assms(1)
  by (cases rule: device_start_cases) (use assms(2,3) in \<open>auto simp: device_start_def\<close>)

theorem device_lifecycle_status_witness:
  "\<exists>s' d'. lifecycle ([8 \<mapsto> \<lparr>d_name = 1, d_id = 0, d_type = 2, d_flags = 0, d_permissions = 0, d_interface = 4,
      d_status = 0, d_mutex = 0, d_driver = 16\<rparr>], [], ()) s' \<and> fst (snd s') = [(8, True, 1), (8, True, 0), (8, False, 0)] \<and>
     fst s' 8 = Some d' \<and> d_status d' = DEVICE_STATUS_HALTED"
proof -
  let ?d = "\<lparr>d_name = 1, d_id = 0, d_type = 2, d_flags = 0, d_permissions = 0, d_interface = 4,
      d_status = 0, d_mutex = 0, d_driver = 16\<rparr>"
  let ?ds = "\<lambda>st. [8 \<mapsto> ?d\<lparr>d_status := st\<rparr>]" and ?l = "[(8, True, 1), (8, True, 0), (8, False, 0)] :: answer list"
  have eq: "([8 \<mapsto> ?d], [], ()) = (?ds 0, take 0 ?l, ())" by simp
  have 1: "device_start (recorded True 8 (\<lambda>_ w. Some (1, w))) 8 (?ds 0, take 0 ?l, ()) =
      Some (DEVICE_STATUS_ABORTED, ?ds DEVICE_STATUS_ABORTED, take 1 ?l, ())"
    by (simp add: device_start_def set_status_def recorded_def)
  have 2: "device_start (recorded True 8 (\<lambda>_ w. Some (0, w))) 8 (?ds DEVICE_STATUS_ABORTED, take 1 ?l, ()) =
      Some (DEVICE_STATUS_ONLINE, ?ds DEVICE_STATUS_ONLINE, take 2 ?l, ())"
    by (simp add: device_start_def set_status_def recorded_def)
  have 3: "device_stop (recorded False 8 (\<lambda>_ w. Some (0, w))) 8 (?ds DEVICE_STATUS_ONLINE, take 2 ?l, ()) =
      Some (DEVICE_STATUS_HALTED, ?ds DEVICE_STATUS_HALTED, ?l, ())"
    by (simp add: device_stop_def set_status_def recorded_def)
  have l: "lifecycle (?ds 0, take 0 ?l, ()) (?ds DEVICE_STATUS_HALTED, ?l, ())"
    by (rule lifecycle.stops [OF lifecycle.starts [OF lifecycle.starts [OF lifecycle.initially 1] 2] 3])
  from device_lifecycle_status [OF l, of 8 "?d\<lparr>d_status := 0\<rparr>"] l show ?thesis
    unfolding eq by (intro exI [of _ "(?ds DEVICE_STATUS_HALTED, ?l, ())"]) (simp add: status_step_def)
qed

theorem device_start_online_witness:
  "device_start (\<lambda>_ w. None) 8
     ([8 \<mapsto> \<lparr>d_name = 1, d_id = 0, d_type = 2, d_flags = 0, d_permissions = 0, d_interface = 4,
        d_status = DEVICE_STATUS_ONLINE, d_mutex = 0, d_driver = 16\<rparr>], ()) =
   Some (DEVICE_STATUS_ONLINE, [8 \<mapsto> \<lparr>d_name = 1, d_id = 0, d_type = 2, d_flags = 0, d_permissions = 0,
     d_interface = 4, d_status = DEVICE_STATUS_ONLINE, d_mutex = 0, d_driver = 16\<rparr>], ())"
  using device_start_online [of "\<lambda>_ w. Some (0, w)" 8
    "[8 \<mapsto> \<lparr>d_name = 1, d_id = 0, d_type = 2, d_flags = 0, d_permissions = 0, d_interface = 4,
        d_status = 0, d_mutex = 0, d_driver = 16\<rparr>]" "()" DEVICE_STATUS_ONLINE
    "[8 \<mapsto> \<lparr>d_name = 1, d_id = 0, d_type = 2, d_flags = 0, d_permissions = 0, d_interface = 4,
        d_status = DEVICE_STATUS_ONLINE, d_mutex = 0, d_driver = 16\<rparr>]" "()" _ "\<lambda>_ w. None"]
  by (simp add: device_start_def set_status_def)

end
