(* ===== verification/Keyboard.thy ===== *)
theory Keyboard
  imports Vfs_Path Device_Manager
begin

text \<open>
  The keyboard driver \<^verbatim>\<open>src/kernel/arch/x86/drivers/keyboard.c\<close> and the input buffer
  \<^verbatim>\<open>src/kernel/input.c\<close>: two byte queues of 255 entries that are read by shifting the whole array.
  The shift also reads the byte behind the array; \<open>beyond\<close> is that byte. A read of the translation
  table with a release code is out of its bounds as well; \<open>oob\<close> gives what it finds. Critical
  sections (\<^verbatim>\<open>cli\<close>, \<^verbatim>\<open>sti\<close>) are not visible here, where an
  interrupt comes between whole calls; \<open>Keyboard_Interrupts\<close> shows that this is no restriction.
\<close>

section \<open>Translation tables\<close>

abbreviation (input) KB_TRAP_CTL :: u8 where "KB_TRAP_CTL \<equiv> 1"
abbreviation (input) KB_TRAP_LSHIFT :: u8 where "KB_TRAP_LSHIFT \<equiv> 2"
abbreviation (input) KB_TRAP_RSHIFT :: u8 where "KB_TRAP_RSHIFT \<equiv> 3"
abbreviation (input) KB_TRAP_ALT :: u8 where "KB_TRAP_ALT \<equiv> 4"
abbreviation (input) KB_CAPS :: u8 where "KB_CAPS \<equiv> 5"
abbreviation (input) KB_F1 :: u8 where "KB_F1 \<equiv> 6"

definition kbdus :: "u8 list" where
  "kbdus =
     [0, 27] @ str ''1234567890-='' @ [8, 9] @
     str ''qwertyuiop[]'' @ [10, KB_TRAP_CTL] @
     str ''asdfghjkl;'' @ [39, 96, KB_TRAP_LSHIFT, 92] @ str ''zxcvbnm,./'' @ [KB_TRAP_RSHIFT, 42, KB_TRAP_ALT, 32] @
     [KB_CAPS, KB_F1] @ replicate 14 0 @ [45] @ replicate 3 0 @ [43] @ replicate 49 0"

definition kbdus_caps :: "u8 list" where
  "kbdus_caps =
     [0, 27] @ str ''!@#$%^&*()_+'' @ [8, 9] @
     str ''QWERTYUIOP{}'' @ [10, KB_TRAP_CTL] @
     str ''ASDFGHJKL:'' @ [34, 126, KB_TRAP_LSHIFT, 124] @ str ''ZXCVBNM<>?'' @ [KB_TRAP_RSHIFT, 42, KB_TRAP_ALT, 32] @
     [KB_CAPS, KB_F1] @ replicate 14 0 @ [45] @ replicate 3 0 @ [43] @ replicate 49 0"

lemma kbdus_length [simp]: "length kbdus = 128" "length kbdus_caps = 128"
  by (simp_all add: kbdus_def kbdus_caps_def str_def)

section \<open>The driver\<close>

record kb =
  buffer :: "u8 list"
  buffer_i :: nat
  kb_shift :: bool
  kb_caps :: bool
  kb_alt :: bool
  kb_ctl :: bool
  kb_extended :: bool
  kbio_mutex :: addr
  irq1_handler :: bool

text \<open>The end of \<^verbatim>\<open>kb_handler\<close>: a character is stored unless the buffer is full. The message about
  a full buffer, which a build with \<^verbatim>\<open>ENABLE_SERIAL\<close> writes to the serial line, is log output and not modelled.\<close>

definition kb_store :: "u8 \<Rightarrow> kb \<Rightarrow> kb" where
  "kb_store c s =
     (if buffer_i s = 0xFF then s
      else s\<lparr>buffer := (buffer s)[buffer_i s := c], buffer_i := buffer_i s + 1\<rparr>)"

definition kb_handler :: "(u8 \<Rightarrow> u8) \<Rightarrow> u8 \<Rightarrow> kb \<Rightarrow> kb" where
  "kb_handler oob scancode s =
     (if kb_extended s then s\<lparr>kb_extended := False\<rparr>
      else if scancode = 0xE0 then s\<lparr>kb_extended := True\<rparr>
      else if scancode = 0xAA then s\<lparr>kb_shift := False\<rparr>
      else if scancode = 0x2A then s\<lparr>kb_shift := True\<rparr>
      else if 0x80 \<le> scancode
      then (if oob scancode = KB_TRAP_CTL then s\<lparr>kb_ctl := True\<rparr>
            else if oob scancode = KB_TRAP_LSHIFT then s\<lparr>kb_shift := True\<rparr>
            else s)
      else kb_store ((if kb_shift s \<or> kb_caps s then kbdus_caps else kbdus) ! unat scancode) s)"

definition kb_start :: "kb \<Rightarrow> u32 \<times> kb" where
  "kb_start s = (0, s\<lparr>irq1_handler := True, buffer := replicate 0xFF 0\<rparr>)"

definition kb_stop :: "kb \<Rightarrow> u32 \<times> kb" where
  "kb_stop s = (0, s\<lparr>irq1_handler := False\<rparr>)"

text \<open>\<^verbatim>\<open>kb_init\<close> fills the static device and starts it; \<open>nm\<close>, \<open>drv\<close> and \<open>dev\<close> are the static addresses.\<close>

definition kb_init :: "addr \<Rightarrow> addr \<Rightarrow> addr \<Rightarrow> (addr \<rightharpoonup> device) \<times> kb \<Rightarrow> (u32 \<times> (addr \<rightharpoonup> device) \<times> kb) option" where
  "kb_init nm drv dev s = do {
     d \<leftarrow> fst s dev;
     device_start (\<lambda>_ w. Some (kb_start w)) dev
       ((fst s)(dev \<mapsto> d\<lparr>d_name := nm, d_type := 2, d_flags := 0, d_interface := 4, d_driver := drv\<rparr>), snd s)
   }"

text \<open>The loop that moves every entry one place down, the last one from behind the array.\<close>

definition shift_down :: "u8 \<Rightarrow> u8 list \<Rightarrow> u8 list" where
  "shift_down beyond buf =
     fold (\<lambda>i b. b[i := (if i + 1 < length b then b ! (i + 1) else beyond)]) [0..<0xFF] buf"

definition kb_read :: "u8 \<Rightarrow> kb \<Rightarrow> (u8 \<times> kb) option" where
  "kb_read beyond s =
     (if buffer s ! 0 = 0 then do { mutex_unlock (kbio_mutex s); Some (0, s) }
      else do {
        mutex_lock (kbio_mutex s);
        let to_send = buffer s ! 0;
        let s1 = s\<lparr>buffer := shift_down beyond ((buffer s)[0 := 0]), buffer_i := sub32 (buffer_i s) 1\<rparr>;
        mutex_unlock (kbio_mutex s1);
        Some (to_send, s1)
      })"

section \<open>The input buffer\<close>

record input_state =
  ibuffer :: "u8 list"
  ibuffer_i :: nat

text \<open>The full buffer is only reported; the store that follows is then out of bounds.\<close>

definition input_add_char :: "u8 \<Rightarrow> input_state \<Rightarrow> input_state option" where
  "input_add_char c s =
     (if c = 0 then Some s
      else if ibuffer_i s < length (ibuffer s)
      then Some (s\<lparr>ibuffer := (ibuffer s)[ibuffer_i s := c], ibuffer_i := ibuffer_i s + 1\<rparr>)
      else None)"

definition input_read :: "u8 \<Rightarrow> input_state \<Rightarrow> u8 \<times> input_state" where
  "input_read beyond s =
     (if ibuffer s ! 0 = 0 then (0, s)
      else (let to_send = ibuffer s ! 0
            in (to_send, s\<lparr>ibuffer := shift_down beyond ((ibuffer s)[0 := 0]), ibuffer_i := sub32 (ibuffer_i s) 1\<rparr>)))"

section \<open>The shift\<close>

lemma shift_down_eq:
  assumes "length buf = 0xFF"
  shows "shift_down beyond buf = tl buf @ [beyond]"
proof -
  let ?f = "\<lambda>i b. b[i := (if i + 1 < length b then b ! (i + 1) else beyond)]"
  let ?P = "\<lambda>n b. length b = 0xFF \<and> (\<forall>j < 0xFF. b ! j = (if j < n then (tl buf @ [beyond]) ! j else buf ! j))"
  have "?P 0xFF (fold ?f [0..<0xFF] buf)"
  proof (rule fold_upt_invariant [where P = ?P])
    show "?P 0 buf" using assms by simp
  next
    fix i b
    assume i: "i < 0xFF" and b: "?P i b"
    have "(if i + 1 < length b then b ! (i + 1) else beyond) = (tl buf @ [beyond]) ! i"
      using i b assms by (auto simp: nth_append nth_tl)
    then show "?P (Suc i) (?f i b)" using i b by (auto simp: nth_list_update less_Suc_eq)
  qed
  then show ?thesis unfolding shift_down_def using assms by (intro nth_equalityI) auto
qed

section \<open>Byte queues\<close>

text \<open>
  \<open>holds cs buf n\<close>: an array of 255 bytes holds the queue \<open>cs\<close> in its first \<open>n\<close> entries and zeros
  behind them.
\<close>

definition holds :: "u8 list \<Rightarrow> u8 list \<Rightarrow> nat \<Rightarrow> bool" where
  "holds cs buf n \<longleftrightarrow> n = length cs \<and> length cs \<le> 0xFF \<and> 0 \<notin> set cs \<and> buf = cs @ replicate (0xFF - length cs) 0"

lemma holds_head: "holds cs buf n \<Longrightarrow> buf ! 0 = (case cs of [] \<Rightarrow> 0 | c # _ \<Rightarrow> c)"
  by (auto simp: holds_def nth_append split: list.splits)

lemma holds_put:
  assumes "holds cs buf n" and "n < 0xFF" and "c \<noteq> 0"
  shows "holds (cs @ [c]) (buf[n := c]) (n + 1)"
proof -
  have "replicate (0xFF - length cs) 0 = 0 # replicate (0xFF - Suc (length cs)) (0 :: u8)"
    using assms by (simp add: holds_def Suc_diff_Suc flip: replicate_Suc)
  with assms show ?thesis by (auto simp: holds_def list_update_append)
qed

lemma holds_get:
  assumes "holds (c # cs) buf n"
  shows "holds cs (shift_down 0 (buf[0 := 0])) (sub32 n 1)"
proof -
  have l: "Suc (length cs) \<le> 0xFF" "n = Suc (length cs)" "buf = (c # cs) @ replicate (0xFF - Suc (length cs)) 0"
    using assms by (auto simp: holds_def)
  have "shift_down 0 (buf[0 := 0]) = tl (buf[0 := 0]) @ [0]" using l by (intro shift_down_eq) simp
  also have "\<dots> = cs @ replicate (0xFF - Suc (length cs)) 0 @ [0]" using l(3) by simp
  also have "replicate (0xFF - Suc (length cs)) 0 @ [0] = replicate (0xFF - length cs) (0 :: u8)"
    using l(1) by (simp add: Suc_diff_Suc replicate_append_same flip: replicate_Suc)
  finally show ?thesis using assms l by (auto simp: holds_def w32_simps)
qed

text \<open>Reading \<open>n\<close> times collects what was read.\<close>

primrec reads :: "('s \<Rightarrow> (u8 \<times> 's) option) \<Rightarrow> nat \<Rightarrow> 's \<Rightarrow> (u8 list \<times> 's) option" where
  "reads get 0 s = Some ([], s)"
| "reads get (Suc n) s = do { (c, s1) \<leftarrow> get s; (cs, s2) \<leftarrow> reads get n s1; Some (c # cs, s2) }"

text \<open>
  The contract of a queue of nonzero bytes with room for 255 of them: zero stands for the empty
  queue when reading.
\<close>

locale byte_queue =
  fixes content :: "'s \<Rightarrow> u8 list \<Rightarrow> bool" and put :: "u8 \<Rightarrow> 's \<Rightarrow> 's option" and get :: "'s \<Rightarrow> (u8 \<times> 's) option"
  assumes put_ok: "content s cs \<Longrightarrow> length cs < 0xFF \<Longrightarrow> c \<noteq> 0 \<Longrightarrow> \<exists>s'. put c s = Some s' \<and> content s' (cs @ [c])"
    and get_ok: "content s (c # cs) \<Longrightarrow> \<exists>s'. get s = Some (c, s') \<and> content s' cs"
    and get_empty: "content s [] \<Longrightarrow> get s = Some (0, s)"
begin

lemma puts_ok:
  assumes "content s cs" and "length cs + length ds \<le> 0xFF" and "0 \<notin> set ds"
  shows "\<exists>s'. foldM put ds s = Some s' \<and> content s' (cs @ ds)"
  using assms
proof (induction ds arbitrary: s cs)
  case (Cons d ds)
  then obtain s1 where "put d s = Some s1" "content s1 (cs @ [d])" using put_ok [of s cs d] by auto
  with Cons.IH [of s1 "cs @ [d]"] Cons.prems show ?case by auto
qed auto

lemma reads_ok: "content s cs \<Longrightarrow> \<exists>s'. reads get (length cs) s = Some (cs, s') \<and> content s' []"
proof (induction cs arbitrary: s)
  case (Cons c cs)
  then obtain s1 where "get s = Some (c, s1)" "content s1 cs" using get_ok by blast
  with Cons.IH show ?case by fastforce
qed auto

lemma fifo:
  assumes "content s []" and "length ds \<le> 0xFF" and "0 \<notin> set ds"
  shows "\<exists>s1 s2. foldM put ds s = Some s1 \<and> reads get (length ds) s1 = Some (ds, s2) \<and> get s2 = Some (0, s2)"
  using puts_ok [OF assms(1), of ds] assms(2,3) reads_ok get_empty by fastforce

end

interpretation keyboard: byte_queue "\<lambda>s cs. holds cs (buffer s) (buffer_i s) \<and> kbio_mutex s = NULL"
  "\<lambda>c s. Some (kb_store c s)" "kb_read 0"
proof
  fix s :: kb and cs and c :: u8
  assume "holds cs (buffer s) (buffer_i s) \<and> kbio_mutex s = NULL" "length cs < 0xFF" "c \<noteq> 0"
  then show "\<exists>s'. Some (kb_store c s) = Some s' \<and> holds (cs @ [c]) (buffer s') (buffer_i s') \<and> kbio_mutex s' = NULL"
    using holds_put [of cs "buffer s" "buffer_i s" c] by (auto simp: kb_store_def holds_def)
next
  fix s :: kb and c cs
  assume a: "holds (c # cs) (buffer s) (buffer_i s) \<and> kbio_mutex s = NULL"
  then have "buffer s ! 0 = c" "c \<noteq> 0" using holds_head [of "c # cs"] by (auto simp: holds_def)
  then show "\<exists>s'. kb_read 0 s = Some (c, s') \<and> holds cs (buffer s') (buffer_i s') \<and> kbio_mutex s' = NULL"
    using a holds_get by (auto simp: kb_read_def Let_def)
next
  fix s :: kb
  assume "holds [] (buffer s) (buffer_i s) \<and> kbio_mutex s = NULL"
  then show "kb_read 0 s = Some (0, s)" using holds_head [of "[]"] by (auto simp: kb_read_def)
qed

interpretation input: byte_queue "\<lambda>s cs. holds cs (ibuffer s) (ibuffer_i s)" input_add_char "\<lambda>s. Some (input_read 0 s)"
proof
  fix s :: input_state and cs and c :: u8
  assume a: "holds cs (ibuffer s) (ibuffer_i s)" "length cs < 0xFF" "c \<noteq> 0"
  then have "ibuffer_i s < length (ibuffer s)" by (simp add: holds_def)
  with a show "\<exists>s'. input_add_char c s = Some s' \<and> holds (cs @ [c]) (ibuffer s') (ibuffer_i s')"
    using holds_put [of cs "ibuffer s" "ibuffer_i s" c] by (auto simp: input_add_char_def holds_def)
next
  fix s :: input_state and c cs
  assume a: "holds (c # cs) (ibuffer s) (ibuffer_i s)"
  then have "ibuffer s ! 0 = c" "c \<noteq> 0" using holds_head [of "c # cs"] by (auto simp: holds_def)
  then show "\<exists>s'. Some (input_read 0 s) = Some (c, s') \<and> holds cs (ibuffer s') (ibuffer_i s')"
    using a holds_get by (auto simp: input_read_def Let_def)
next
  fix s :: input_state
  assume "holds [] (ibuffer s) (ibuffer_i s)"
  then show "Some (input_read 0 s) = Some (0, s)" using holds_head [of "[]"] by (auto simp: input_read_def)
qed

section \<open>Keys\<close>

text \<open>A plain key: a press of a key that has a character in the table in force.\<close>

definition layout :: "kb \<Rightarrow> u8 list" where
  "layout s = (if kb_shift s \<or> kb_caps s then kbdus_caps else kbdus)"

lemma kb_handler_key:
  assumes "\<not> kb_extended s" and "k < 0x80" and "k \<noteq> 0x2A"
  shows "kb_handler oob k s = kb_store (layout s ! unat k) s"
proof -
  have "k \<noteq> 0xE0" "k \<noteq> 0xAA" "\<not> 0x80 \<le> k" using assms(2) by auto
  with assms show ?thesis by (simp add: kb_handler_def layout_def)
qed

lemma kb_store_flags [simp]:
  "kb_extended (kb_store c s) = kb_extended s" "layout (kb_store c s) = layout s" "kbio_mutex (kb_store c s) = kbio_mutex s"
  by (simp_all add: kb_store_def layout_def)

lemma keys_stored:
  assumes "\<not> kb_extended s" and "\<forall>k \<in> set ks. k < 0x80 \<and> k \<noteq> 0x2A"
  shows "foldM (\<lambda>c s. Some (kb_store c s)) (map (\<lambda>k. layout s ! unat k) ks) s = Some (fold (kb_handler oob) ks s)"
  using assms
proof (induction ks arbitrary: s)
  case (Cons k ks)
  with Cons.IH [of "kb_store (layout s ! unat k) s"] show ?case by (simp add: kb_handler_key)
qed simp

definition head_zero :: "kb \<Rightarrow> bool" where
  "head_zero s \<longleftrightarrow> buffer s ! 0 = 0 \<and> 0 < buffer_i s"

lemma head_zero_handler:
  assumes "head_zero s"
  shows "head_zero (kb_handler oob k s)"
proof -
  have "head_zero (kb_store c s)" for c using assms by (auto simp: head_zero_def kb_store_def)
  moreover have "head_zero (s\<lparr>kb_extended := b\<rparr>)" "head_zero (s\<lparr>kb_shift := b\<rparr>)" "head_zero (s\<lparr>kb_ctl := b\<rparr>)" for b
    using assms by (auto simp: head_zero_def)
  ultimately show ?thesis using assms by (simp add: kb_handler_def)
qed

lemma head_zero_keys: "head_zero s \<Longrightarrow> head_zero (fold (kb_handler oob) ks s)"
  by (induction ks arbitrary: s) (simp_all add: head_zero_handler)

section \<open>Properties\<close>

text \<open>
  What is typed is what is read: up to 255 key presses on an empty buffer are read back by
  \<^verbatim>\<open>kb_read\<close> in order, translated by the layout in force, and the next read reports an empty buffer.
\<close>

theorem keyboard_reads_typed:
  assumes "holds [] (buffer s) (buffer_i s)" and "kbio_mutex s = NULL" and "\<not> kb_extended s"
    and "\<forall>k \<in> set ks. k < 0x80 \<and> k \<noteq> 0x2A \<and> layout s ! unat k \<noteq> 0" and "length ks \<le> 0xFF"
  shows "\<exists>s'. reads (kb_read 0) (length ks) (fold (kb_handler oob) ks s) = Some (map (\<lambda>k. layout s ! unat k) ks, s') \<and>
    kb_read 0 s' = Some (0, s')"
proof -
  let ?cs = "map (\<lambda>k. layout s ! unat k) ks"
  have "0 \<notin> set ?cs" using assms(4) by auto
  with keyboard.fifo [of s ?cs] assms(1,2,5) keys_stored [of s ks oob] assms(3,4) show ?thesis by auto
qed

theorem keyboard_reads_typed_witness:
  "\<exists>s'. reads (kb_read 0) 2 (fold (kb_handler (\<lambda>_. 0)) [0x23, 0x17] \<lparr>buffer = replicate 0xFF 0, buffer_i = 0,
     kb_shift = False, kb_caps = False, kb_alt = False, kb_ctl = False, kb_extended = False, kbio_mutex = 0,
     irq1_handler = True\<rparr>) = Some (str ''hi'', s')"
proof -
  let ?s = "\<lparr>buffer = replicate 0xFF 0, buffer_i = 0, kb_shift = False, kb_caps = False, kb_alt = False,
     kb_ctl = False, kb_extended = False, kbio_mutex = 0, irq1_handler = True\<rparr>"
  have l: "layout ?s = kbdus" by (simp add: layout_def)
  have k: "kbdus ! 35 = 104" "kbdus ! 23 = 105" by code_simp+
  have "\<exists>s'. reads (kb_read 0) (length [0x23, 0x17 :: u8]) (fold (kb_handler (\<lambda>_. 0)) [0x23, 0x17] ?s) =
      Some (map (\<lambda>k. layout ?s ! unat k) [0x23, 0x17 :: u8], s') \<and> kb_read 0 s' = Some (0, s')"
    using keyboard_reads_typed [of ?s "[0x23, 0x17]" "\<lambda>_. 0"] by (simp add: holds_def l k)
  moreover have "map (\<lambda>k. layout ?s ! unat k) [0x23, 0x17 :: u8] = str ''hi''" by (simp add: l k str_def)
  moreover have "length [0x23, 0x17 :: u8] = 2" by simp
  ultimately show ?thesis by metis
qed

text \<open>
  A key without a character blocks the keyboard for good: its zero becomes the head of the
  buffer, which reads as an empty buffer and is never removed, so no key pressed later is ever read.
\<close>

theorem keyboard_blocked_by_dead_key:
  assumes "holds [] (buffer s) (buffer_i s)" and "\<not> kb_extended s" and "k < 0x80" and "k \<noteq> 0x2A"
    and "layout s ! unat k = 0"
  shows "kb_read beyond (fold (kb_handler oob) (k # ks) s) = Some (0, fold (kb_handler oob) (k # ks) s)"
proof -
  have "head_zero (kb_handler oob k s)"
    using assms by (auto simp: kb_handler_key kb_store_def head_zero_def holds_def)
  then have "head_zero (fold (kb_handler oob) (k # ks) s)" using head_zero_keys by simp
  then show ?thesis by (simp add: kb_read_def head_zero_def)
qed

theorem keyboard_blocked_by_dead_key_witness:
  "\<exists>s. kb_read 0 (fold (kb_handler (\<lambda>_. 0)) [0x3C, 0x23, 0x17] s) =
     Some (0, fold (kb_handler (\<lambda>_. 0)) [0x3C, 0x23, 0x17] s)"
proof -
  let ?s = "\<lparr>buffer = replicate 0xFF 0, buffer_i = 0, kb_shift = False, kb_caps = False, kb_alt = False,
     kb_ctl = False, kb_extended = False, kbio_mutex = 0, irq1_handler = True\<rparr>"
  have l: "layout ?s = kbdus" by (simp add: layout_def)
  have k: "kbdus ! 60 = 0" by code_simp
  have "kb_read 0 (fold (kb_handler (\<lambda>_. 0)) [0x3C, 0x23, 0x17] ?s) =
      Some (0, fold (kb_handler (\<lambda>_. 0)) [0x3C, 0x23, 0x17] ?s)"
    by (rule keyboard_blocked_by_dead_key) (simp_all add: holds_def l k)
  then show ?thesis by blast
qed

end
