(* ===== verification/Interrupts.thy ===== *)
theory Interrupts
  imports Timing Keyboard
begin

text \<open>
  Interrupts of the x86 kernel: the descriptor tables (\<^verbatim>\<open>src/kernel/arch/x86/low/idt.c\<close>, \<^verbatim>\<open>gdt.c\<close>,
  \<^verbatim>\<open>isr.c\<close>), the dispatcher (\<^verbatim>\<open>irq.c\<close>) and the interval timer (\<^verbatim>\<open>drivers/pit.c\<close>), which joins the
  timers and the keyboard to the hardware. Writes to ports are recorded in order in \<open>m_out\<close>, except for
  the bytes that log messages inside the handlers send to the serial line in a build with \<^verbatim>\<open>ENABLE_SERIAL\<close>, and
  \<open>m_in60\<close> is what the keyboard port reads. The addresses of the assembly stubs are an argument. The
  loads of the tables (\<^verbatim>\<open>lgdt\<close>, \<^verbatim>\<open>lidt\<close>) are not modelled.
\<close>

unbundle bit_operations_syntax

text \<open>The handlers the kernel registers; \<^verbatim>\<open>paging_fault\<close> only logs.\<close>

datatype irq_fn = Timer_handler | Kb_handler | Paging_fault

record idt_entry =
  i_base_lo :: u16
  i_sel :: u16
  i_always0 :: u8
  i_flags :: u8
  i_base_hi :: u16

record gdt_entry =
  g_limit_low :: u16
  g_base_low :: u16
  g_base_middle :: u8
  g_access :: u8
  g_granularity :: u8
  g_base_high :: u8

record machine = ktime +
  m_kb :: kb
  m_out :: "(nat \<times> u8) list"
  m_in60 :: u8
  interrupt_handlers :: "nat \<Rightarrow> irq_fn option"
  idt :: "nat \<Rightarrow> idt_entry"
  gdt :: "nat \<Rightarrow> gdt_entry"
  timer_ticks :: u32

definition outb :: "nat \<Rightarrow> u8 \<Rightarrow> machine \<Rightarrow> machine" where
  "outb port v s = s\<lparr>m_out := m_out s @ [(port, v)]\<rparr>"

section \<open>Descriptor tables\<close>

definition idt_set_gate :: "nat \<Rightarrow> u32 \<Rightarrow> u16 \<Rightarrow> u8 \<Rightarrow> machine \<Rightarrow> machine" where
  "idt_set_gate num base sel flags s =
     s\<lparr>idt := (idt s)(num := \<lparr>i_base_lo = ucast (base AND 0xFFFF), i_sel = sel, i_always0 = 0, i_flags = flags,
       i_base_hi = ucast (drop_bit 16 base AND 0xFFFF)\<rparr>)\<rparr>"

definition idt_setup :: "machine \<Rightarrow> machine" where
  "idt_setup s = s\<lparr>idt := (\<lambda>_. \<lparr>i_base_lo = 0, i_sel = 0, i_always0 = 0, i_flags = 0, i_base_hi = 0\<rparr>)\<rparr>"

definition gdt_set_gate :: "nat \<Rightarrow> u32 \<Rightarrow> u32 \<Rightarrow> u8 \<Rightarrow> u8 \<Rightarrow> machine \<Rightarrow> machine" where
  "gdt_set_gate num base limit access gran s =
     s\<lparr>gdt := (gdt s)(num := \<lparr>g_limit_low = ucast (limit AND 0xFFFF), g_base_low = ucast (base AND 0xFFFF),
       g_base_middle = ucast (drop_bit 16 base AND 0xFF), g_access = access,
       g_granularity = ucast (drop_bit 16 limit AND 0x0F) OR (gran AND 0xF0),
       g_base_high = ucast (drop_bit 24 base AND 0xFF)\<rparr>)\<rparr>"

definition gdt_setup :: "machine \<Rightarrow> machine" where
  "gdt_setup s =
     gdt_set_gate 2 0 0xFFFFFFFF 0x92 0xCF (gdt_set_gate 1 0 0xFFFFFFFF 0x9A 0xCF (gdt_set_gate 0 0 0 0 0 s))"

definition isrs_setup :: "(nat \<Rightarrow> u32) \<Rightarrow> machine \<Rightarrow> machine" where
  "isrs_setup isr s = fold (\<lambda>n. idt_set_gate n (isr n) 0x08 0x8E) [0..<32] s"

section \<open>The dispatcher\<close>

definition register_interrupt_handler :: "nat \<Rightarrow> irq_fn \<Rightarrow> machine \<Rightarrow> machine" where
  "register_interrupt_handler n h s = s\<lparr>interrupt_handlers := (interrupt_handlers s)(n := Some h)\<rparr>"

definition deregister_interrupt_handler :: "nat \<Rightarrow> machine \<Rightarrow> machine" where
  "deregister_interrupt_handler n s = s\<lparr>interrupt_handlers := (interrupt_handlers s)(n := None)\<rparr>"

definition irq_remap :: "machine \<Rightarrow> machine" where
  "irq_remap s = fold (\<lambda>(p, v). outb p v)
     [(0x20, 0x11), (0xA0, 0x11), (0x21, 0x20), (0xA1, 0x28), (0x21, 0x04), (0xA1, 0x02), (0x21, 0x01), (0xA1, 0x01),
      (0x21, 0x0), (0xA1, 0x0)] s"

definition irq_install :: "(nat \<Rightarrow> u32) \<Rightarrow> machine \<Rightarrow> machine" where
  "irq_install irq s = fold (\<lambda>n. idt_set_gate (32 + n) (irq n) 0x08 0x8E) [0..<16] (irq_remap s)"

definition timer_handler :: "machine \<Rightarrow> machine option" where
  "timer_handler s = timer_recieveTick 0 (s\<lparr>timer_ticks := timer_ticks s + 1\<rparr>)"

definition kb_interrupt :: "(u8 \<Rightarrow> u8) \<Rightarrow> machine \<Rightarrow> machine" where
  "kb_interrupt oob s = s\<lparr>m_kb := kb_handler oob (m_in60 s) (m_kb s)\<rparr>"

definition call_irq :: "(u8 \<Rightarrow> u8) \<Rightarrow> irq_fn \<Rightarrow> machine \<Rightarrow> machine option" where
  "call_irq oob h s =
     (case h of Timer_handler \<Rightarrow> timer_handler s | Kb_handler \<Rightarrow> Some (kb_interrupt oob s) | Paging_fault \<Rightarrow> Some s)"

text \<open>The number of an interrupt indexes a table of 256 handlers.\<close>

definition irq_handler :: "(u8 \<Rightarrow> u8) \<Rightarrow> nat \<Rightarrow> machine \<Rightarrow> machine option" where
  "irq_handler oob int_no s =
     (if 256 \<le> int_no then None
      else do {
        s1 \<leftarrow> (case interrupt_handlers s int_no of None \<Rightarrow> Some s | Some h \<Rightarrow> call_irq oob h s);
        let s2 = (if 40 \<le> int_no then outb 0xA0 0x20 s1 else s1);
        Some (outb 0x20 0x20 s2)
      })"

text \<open>An exception halts the processor inside an interrupt gate: it does not return.\<close>

definition fault_handler :: "(u8 \<Rightarrow> u8) \<Rightarrow> nat \<Rightarrow> machine \<Rightarrow> machine option" where
  "fault_handler oob int_no s =
     (if int_no < 32
      then do { s1 \<leftarrow> (if int_no = 14 then irq_handler oob int_no s else Some s); None }
      else irq_handler oob int_no s)"

section \<open>The interval timer\<close>

definition pit_phase :: "nat \<Rightarrow> machine \<Rightarrow> machine" where
  "pit_phase hz s =
     (let divisor = 1193180 div hz
      in outb 0x40 (of_nat (divisor div 256)) (outb 0x40 (of_nat (divisor mod 256)) (outb 0x43 0x36 s)))"

definition pit_start :: "machine \<Rightarrow> u32 \<times> machine" where
  "pit_start s = (0, pit_phase 1000 (register_interrupt_handler 32 Timer_handler s))"

definition pit_stop :: "machine \<Rightarrow> u32 \<times> machine" where
  "pit_stop s = (0xFFFFFFFF, s)"

definition pit_init :: "addr \<Rightarrow> addr \<Rightarrow> addr \<Rightarrow> (addr \<rightharpoonup> device) \<times> machine \<Rightarrow> (u32 \<times> (addr \<rightharpoonup> device) \<times> machine) option" where
  "pit_init nm drv dev s = do {
     d \<leftarrow> fst s dev;
     device_start (\<lambda>_ w. Some (pit_start w)) dev
       ((fst s)(dev \<mapsto> d\<lparr>d_name := nm, d_type := 2, d_flags := 0, d_interface := 4, d_driver := drv\<rparr>), snd s)
   }"

section \<open>What the processor reads\<close>

definition gate_base :: "idt_entry \<Rightarrow> u32" where
  "gate_base e = ucast (i_base_lo e) OR push_bit 16 (ucast (i_base_hi e))"

definition segment_base :: "gdt_entry \<Rightarrow> u32" where
  "segment_base e = ucast (g_base_low e) OR push_bit 16 (ucast (g_base_middle e)) OR push_bit 24 (ucast (g_base_high e))"

definition segment_limit :: "gdt_entry \<Rightarrow> u32" where
  "segment_limit e = ucast (g_limit_low e) OR push_bit 16 (ucast (g_granularity e AND 0x0F))"

lemma masks: "(0xFFFF :: u32) = mask 16" "(0xFF :: u32) = mask 8" "(0xF :: u32) = mask 4" "(0xF :: u8) = mask 4"
  by (simp_all add: mask_eq_exp_minus_1)

lemma gate_base_set: "gate_base (idt (idt_set_gate n base sel flags s) n) = base"
  unfolding gate_base_def idt_set_gate_def masks
  by (rule bit_eqI) (auto simp: bit_simps)

text \<open>The three fields of a descriptor hold its base between them.\<close>

lemma bytes_join:
  fixes b :: "u32"
  shows "ucast (ucast (b AND 0xFFFF) :: u16) OR push_bit 16 (ucast (ucast (drop_bit 16 b AND 0xFF) :: u8)) OR
     push_bit 24 (ucast (ucast (drop_bit 24 b AND 0xFF) :: u8)) = b" (is "?l = b")
proof (rule bit_word_eqI)
  have m: "(0xFFFF :: u32) = mask 16" "(0xFF :: u32) = mask 8"  by (simp_all add: mask_eq_exp_minus_1)
  fix k assume k: "k < LENGTH(32)"
  consider "k < 16" | "16 \<le> k" "k < 24" | "24 \<le> k" by linarith
  then show "bit ?l k = bit b k"
  proof cases
    case 1 then show ?thesis by (simp add: m bit_or_iff bit_push_bit_iff bit_ucast_iff bit_and_iff bit_mask_iff)
  next
    case 2
    then have "k - 16 < 8" "16 + (k - 16) = k" by linarith+
    with 2 show ?thesis by (simp add: m bit_or_iff bit_push_bit_iff bit_ucast_iff bit_and_iff bit_mask_iff bit_drop_bit_eq)
  next
    case 3
    then have "k - 24 < 8" "24 + (k - 24) = k" "\<not> k - 16 < 8" "\<not> k < 16" using k by auto
    with 3 k show ?thesis by (auto simp: m bit_or_iff bit_push_bit_iff bit_ucast_iff bit_and_iff bit_mask_iff bit_drop_bit_eq)
  qed
qed

lemma segment_base_set: "segment_base (gdt (gdt_set_gate n base limit access gran s) n) = base"
  using bytes_join [of base] by (simp add: segment_base_def gdt_set_gate_def ac_simps)

lemma gdt_setup_flat:
  assumes "n \<in> {1, 2}"
  shows "segment_base (gdt (gdt_setup s) n) = 0 \<and> segment_limit (gdt (gdt_setup s) n) = 0xFFFFF"
proof
  show "segment_base (gdt (gdt_setup s) n) = 0"
    using assms by (auto simp: segment_base_def gdt_setup_def gdt_set_gate_def)
  have "segment_limit (gdt (gdt_set_gate n 0 0xFFFFFFFF access 0xCF s) n) = 0xFFFFF" for n access s
    by (simp add: segment_limit_def gdt_set_gate_def)
  then show "segment_limit (gdt (gdt_setup s) n) = 0xFFFFF"
    using assms by (auto simp: gdt_setup_def gdt_set_gate_def segment_limit_def)
qed

lemma idt_set_gate_other [simp]: "n \<noteq> m \<Longrightarrow> idt (idt_set_gate m base sel flags s) n = idt s n"
  by (simp add: idt_set_gate_def)

lemma idt_set_gate_attr [simp]: "i_sel (idt (idt_set_gate n base sel flags s) n) = sel"
  "i_flags (idt (idt_set_gate n base sel flags s) n) = flags"
  by (simp_all add: idt_set_gate_def)

text \<open>A loop that sets gates leaves each of them as it was set.\<close>

lemma fold_gates:
  "idt (fold (\<lambda>n. idt_set_gate (b + n) (f n) sel flags) [0..<k] s) m =
     (if b \<le> m \<and> m < b + k then idt (idt_set_gate m (f (m - b)) sel flags s) m else idt s m)"
proof (induction k)
  case (Suc k)
  have e: "idt (idt_set_gate m base sel flags t) m = idt (idt_set_gate m base sel flags s) m" for t base
    by (simp add: idt_set_gate_def)
  show ?case
  proof (cases "m = b + k")
    case True
    then show ?thesis using e by simp
  next
    case False
    then show ?thesis using Suc by auto
  qed
qed auto

lemma outb_fields [simp]: "idt (outb p v s) = idt s" "m_out (outb p v s) = m_out s @ [(p, v)]"
  by (simp_all add: outb_def)

lemma irq_remap_idt [simp]: "idt (irq_remap s) = idt s"
  by (simp add: irq_remap_def)

section \<open>The timer and the keyboard together\<close>

datatype hw_event = Clock | Key u8

text \<open>An interrupt of the timer, or one of the keyboard with a code at its port.\<close>

definition hw_step :: "(u8 \<Rightarrow> u8) \<Rightarrow> hw_event \<Rightarrow> machine \<Rightarrow> machine option" where
  "hw_step oob e s =
     (case e of Clock \<Rightarrow> irq_handler oob 32 s | Key c \<Rightarrow> irq_handler oob 33 (s\<lparr>m_in60 := c\<rparr>))"

definition key_codes :: "hw_event list \<Rightarrow> u8 list" where
  "key_codes es = concat (map (\<lambda>e. case e of Clock \<Rightarrow> [] | Key c \<Rightarrow> [c]) es)"

definition wired :: "machine \<Rightarrow> bool" where
  "wired s \<longleftrightarrow> interrupt_handlers s 32 = Some Timer_handler \<and> interrupt_handlers s 33 = Some Kb_handler \<and>
     timer_device s = 0"

lemma more_fields:
  "ktime.more s' = ktime.more s \<Longrightarrow> m_kb s' = m_kb s \<and> m_out s' = m_out s \<and> m_in60 s' = m_in60 s \<and>
     interrupt_handlers s' = interrupt_handlers s"
  by (cases s; cases s') simp

lemma clock_step:
  assumes "wired s" and "hw_step oob Clock s = Some s'"
  shows "wired s' \<and> timer_hi s' = timer_hi s + 1 \<and> m_kb s' = m_kb s \<and> m_out s' = m_out s @ [(0x20, 0x20)]"
proof -
  let ?s = "s\<lparr>timer_ticks := timer_ticks s + 1\<rparr>"
  obtain u where u: "timer_recieveTick (timer_device ?s) ?s = Some u" "s' = outb 0x20 0x20 u"
    using assms by (auto simp: hw_step_def irq_handler_def wired_def call_irq_def timer_handler_def Let_def
        split: Option.bind_splits)
  show ?thesis
    using timer_recieveTick_clock [OF u(1)] more_fields [OF timer_recieveTick_more [OF u(1)]] assms(1) u(2)
    by (simp add: wired_def outb_def)
qed

lemma key_step:
  assumes "wired s" and "hw_step oob (Key c) s = Some s'"
  shows "wired s' \<and> timer_hi s' = timer_hi s \<and> m_kb s' = kb_handler oob c (m_kb s) \<and> m_out s' = m_out s @ [(0x20, 0x20)]"
  using assms by (auto simp: hw_step_def irq_handler_def wired_def call_irq_def kb_interrupt_def outb_def)

section \<open>Properties\<close>

text \<open>
  Timer and keyboard interrupts do not disturb each other: after any interleaving of them that
  returns, the clock has advanced by the number of timer interrupts, the keyboard has received the
  codes in order, and every interrupt has been acknowledged once to the controller.
\<close>

theorem interrupts_independent:
  assumes "foldM (hw_step oob) es s = Some s'" and "wired s"
  shows "timer_hi s' = timer_hi s + of_nat (count_list es Clock) \<and>
    m_kb s' = fold (kb_handler oob) (key_codes es) (m_kb s) \<and>
    m_out s' = m_out s @ replicate (length es) (0x20, 0x20) \<and> wired s'"
  using assms
proof (induction es arbitrary: s)
  case Nil
  then show ?case by (simp add: key_codes_def)
next
  case (Cons e es)
  then obtain u where u: "hw_step oob e s = Some u" "foldM (hw_step oob) es u = Some s'"
    by (auto split: Option.bind_splits)
  show ?case
  proof (cases e)
    case Clock
    with Cons.IH [OF u(2)] clock_step [OF Cons.prems(2)] u(1) show ?thesis by (simp add: key_codes_def)
  next
    case (Key c)
    with Cons.IH [OF u(2)] key_step [OF Cons.prems(2)] u(1) show ?thesis by (simp add: key_codes_def)
  qed
qed

text \<open>The machine at power on, with the timer and the keyboard started.\<close>

definition machine0 :: machine where
  "machine0 = register_interrupt_handler 33 Kb_handler (snd (pit_start (ktime.extend ktime0
     \<lparr>m_kb = \<lparr>buffer = replicate 255 0, buffer_i = 0, kb_shift = False, kb_caps = False, kb_alt = False, kb_ctl = False,
        kb_extended = False, kbio_mutex = 0, irq1_handler = True\<rparr>,
       m_out = [], m_in60 = 0, interrupt_handlers = (\<lambda>_. None),
       idt = (\<lambda>_. \<lparr>i_base_lo = 0, i_sel = 0, i_always0 = 0, i_flags = 0, i_base_hi = 0\<rparr>),
       gdt = (\<lambda>_. \<lparr>g_limit_low = 0, g_base_low = 0, g_base_middle = 0, g_access = 0, g_granularity = 0, g_base_high = 0\<rparr>),
       timer_ticks = 0\<rparr>)))"

lemma machine0_fields: "timer_hi machine0 = 0" "timer_device machine0 = 0" "wd_kmain_hangups machine0 = 0"
  "wd_total_hangups machine0 = 0" "interrupt_handlers machine0 32 = Some Timer_handler"
  "interrupt_handlers machine0 33 = Some Kb_handler"
  by (simp_all add: machine0_def register_interrupt_handler_def pit_start_def pit_phase_def outb_def ktime.defs ktime0_def Let_def)

lemma boot_wired: "wired (wd_init (timing_init machine0))" "booted 0 0 0 (wd_init (timing_init machine0))"
  using machine0_fields booted_boot [of machine0]
  by (auto simp: wired_def wd_init_def timing_init_def timing_register_timer_def Let_def)

lemma clock_returns:
  assumes "booted 0 n 0 s" and "wired s" and "n + 200 < 2147483648"
  obtains s' where "hw_step oob Clock s = Some s'"
proof -
  let ?s = "s\<lparr>timer_ticks := timer_ticks s + 1\<rparr>"
  have "booted 0 n 0 ?s" using assms(1) by (simp add: booted_def)
  from booted_tick [OF this assms(3)] obtain u where u: "timer_recieveTick 0 ?s = Some u" by (auto split: if_splits)
  show ?thesis
    by (rule that [of "outb 0x20 0x20 u"])
      (use u assms(2) in \<open>simp add: hw_step_def irq_handler_def wired_def call_irq_def timer_handler_def\<close>)
qed

lemma key_returns: "wired s \<Longrightarrow> \<exists>s'. hw_step oob (Key c) s = Some s'"
  by (simp add: hw_step_def irq_handler_def wired_def call_irq_def)

theorem interrupts_independent_witness:
  "\<exists>s'. foldM (hw_step (\<lambda>_. 0)) [Clock, Key 0x1E] (wd_init (timing_init machine0)) = Some s' \<and>
     timer_hi s' = timer_hi (wd_init (timing_init machine0)) + 1 \<and>
     m_kb s' = kb_handler (\<lambda>_. 0) 0x1E (m_kb (wd_init (timing_init machine0)))"
proof -
  let ?s = "wd_init (timing_init machine0)"
  obtain u where u: "hw_step (\<lambda>_. 0) Clock ?s = Some u" using clock_returns [OF boot_wired(2,1)] by auto
  obtain v where v: "hw_step (\<lambda>_. 0) (Key 0x1E) u = Some v" using key_returns clock_step [OF boot_wired(1) u] by blast
  have "foldM (hw_step (\<lambda>_. 0)) [Clock, Key 0x1E] ?s = Some v" using u v by simp
  from interrupts_independent [OF this boot_wired(1)] this show ?thesis by (simp add: key_codes_def)
qed

lemma gates_installed:
  assumes "n < 48"
  shows "gate_base (idt (irq_install irq (isrs_setup isr (idt_setup s))) n) = (if n < 32 then isr n else irq (n - 32)) \<and>
    i_sel (idt (irq_install irq (isrs_setup isr (idt_setup s))) n) = 0x08 \<and>
    i_flags (idt (irq_install irq (isrs_setup isr (idt_setup s))) n) = 0x8E"
proof -
  have a: "idt (isrs_setup isr (idt_setup s)) n = (if n < 32 then idt (idt_set_gate n (isr n) 0x08 0x8E s) n
      else idt (idt_setup s) n)"
    using fold_gates [of 0 isr 8 142 32 "idt_setup s" n] by (simp add: isrs_setup_def idt_set_gate_def)
  have b: "idt (irq_install irq t) n = (if 32 \<le> n then idt (idt_set_gate n (irq (n - 32)) 0x08 0x8E s) n else idt t n)" for t
    using fold_gates [of 32 irq 8 142 16 "irq_remap t" n] assms by (simp add: irq_install_def idt_set_gate_def)
  show ?thesis unfolding b a by (auto simp: gate_base_set)
qed

text \<open>
  After setup each of the 48 vectors in use has an interrupt gate into the kernel's code segment
  whose two halves make up the address of its own stub.
\<close>

theorem interrupt_gates_installed:
  assumes "n < 48"
  shows "gate_base (idt (irq_install irq (isrs_setup isr (idt_setup s))) n) = (if n < 32 then isr n else irq (n - 32)) \<and>
    i_sel (idt (irq_install irq (isrs_setup isr (idt_setup s))) n) = 0x08 \<and>
    i_flags (idt (irq_install irq (isrs_setup isr (idt_setup s))) n) = 0x8E"
  by (rule gates_installed [OF assms])

theorem interrupt_gates_installed_witness:
  "gate_base (idt (irq_install (\<lambda>n. 0x2000 + of_nat n) (isrs_setup (\<lambda>n. 0x1000) (idt_setup machine0))) 33) = 0x2001"
  using interrupt_gates_installed [of 33 "\<lambda>n. 0x2000 + of_nat n" "\<lambda>n. 0x1000" machine0] by simp

end
