(* ===== verification/Boot.thy ===== *)
theory Boot
  imports Interrupts
begin

text \<open>
  The start of the PC (\<^verbatim>\<open>src/kernel/arch/x86/x86-early.c\<close>, \<^verbatim>\<open>src/kernel/init/kmain.c\<close>) as far as it concerns
  interrupts, and the running system: the main loop notifies the watchdog while the timer and the keyboard
  interrupt it. The console, the page tables and the file system that the same functions set up have
  theories of their own, \<open>Pc_Start\<close> joins them. A history begins when \<^verbatim>\<open>kmain\<close> has entered its loop; ticks
  that arrive while the timers are still being set up are not covered.
\<close>

section \<open>The start\<close>

text \<open>The keyboard's start function on the machine: its buffer is cleared and its handler registered.\<close>

definition kb_start_machine :: "machine \<Rightarrow> u32 \<times> machine" where
  "kb_start_machine s =
     (let (r, k) = kb_start (m_kb s) in (r, register_interrupt_handler 33 Kb_handler (s\<lparr>m_kb := k\<rparr>)))"

definition kb_init_machine :: "addr \<Rightarrow> addr \<Rightarrow> addr \<Rightarrow> (addr \<rightharpoonup> device) \<times> machine \<Rightarrow>
    (u32 \<times> (addr \<rightharpoonup> device) \<times> machine) option" where
  "kb_init_machine nm drv dev s = do {
     d \<leftarrow> fst s dev;
     device_start (\<lambda>_ w. Some (kb_start_machine w)) dev
       ((fst s)(dev \<mapsto> d\<lparr>d_name := nm, d_type := 2, d_flags := 0, d_interface := 4, d_driver := drv\<rparr>), snd s)
   }"

text \<open>The static objects of the two drivers.\<close>

record statics =
  kb_name :: addr
  kb_driver :: addr
  kb_device :: addr
  pit_name :: addr
  pit_driver :: addr
  pit_device :: addr

definition x86_early :: "(nat \<Rightarrow> u32) \<Rightarrow> (nat \<Rightarrow> u32) \<Rightarrow> statics \<Rightarrow> (addr \<rightharpoonup> device) \<times> machine \<Rightarrow>
    ((addr \<rightharpoonup> device) \<times> machine) option" where
  "x86_early isr irq st s = do {
     let (ds, m) = s;
     let m1 = irq_install irq (isrs_setup isr (idt_setup (gdt_setup m)));
     (r, ds2, m2) \<leftarrow> kb_init_machine (kb_name st) (kb_driver st) (kb_device st) (ds, m1);
     let m3 = register_interrupt_handler 14 Paging_fault m2;
     (r', ds4, m4) \<leftarrow> pit_init (pit_name st) (pit_driver st) (pit_device st) (ds2, m3);
     Some (ds4, m4)
   }"

definition kmain_start :: "machine \<Rightarrow> machine" where
  "kmain_start m = wd_init (timing_init m)"

definition boot :: "(nat \<Rightarrow> u32) \<Rightarrow> (nat \<Rightarrow> u32) \<Rightarrow> statics \<Rightarrow> (addr \<rightharpoonup> device) \<times> machine \<Rightarrow>
    ((addr \<rightharpoonup> device) \<times> machine) option" where
  "boot isr irq st s = do { (ds, m) \<leftarrow> x86_early isr irq st s; Some (ds, kmain_start m) }"

text \<open>A machine whose globals have their initial values.\<close>

definition power_on :: "machine \<Rightarrow> bool" where
  "power_on m \<longleftrightarrow> ktime.truncate m = ktime0"

definition statics_ok :: "statics \<Rightarrow> (addr \<rightharpoonup> device) \<Rightarrow> bool" where
  "statics_ok st ds \<longleftrightarrow> kb_device st \<noteq> NULL \<and> pit_device st \<noteq> NULL \<and> kb_device st \<noteq> pit_device st \<and>
     kb_driver st \<noteq> NULL \<and> pit_driver st \<noteq> NULL \<and>
     (\<exists>d e. ds (kb_device st) = Some d \<and> ds (pit_device st) = Some e \<and>
        d_status d \<noteq> DEVICE_STATUS_ONLINE \<and> d_status e \<noteq> DEVICE_STATUS_ONLINE)"

definition online :: "(addr \<rightharpoonup> device) \<Rightarrow> addr \<Rightarrow> bool" where
  "online ds p \<longleftrightarrow> (\<exists>d. ds p = Some d \<and> d_status d = DEVICE_STATUS_ONLINE)"

section \<open>The running system\<close>

text \<open>What may happen between two ticks: a key, or the main loop comes round.\<close>

datatype idle_event = Pressed u8 | Notified

definition idle_step :: "(u8 \<Rightarrow> u8) \<Rightarrow> idle_event \<Rightarrow> machine \<Rightarrow> machine option" where
  "idle_step oob e s =
     (case e of Pressed c \<Rightarrow> hw_step oob (Key c) s | Notified \<Rightarrow> Some (wd_notify WD_NOTIFY_KMAIN s))"

definition tick_round :: "(u8 \<Rightarrow> u8) \<Rightarrow> idle_event list \<Rightarrow> machine \<Rightarrow> machine option" where
  "tick_round oob es s = do { s1 \<leftarrow> foldM (idle_step oob) es s; hw_step oob Clock s1 }"

definition pressed :: "idle_event list \<Rightarrow> u8 list" where
  "pressed es = concat (map (\<lambda>e. case e of Pressed c \<Rightarrow> [c] | Notified \<Rightarrow> []) es)"

abbreviation notifications :: "idle_event list \<Rightarrow> nat" where
  "notifications es \<equiv> count_list es Notified"

section \<open>The state after the start\<close>

lemma device_start_ok:
  assumes "dev \<noteq> NULL" and "ds dev = Some d" and "d_status d \<noteq> DEVICE_STATUS_ONLINE" and "d_driver d \<noteq> NULL"
    and "f (d_driver d) w = Some (0, w')"
  shows "device_start f dev (ds, w) = Some (DEVICE_STATUS_ONLINE, set_status dev DEVICE_STATUS_ONLINE ds, w')"
  using assms by (simp add: device_start_def)

lemma kb_init_ok:
  assumes "statics_ok st ds"
  shows "\<exists>ds'. kb_init_machine (kb_name st) (kb_driver st) (kb_device st) (ds, m) =
      Some (DEVICE_STATUS_ONLINE, ds', snd (kb_start_machine m)) \<and> online ds' (kb_device st) \<and>
    (\<forall>p. p \<noteq> kb_device st \<longrightarrow> ds' p = ds p)"
proof -
  obtain d where d: "ds (kb_device st) = Some d" "d_status d \<noteq> DEVICE_STATUS_ONLINE" "kb_device st \<noteq> NULL" "kb_driver st \<noteq> NULL"
    using assms by (auto simp: statics_ok_def)
  let ?d = "d\<lparr>d_name := kb_name st, d_type := 2, d_flags := 0, d_interface := 4, d_driver := kb_driver st\<rparr>"
  have s: "Some (kb_start_machine m) = Some (0, snd (kb_start_machine m))"
    by (simp add: kb_start_machine_def kb_start_def)
  have "device_start (\<lambda>_ w. Some (kb_start_machine w)) (kb_device st) (ds(kb_device st \<mapsto> ?d), m) =
      Some (DEVICE_STATUS_ONLINE, set_status (kb_device st) DEVICE_STATUS_ONLINE (ds(kb_device st \<mapsto> ?d)), snd (kb_start_machine m))"
    by (rule device_start_ok [of _ _ ?d]) (use d s in simp_all)
  then show ?thesis using d by (auto simp: kb_init_machine_def set_status_def online_def)
qed

lemma pit_init_ok:
  assumes "ds (pit_device st) = Some d" and "d_status d \<noteq> DEVICE_STATUS_ONLINE" and "pit_device st \<noteq> NULL"
    and "pit_driver st \<noteq> NULL"
  shows "\<exists>ds'. pit_init (pit_name st) (pit_driver st) (pit_device st) (ds, m) =
      Some (DEVICE_STATUS_ONLINE, ds', snd (pit_start m)) \<and> online ds' (pit_device st) \<and>
    (\<forall>p. p \<noteq> pit_device st \<longrightarrow> ds' p = ds p)"
proof -
  let ?d = "d\<lparr>d_name := pit_name st, d_type := 2, d_flags := 0, d_interface := 4, d_driver := pit_driver st\<rparr>"
  have s: "Some (pit_start m) = Some (0, snd (pit_start m))" by (simp add: pit_start_def)
  have "device_start (\<lambda>_ w. Some (pit_start w)) (pit_device st) (ds(pit_device st \<mapsto> ?d), m) =
      Some (DEVICE_STATUS_ONLINE, set_status (pit_device st) DEVICE_STATUS_ONLINE (ds(pit_device st \<mapsto> ?d)), snd (pit_start m))"
    by (rule device_start_ok [of _ _ ?d]) (use assms s in simp_all)
  then show ?thesis using assms by (auto simp: pit_init_def set_status_def online_def)
qed

text \<open>Setting up tables and drivers leaves the timers and the watchdog alone.\<close>

lemma truncate_fold:
  assumes "\<And>x s. ktime.truncate (f x s) = ktime.truncate s"
  shows "ktime.truncate (fold f xs s) = ktime.truncate s"
  using assms by (induction xs arbitrary: s) auto

lemma truncate_basic [simp]:
  "ktime.truncate (idt_set_gate n b sel fl m) = ktime.truncate m"
  "ktime.truncate (gdt_set_gate n b l a g m) = ktime.truncate m"
  "ktime.truncate (outb p v m) = ktime.truncate m"
  "ktime.truncate (idt_setup m) = ktime.truncate m"
  "ktime.truncate (register_interrupt_handler n h m) = ktime.truncate m"
  by (simp_all add: ktime.truncate_def idt_set_gate_def gdt_set_gate_def outb_def idt_setup_def register_interrupt_handler_def)

lemma truncate_setup [simp]:
  "ktime.truncate (gdt_setup m) = ktime.truncate m"
  "ktime.truncate (isrs_setup isr m) = ktime.truncate m"
  "ktime.truncate (irq_install irq m) = ktime.truncate m"
  "ktime.truncate (snd (pit_start m)) = ktime.truncate m"
  "ktime.truncate (snd (kb_start_machine m)) = ktime.truncate m"
proof -
  show "ktime.truncate (gdt_setup m) = ktime.truncate m" by (simp add: gdt_setup_def)
  show "ktime.truncate (isrs_setup isr m) = ktime.truncate m" unfolding isrs_setup_def by (rule truncate_fold) simp
  have "ktime.truncate (irq_remap m) = ktime.truncate m" unfolding irq_remap_def by (rule truncate_fold) auto
  then show "ktime.truncate (irq_install irq m) = ktime.truncate m"
    unfolding irq_install_def by (subst truncate_fold) simp_all
  show "ktime.truncate (snd (pit_start m)) = ktime.truncate m" by (simp add: pit_start_def pit_phase_def Let_def)
  have "ktime.truncate (m\<lparr>m_kb := k\<rparr>) = ktime.truncate m" for k by (simp add: ktime.truncate_def)
  then show "ktime.truncate (snd (kb_start_machine m)) = ktime.truncate m" by (simp add: kb_start_machine_def Let_def split: prod.split)
qed

lemma power_on_fields:
  assumes "power_on m"
  shows "timer_hi m = 0" "timer_device m = 0" "wd_kmain m = 0" "wd_kmain_o m = 0" "wd_kmain_hangups m = 0"
    "wd_total_hangups m = 0" "wd_enabled m"
proof -
  have "timer_hi (ktime.truncate m) = timer_hi m" "timer_device (ktime.truncate m) = timer_device m"
    "wd_kmain (ktime.truncate m) = wd_kmain m" "wd_kmain_o (ktime.truncate m) = wd_kmain_o m"
    "wd_kmain_hangups (ktime.truncate m) = wd_kmain_hangups m" "wd_total_hangups (ktime.truncate m) = wd_total_hangups m"
    "wd_enabled (ktime.truncate m) = wd_enabled m" by (simp_all add: ktime.truncate_def)
  then show "timer_hi m = 0" "timer_device m = 0" "wd_kmain m = 0" "wd_kmain_o m = 0" "wd_kmain_hangups m = 0"
    "wd_total_hangups m = 0" "wd_enabled m" using assms by (simp_all add: power_on_def ktime0_def)
qed

text \<open>The invariant of the running system after \<open>n\<close> ticks, with \<open>k\<close> notifications since the last evaluation.\<close>

definition running :: "nat \<Rightarrow> nat \<Rightarrow> machine \<Rightarrow> bool" where
  "running n k s \<longleftrightarrow> booted 0 n 0 s \<and> wd_enabled s \<and> wd_kmain s = wd_kmain_o s + of_nat k \<and> wired s"

lemma kmain_start_running:
  assumes "power_on m" and "interrupt_handlers m 32 = Some Timer_handler" and "interrupt_handlers m 33 = Some Kb_handler"
  shows "running 0 0 (kmain_start m)"
proof -
  have "booted 0 0 0 (kmain_start m)"
    unfolding kmain_start_def using power_on_fields [OF assms(1)] by (intro booted_boot) simp_all
  moreover have "wd_enabled (kmain_start m)" "wd_kmain (kmain_start m) = wd_kmain_o (kmain_start m)"
    "timer_device (kmain_start m) = 0" "interrupt_handlers (kmain_start m) = interrupt_handlers m"
    using power_on_fields [OF assms(1)]
    by (simp_all add: kmain_start_def wd_init_def timing_init_def timing_register_timer_def Let_def)
  ultimately show ?thesis using assms(2,3) by (simp add: running_def wired_def)
qed

definition gates_ok :: "(nat \<Rightarrow> u32) \<Rightarrow> (nat \<Rightarrow> u32) \<Rightarrow> machine \<Rightarrow> bool" where
  "gates_ok isr irq m \<longleftrightarrow> (\<forall>n < 48. gate_base (idt m n) = (if n < 32 then isr n else irq (n - 32)) \<and>
     i_sel (idt m n) = 0x08 \<and> i_flags (idt m n) = 0x8E)"

lemma idt_kept [simp]: "idt (snd (pit_start m)) = idt m" "idt (register_interrupt_handler n h m) = idt m"
  "idt (snd (kb_start_machine m)) = idt m" "idt (kmain_start m) = idt m"
  by (simp_all add: pit_start_def pit_phase_def register_interrupt_handler_def kb_start_machine_def kb_start_def
      kmain_start_def wd_init_def timing_init_def timing_register_timer_def Let_def outb_def)

lemma boot_ok:
  assumes "power_on m" and "statics_ok st ds"
  shows "\<exists>ds' m'. boot isr irq st (ds, m) = Some (ds', m') \<and> running 0 0 m' \<and> gates_ok isr irq m' \<and>
    online ds' (kb_device st) \<and> online ds' (pit_device st)"
proof -
  let ?m1 = "irq_install irq (isrs_setup isr (idt_setup (gdt_setup m)))"
  obtain ds2 where k: "kb_init_machine (kb_name st) (kb_driver st) (kb_device st) (ds, ?m1) =
      Some (DEVICE_STATUS_ONLINE, ds2, snd (kb_start_machine ?m1))" "online ds2 (kb_device st)"
      "\<forall>p. p \<noteq> kb_device st \<longrightarrow> ds2 p = ds p" using kb_init_ok [OF assms(2)] by blast
  let ?m3 = "register_interrupt_handler 14 Paging_fault (snd (kb_start_machine ?m1))"
  obtain e where e: "ds2 (pit_device st) = Some e" "d_status e \<noteq> DEVICE_STATUS_ONLINE" "pit_device st \<noteq> NULL"
      "pit_driver st \<noteq> NULL" "kb_device st \<noteq> pit_device st" using assms(2) k(3) by (auto simp: statics_ok_def)
  obtain ds4 where p: "pit_init (pit_name st) (pit_driver st) (pit_device st) (ds2, ?m3) =
      Some (DEVICE_STATUS_ONLINE, ds4, snd (pit_start ?m3))" "online ds4 (pit_device st)"
      "\<forall>p. p \<noteq> pit_device st \<longrightarrow> ds4 p = ds2 p" using pit_init_ok [where ds = ds2 and st = st and d = e] e(1-4) by blast
  let ?m4 = "snd (pit_start ?m3)"
  have b: "boot isr irq st (ds, m) = Some (ds4, kmain_start ?m4)"
    using k(1) p(1) by (simp add: boot_def x86_early_def)
  have "power_on ?m4" using assms(1) by (simp add: power_on_def)
  moreover have "interrupt_handlers ?m4 32 = Some Timer_handler" "interrupt_handlers ?m4 33 = Some Kb_handler"
    by (simp_all add: pit_start_def pit_phase_def outb_def register_interrupt_handler_def kb_start_machine_def kb_start_def Let_def)
  ultimately have "running 0 0 (kmain_start ?m4)" by (rule kmain_start_running)
  moreover have "gates_ok isr irq (kmain_start ?m4)"
    unfolding gates_ok_def using gates_installed [of _ irq isr "gdt_setup m"] by simp
  moreover have "online ds4 (kb_device st)" using k(2) p(3) e(5) by (simp add: online_def)
  ultimately show ?thesis using b p(2) by blast
qed

section \<open>Between ticks\<close>

lemma key_running:
  assumes "running n k s"
  shows "\<exists>s'. hw_step oob (Key c) s = Some s' \<and> running n k s' \<and> timer_hi s' = timer_hi s \<and> idt s' = idt s \<and>
    m_kb s' = kb_handler oob c (m_kb s) \<and> m_out s' = m_out s @ [(0x20, 0x20)]"
  using assms
  by (simp add: running_def wired_def booted_def hw_step_def irq_handler_def call_irq_def kb_interrupt_def outb_def)

lemma notified_running:
  assumes "running n k s"
  shows "running n (k + 1) (wd_notify WD_NOTIFY_KMAIN s)" and "m_kb (wd_notify WD_NOTIFY_KMAIN s) = m_kb s"
    and "m_out (wd_notify WD_NOTIFY_KMAIN s) = m_out s"
  using assms by (auto simp: running_def wired_def booted_def wd_notify_def)

lemma idle_running:
  assumes "running n k s"
  shows "\<exists>s'. foldM (idle_step oob) es s = Some s' \<and> running n (k + notifications es) s' \<and>
    m_kb s' = fold (kb_handler oob) (pressed es) (m_kb s) \<and>
    m_out s' = m_out s @ replicate (length (pressed es)) (0x20, 0x20)"
  using assms
proof (induction es arbitrary: k s)
  case (Cons e es)
  show ?case
  proof (cases e)
    case (Pressed c)
    from key_running [OF Cons.prems] obtain u where u: "hw_step oob (Key c) s = Some u" "running n k u"
      "m_kb u = kb_handler oob c (m_kb s)" "m_out u = m_out s @ [(0x20, 0x20)]" by blast
    from Cons.IH [OF u(2)] u Pressed show ?thesis by (auto simp: idle_step_def pressed_def)
  next
    case Notified
    from Cons.IH [OF notified_running(1) [OF Cons.prems]] notified_running(2,3) [OF Cons.prems] Notified
    show ?thesis by (auto simp: idle_step_def pressed_def)
  qed
qed (simp add: pressed_def)

lemma clock_running:
  assumes "running n k s" and "0 < k" and "k \<le> (n mod 25 + 1) * 134217728" and "n + 200 < 2147483648"
  shows "\<exists>s' k'. hw_step oob Clock s = Some s' \<and> running (Suc n) k' s' \<and> k' \<le> (Suc n mod 25) * 134217728 \<and>
    m_kb s' = m_kb s \<and> m_out s' = m_out s @ [(0x20, 0x20)]"
proof -
  let ?s = "s\<lparr>timer_ticks := timer_ticks s + 1\<rparr>"
  have w: "wired s" using assms(1) by (simp add: running_def)
  have "booted 0 n 0 ?s" "wd_enabled ?s" "wd_kmain ?s = wd_kmain_o ?s + of_nat k"
    using assms(1) by (simp_all add: running_def booted_def)
  from alive_tick [OF this assms(2-4)] obtain u k' where u: "timer_recieveTick 0 ?s = Some u" "alive 0 (Suc n) k' u" by blast
  let ?u = "outb 0x20 0x20 u"
  have step: "hw_step oob Clock s = Some ?u"
    using w u(1) by (simp add: hw_step_def irq_handler_def wired_def call_irq_def timer_handler_def)
  have "wired ?u" using clock_step [OF w step] by blast
  moreover have "booted 0 (Suc n) 0 ?u" "wd_enabled ?u" "wd_kmain ?u = wd_kmain_o ?u + of_nat k'"
    using u(2) by (simp_all add: alive_def booted_def outb_def)
  ultimately have "running (Suc n) k' ?u" by (simp add: running_def)
  then show ?thesis using step u(2) clock_step [OF w step] by (auto simp: alive_def)
qed

text \<open>A history in which the main loop comes round between any two ticks, at most \<open>2 ^ 27\<close> times.\<close>

definition lively :: "idle_event list list \<Rightarrow> bool" where
  "lively rounds \<longleftrightarrow> (\<forall>es \<in> set rounds. 0 < notifications es \<and> notifications es \<le> 2 ^ 27)"

lemma rounds_running:
  assumes "running n k s" and "k \<le> (n mod 25) * 134217728" and "lively rounds" and "n + length rounds + 200 < 2147483648"
  shows "\<exists>s' k'. foldM (tick_round oob) rounds s = Some s' \<and> running (n + length rounds) k' s' \<and>
    m_kb s' = fold (kb_handler oob) (pressed (concat rounds)) (m_kb s) \<and>
    m_out s' = m_out s @ replicate (length rounds + length (pressed (concat rounds))) (0x20, 0x20)"
  using assms
proof (induction rounds arbitrary: n k s)
  case Nil
  then show ?case by (auto simp: pressed_def)
next
  case (Cons es rounds)
  have es: "0 < notifications es" "notifications es \<le> 134217728" "lively rounds"
    using Cons.prems(3) by (simp_all add: lively_def)
  from idle_running [OF Cons.prems(1)] obtain u where u: "foldM (idle_step oob) es s = Some u"
    "running n (k + notifications es) u" "m_kb u = fold (kb_handler oob) (pressed es) (m_kb s)"
    "m_out u = m_out s @ replicate (length (pressed es)) (0x20, 0x20)" by blast
  have "k + notifications es \<le> (n mod 25 + 1) * 134217728" using es(2) Cons.prems(2) by simp
  moreover have "0 < k + notifications es" "n + 200 < 2147483648" using es(1) Cons.prems(4) by simp_all
  ultimately have "\<exists>s' k'. hw_step oob Clock u = Some s' \<and> running (Suc n) k' s' \<and> k' \<le> (Suc n mod 25) * 134217728 \<and>
    m_kb s' = m_kb u \<and> m_out s' = m_out u @ [(0x20, 0x20)]" by (intro clock_running [OF u(2)])
  then obtain v k' where v: "hw_step oob Clock u = Some v"
    "running (Suc n) k' v" "k' \<le> (Suc n mod 25) * 134217728" "m_kb v = m_kb u" "m_out v = m_out u @ [(0x20, 0x20)]" by blast
  from Cons.IH [OF v(2,3) es(3)] Cons.prems(4) obtain s' k'' where s': "foldM (tick_round oob) rounds v = Some s'"
    "running (n + length (es # rounds)) k'' s'" "m_kb s' = fold (kb_handler oob) (pressed (concat rounds)) (m_kb v)"
    "m_out s' = m_out v @ replicate (length rounds + length (pressed (concat rounds))) (0x20, 0x20)" by auto
  have "tick_round oob es s = Some v" using u(1) v(1) by (simp add: tick_round_def)
  moreover have "pressed (concat (es # rounds)) = pressed es @ pressed (concat rounds)" by (simp add: pressed_def)
  moreover have "m_out s' = m_out s @ replicate (length (es # rounds) + length (pressed (concat (es # rounds)))) (0x20, 0x20)"
    unfolding s'(4) v(5) u(4) calculation(2) by (simp add: replicate_add [symmetric] replicate_app_Cons_same)
  ultimately show ?case using s' u(3) v(4) by (intro exI [of _ s'] exI [of _ k'']) simp
qed

section \<open>Properties\<close>

text \<open>
  Property C1. The start of the PC succeeds and the system it starts stays alive: every vector has its gate, both devices are
  online, and through any history of fewer than \<open>2\<^sup>3\<^sup>1 - 200\<close> ticks in which the main loop comes round between any two ticks (at least once and
  at most \<open>2\<^sup>2\<^sup>7\<close> times) and keys are pressed at any moment, no interrupt panics, the clock counts the ticks, the keyboard
  receives the codes in order, and every interrupt is acknowledged once. The ports written are those of the interrupt controller,
  log output on the serial line apart.
\<close>

theorem system_boots_and_runs:
  assumes "power_on m" and "statics_ok st ds" and "lively rounds" and "length rounds + 200 < 2 ^ 31"
  shows "\<exists>ds' m' s'. boot isr irq st (ds, m) = Some (ds', m') \<and> gates_ok isr irq m' \<and>
    online ds' (kb_device st) \<and> online ds' (pit_device st) \<and>
    foldM (tick_round oob) rounds m' = Some s' \<and> timer_hi s' = of_nat (length rounds) \<and>
    m_kb s' = fold (kb_handler oob) (pressed (concat rounds)) (m_kb m') \<and>
    m_out s' = m_out m' @ replicate (length rounds + length (pressed (concat rounds))) (0x20, 0x20)"
proof -
  obtain ds' m' where b: "boot isr irq st (ds, m) = Some (ds', m')" "running 0 0 m'" "gates_ok isr irq m'"
    "online ds' (kb_device st)" "online ds' (pit_device st)" using boot_ok [OF assms(1,2)] by blast
  have "\<exists>s' k'. foldM (tick_round oob) rounds m' = Some s' \<and> running (0 + length rounds) k' s' \<and>
      m_kb s' = fold (kb_handler oob) (pressed (concat rounds)) (m_kb m') \<and>
      m_out s' = m_out m' @ replicate (length rounds + length (pressed (concat rounds))) (0x20, 0x20)"
    by (rule rounds_running [OF b(2) _ assms(3)]) (use assms(4) in simp_all)
  then obtain s' k' where s': "foldM (tick_round oob) rounds m' = Some s'"
    "running (length rounds) k' s'" "m_kb s' = fold (kb_handler oob) (pressed (concat rounds)) (m_kb m')"
    "m_out s' = m_out m' @ replicate (length rounds + length (pressed (concat rounds))) (0x20, 0x20)"
    unfolding add_0 by blast
  moreover have "timer_hi s' = of_nat (length rounds)" using s'(2) by (simp add: running_def booted_def)
  ultimately show ?thesis using b by blast
qed

theorem system_boots_and_runs_witness:
  "\<exists>ds' m' s'. boot (\<lambda>n. 0x1000) (\<lambda>n. 0x2000)
      \<lparr>kb_name = 1, kb_driver = 2, kb_device = 3, pit_name = 4, pit_driver = 5, pit_device = 6\<rparr>
      ((\<lambda>_. Some \<lparr>d_name = 0, d_id = 0, d_type = 0, d_flags = 0, d_permissions = 0, d_interface = 0, d_status = 0,
         d_mutex = 0, d_driver = 0\<rparr>), machine0) = Some (ds', m') \<and>
     foldM (tick_round (\<lambda>_. 0)) [[Notified, Pressed 0x23], [Pressed 0x17, Notified]] m' = Some s' \<and> timer_hi s' = 2 \<and>
     m_kb s' = kb_handler (\<lambda>_. 0) 0x17 (kb_handler (\<lambda>_. 0) 0x23 (m_kb m'))"
proof -
  define st where "st = \<lparr>kb_name = 1, kb_driver = 2, kb_device = 3, pit_name = 4, pit_driver = 5, pit_device = (6 :: addr)\<rparr>"
  define ds where "ds = (\<lambda>_ :: addr. Some \<lparr>d_name = 0, d_id = 0, d_type = 0, d_flags = 0, d_permissions = 0, d_interface = 0,
    d_status = 0, d_mutex = 0, d_driver = 0\<rparr>)"
  define r where "r = [[Notified, Pressed 0x23], [Pressed 0x17, Notified]]"
  have "power_on machine0"
    by (simp add: power_on_def machine0_def) (simp add: ktime.defs ktime0_def)
  moreover have "statics_ok st ds" by (simp add: statics_ok_def st_def ds_def)
  moreover have "lively r" "length r + 200 < 2 ^ 31" by (simp_all add: lively_def r_def)
  ultimately obtain ds' m' s' where x: "boot (\<lambda>n. 0x1000) (\<lambda>n. 0x2000) st (ds, machine0) = Some (ds', m')"
    "foldM (tick_round (\<lambda>_. 0)) r m' = Some s'" "timer_hi s' = of_nat (length r)"
    "m_kb s' = fold (kb_handler (\<lambda>_. 0)) (pressed (concat r)) (m_kb m')"
    using system_boots_and_runs [of machine0 st ds r "\<lambda>n. 0x1000" "\<lambda>n. 0x2000" "\<lambda>_. 0"] by blast
  moreover have "(of_nat (length r) :: u32) = 2" "pressed (concat r) = [0x23, 0x17]" by (simp_all add: r_def pressed_def)
  ultimately show ?thesis unfolding st_def ds_def r_def by auto
qed

end
