(* ===== verification/Vfs.thy ===== *)
theory Vfs
  imports Vfs_Path
begin

text \<open>
  The virtual file system: nodes, the mount tree, mounting and opening (\<^verbatim>\<open>src/kernel/vfs.c\<close>) and
  the built-in file systems (\<^verbatim>\<open>src/kernel/fs/*.c\<close>). A function pointer of \<^verbatim>\<open>vfs_node_t\<close> is the name
  of the function it points to, \<open>None\<close> when it is null; the built-in file systems are the only
  ones the sources install. The mount tree is kept at the level of \<^verbatim>\<open>tree.c\<close>'s contract (a value,
  a list of children, insertion of a last child), which \<open>Kernel_Tree\<close> proves of the pointer code;
  a copied node (\<^verbatim>\<open>memcpy\<close> into a fresh \<^verbatim>\<open>malloc\<close> block) is the node itself. Names are byte lists.
\<close>

section \<open>Nodes\<close>

datatype read_fn = Read_null | Read_zero | Read_serial | Read_dev | Null_func
datatype write_fn = Write_null | Write_zero | Write_serial | Write_dev
datatype open_fn = Open_null | Open_zero | Open_serial | Open_dev
datatype close_fn = Close_null | Close_zero | Close_serial | Close_dev
datatype readdir_fn = Readdir_sysfs | Initrd_readdir
datatype finddir_fn = Finddir_sysfs | Initrd_finddir

record vnode =
  v_name :: cstring
  v_type :: u32
  v_flags :: u32
  v_permissions :: u32
  v_uid :: u32
  v_gid :: u32
  v_inode :: u32
  v_length :: u32
  v_read :: "read_fn option"
  v_write :: "write_fn option"
  v_open :: "open_fn option"
  v_close :: "close_fn option"
  v_readdir :: "readdir_fn option"
  v_finddir :: "finddir_fn option"

definition zeroed_node :: vnode where
  "zeroed_node = \<lparr>v_name = [], v_type = 0, v_flags = 0, v_permissions = 0, v_uid = 0, v_gid = 0,
     v_inode = 0, v_length = 0, v_read = None, v_write = None, v_open = None, v_close = None,
     v_readdir = None, v_finddir = None\<rparr>"

abbreviation VFS_FILE :: u32 where "VFS_FILE \<equiv> 1"
abbreviation VFS_DIRECTORY :: u32 where "VFS_DIRECTORY \<equiv> 2"
abbreviation VFS_CHARDEVICE :: u32 where "VFS_CHARDEVICE \<equiv> 4"
abbreviation VFS_MOUNTPOINT :: u32 where "VFS_MOUNTPOINT \<equiv> 64"
abbreviation VFS_PERMISSION_READ :: u32 where "VFS_PERMISSION_READ \<equiv> 1"
abbreviation VFS_PERMISSION_WRITE :: u32 where "VFS_PERMISSION_WRITE \<equiv> 2"

text \<open>A directory entry, and the state of the file system layer.\<close>

record dirent =
  d_name :: cstring
  d_ino :: u32

datatype vtree = VEntry (e_name: cstring) (e_file: "vnode option") (e_kids: "vtree list")

record vfs =
  vfs_tree :: "vtree option"
  vfs_root_node :: "vnode option"
  initrd_nodes :: "vnode list"
  serial_out :: "u8 list"

section \<open>The built-in file systems\<close>

definition null_device_create :: vnode where
  "null_device_create = zeroed_node\<lparr>v_inode := 0, v_name := str ''null'', v_uid := 0, v_gid := 0,
     v_permissions := VFS_PERMISSION_READ, v_flags := VFS_FILE OR VFS_CHARDEVICE,
     v_read := Some Read_null, v_write := Some Write_null, v_open := Some Open_null,
     v_close := Some Close_null, v_readdir := None, v_finddir := None\<rparr>"

definition zero_device_create :: vnode where
  "zero_device_create = zeroed_node\<lparr>v_inode := 0, v_name := str ''zero'', v_uid := 0, v_gid := 0,
     v_permissions := VFS_PERMISSION_READ, v_flags := VFS_FILE OR VFS_CHARDEVICE,
     v_read := Some Read_zero, v_write := Some Write_zero, v_open := Some Open_zero,
     v_close := Some Close_zero, v_readdir := None, v_finddir := None\<rparr>"

definition serial_device_create :: vnode where
  "serial_device_create = zeroed_node\<lparr>v_inode := 0, v_name := str ''serial'', v_uid := 0, v_gid := 0,
     v_permissions := VFS_PERMISSION_READ OR VFS_PERMISSION_WRITE, v_flags := VFS_FILE OR VFS_CHARDEVICE,
     v_read := Some Read_serial, v_write := Some Write_serial, v_open := Some Open_serial,
     v_close := Some Close_serial, v_readdir := None, v_finddir := None\<rparr>"

definition dev_device_create :: vnode where
  "dev_device_create = zeroed_node\<lparr>v_inode := 0, v_name := str ''devfs'', v_uid := 0, v_gid := 0,
     v_permissions := VFS_PERMISSION_READ, v_flags := VFS_DIRECTORY,
     v_read := Some Read_dev, v_write := Some Write_dev, v_open := Some Open_dev,
     v_close := Some Close_dev, v_readdir := None, v_finddir := None\<rparr>"

definition sysfs_generic_create :: "cstring \<Rightarrow> read_fn \<Rightarrow> vnode" where
  "sysfs_generic_create name read_func = zeroed_node\<lparr>v_inode := 0, v_name := name, v_uid := 0,
     v_gid := 0, v_type := VFS_FILE, v_read := Some read_func, v_write := None, v_open := None,
     v_close := None, v_readdir := None, v_finddir := None\<rparr>"

definition sys_entries :: "(u32 \<times> cstring \<times> read_fn) list" where
  "sys_entries = [(1, str ''cpu'', Null_func), (2, str ''mem'', Null_func), (3, str ''uptime'', Null_func),
     (4, str ''vfsinit'', Null_func), (5, str ''version'', Null_func), (6, str ''release'', Null_func)]"

text \<open>Reading the table past its end is undefined: \<open>None\<close>.\<close>

definition sys_entry :: "nat \<Rightarrow> (u32 \<times> cstring \<times> read_fn) option" where
  "sys_entry i = (if i < length sys_entries then Some (sys_entries ! i) else None)"

definition readdir_sysfs :: "vnode \<Rightarrow> u32 \<Rightarrow> dirent option option" where
  "readdir_sysfs node index =
     (if index < 7 then do {
        (id, name, func) \<leftarrow> sys_entry (unat index);
        Some (Some \<lparr>d_name = name, d_ino = id\<rparr>)
      } else Some None)"

fun finddir_sysfs_loop :: "vnode \<Rightarrow> cstring \<Rightarrow> nat list \<Rightarrow> vnode option option" where
  "finddir_sysfs_loop node name [] = Some None"
| "finddir_sysfs_loop node name (i # is) = do {
     (id, ename, func) \<leftarrow> sys_entry i;
     if name = ename then Some (Some ((sysfs_generic_create ename func)\<lparr>v_inode := v_inode node\<rparr>))
     else finddir_sysfs_loop node name is
   }"

definition finddir_sysfs :: "vnode \<Rightarrow> cstring \<Rightarrow> vnode option option" where
  "finddir_sysfs node name = finddir_sysfs_loop node name [0..<7]"

definition sysfs_device_create :: vnode where
  "sysfs_device_create = zeroed_node\<lparr>v_inode := 0, v_name := str ''sysfs'', v_uid := 0, v_gid := 0,
     v_permissions := VFS_PERMISSION_READ, v_flags := VFS_DIRECTORY,
     v_read := Some Null_func, v_write := None, v_open := None, v_close := None,
     v_readdir := Some Readdir_sysfs, v_finddir := Some Finddir_sysfs\<rparr>"

definition initrd_readdir :: "vfs \<Rightarrow> vnode \<Rightarrow> u32 \<Rightarrow> dirent option option" where
  "initrd_readdir s node index =
     (if length (initrd_nodes s) \<le> unat index then Some None
      else Some (Some \<lparr>d_name = v_name (initrd_nodes s ! unat index),
        d_ino = v_inode (initrd_nodes s ! unat index)\<rparr>))"

definition initrd_finddir :: "vfs \<Rightarrow> vnode \<Rightarrow> cstring \<Rightarrow> vnode option option" where
  "initrd_finddir s node name = Some (find (\<lambda>n. name = v_name n) (initrd_nodes s))"

section \<open>Operations on a node\<close>

text \<open>
  \<^verbatim>\<open>write_serial\<close> has no \<^verbatim>\<open>return\<close> statement: its value is indeterminate, \<open>None\<close>. None of the
  read functions touches the buffer.
\<close>

fun read_call :: "read_fn \<Rightarrow> vnode \<Rightarrow> u32 \<Rightarrow> u32 \<Rightarrow> u32" where
  "read_call Read_null node offset sz = 0"
| "read_call Read_zero node offset sz = 0"
| "read_call Read_serial node offset sz = 0"
| "read_call Read_dev node offset sz = 0"
| "read_call Null_func node offset sz = sz"

fun write_call :: "write_fn \<Rightarrow> vnode \<Rightarrow> u32 \<Rightarrow> u32 \<Rightarrow> u8 list \<Rightarrow> vfs \<Rightarrow> u32 option \<times> vfs" where
  "write_call Write_null node offset sz buffer s = (Some 0, s)"
| "write_call Write_zero node offset sz buffer s = (Some 0, s)"
| "write_call Write_dev node offset sz buffer s = (Some 0, s)"
| "write_call Write_serial node offset sz buffer s =
     (None, s\<lparr>serial_out := serial_out s @ take (unat sz) buffer\<rparr>)"

definition read_vfs :: "vnode \<Rightarrow> u32 \<Rightarrow> u32 \<Rightarrow> u32" where
  "read_vfs node offset sz = (case v_read node of Some f \<Rightarrow> read_call f node offset sz | None \<Rightarrow> 0)"

definition write_vfs :: "vnode \<Rightarrow> u32 \<Rightarrow> u32 \<Rightarrow> u8 list \<Rightarrow> vfs \<Rightarrow> u32 option \<times> vfs" where
  "write_vfs node offset sz buffer s =
     (case v_write node of Some f \<Rightarrow> write_call f node offset sz buffer s | None \<Rightarrow> (Some 0, s))"

text \<open>The four open and the four close functions do nothing.\<close>

definition open_call :: "open_fn \<Rightarrow> vnode \<Rightarrow> u32 \<Rightarrow> vfs \<Rightarrow> vfs" where
  "open_call f node flags s = s"

definition close_call :: "close_fn \<Rightarrow> vnode \<Rightarrow> vfs \<Rightarrow> vfs" where
  "close_call f node s = s"

definition open_vfs :: "vnode \<Rightarrow> u32 \<Rightarrow> vfs \<Rightarrow> vfs" where
  "open_vfs node flags s = (case v_open node of Some f \<Rightarrow> open_call f node flags s | None \<Rightarrow> s)"

text \<open>\<open>is_root\<close> is the pointer comparison with \<^verbatim>\<open>vfs_root_node\<close>.\<close>

definition close_vfs :: "bool \<Rightarrow> vnode \<Rightarrow> vfs \<Rightarrow> vfs" where
  "close_vfs is_root node s =
     (if is_root then s
      else case v_close node of Some f \<Rightarrow> close_call f node s | None \<Rightarrow> s)"

fun readdir_call :: "readdir_fn \<Rightarrow> vfs \<Rightarrow> vnode \<Rightarrow> u32 \<Rightarrow> dirent option option" where
  "readdir_call Readdir_sysfs s node index = readdir_sysfs node index"
| "readdir_call Initrd_readdir s node index = initrd_readdir s node index"

fun finddir_call :: "finddir_fn \<Rightarrow> vfs \<Rightarrow> vnode \<Rightarrow> cstring \<Rightarrow> vnode option option" where
  "finddir_call Finddir_sysfs s node name = finddir_sysfs node name"
| "finddir_call Initrd_finddir s node name = initrd_finddir s node name"

definition readdir_vfs :: "vfs \<Rightarrow> vnode \<Rightarrow> u32 \<Rightarrow> dirent option option" where
  "readdir_vfs s node index =
     (case v_readdir node of
        Some f \<Rightarrow> if v_type node AND VFS_DIRECTORY \<noteq> 0 then readdir_call f s node index else Some None
      | None \<Rightarrow> Some None)"

definition finddir_vfs :: "vfs \<Rightarrow> vnode \<Rightarrow> cstring \<Rightarrow> vnode option option" where
  "finddir_vfs s node name =
     (case v_finddir node of
        Some f \<Rightarrow> if v_type node AND VFS_DIRECTORY \<noteq> 0 then finddir_call f s node name else Some None
      | None \<Rightarrow> Some None)"

section \<open>Mounting\<close>

definition vfs_init :: "vfs \<Rightarrow> vfs" where
  "vfs_init s = s\<lparr>vfs_tree := Some (VEntry (str ''[root]'') None [])\<rparr>"

definition vfs_boot :: vfs where
  "vfs_boot = \<lparr>vfs_tree = None, vfs_root_node = None, initrd_nodes = [], serial_out = []\<rparr>"

text \<open>
  The path with its separators overwritten by terminators, read element by element until the
  end of the buffer.
\<close>

function chop :: "cstring \<Rightarrow> cstring list" where
  "chop at =
     (if at = [] then []
      else takeWhile (\<lambda>c. c \<noteq> PATH_SEPARATOR) at #
        chop (drop (length (takeWhile (\<lambda>c. c \<noteq> PATH_SEPARATOR) at) + 1) at))"
  by pat_completeness auto
termination by (relation "measure length") auto

declare chop.simps [simp del]

text \<open>The first child with the given name, with the children before and after it.\<close>

fun split_child :: "cstring \<Rightarrow> vtree list \<Rightarrow> (vtree list \<times> vtree \<times> vtree list) option" where
  "split_child a [] = None"
| "split_child a (k # ks) =
     (if e_name k = a then Some ([], k, ks)
      else map_option (\<lambda>(bs, c, cs). (k # bs, c, cs)) (split_child a ks))"

fun mount_in :: "cstring list \<Rightarrow> vnode \<Rightarrow> vtree \<Rightarrow> int \<times> vtree" where
  "mount_in [] f (VEntry n fl ks) =
     (case fl of Some _ \<Rightarrow> (3, VEntry n fl ks) | None \<Rightarrow> (0, VEntry n (Some f) ks))"
| "mount_in (a # as) f (VEntry n fl ks) =
     (case split_child a ks of
        Some (bs, k, cs) \<Rightarrow> let (r, k') = mount_in as f k in (r, VEntry n fl (bs @ k' # cs))
      | None \<Rightarrow> let (r, k') = mount_in as f (VEntry a None []) in (r, VEntry n fl (ks @ [k'])))"

definition vfs_mount :: "cstring option \<Rightarrow> vnode \<Rightarrow> vfs \<Rightarrow> int \<times> vfs" where
  "vfs_mount path local_root s =
     (case vfs_tree s of
        None \<Rightarrow> (1, s)
      | Some t \<Rightarrow>
          (case path of
             Some (c # i) \<Rightarrow>
               if c \<noteq> PATH_SEPARATOR then (2, s)
               else if i = [] \<or> hd i = PATH_SEPARATOR then
                 (case t of VEntry n (Some f) ks \<Rightarrow> (3, s)
                  | VEntry n None ks \<Rightarrow> (0, s\<lparr>vfs_tree := Some (VEntry n (Some local_root) ks),
                      vfs_root_node := Some local_root\<rparr>))
               else let (r, t') = mount_in (chop i) local_root t in (r, s\<lparr>vfs_tree := Some t'\<rparr>)
           | _ \<Rightarrow> (2, s)))"

definition init_vfs_devices :: "vfs \<Rightarrow> vfs" where
  "init_vfs_devices s =
     (let s1 = snd (vfs_mount (Some (str ''/dev/null'')) null_device_create s);
          s2 = snd (vfs_mount (Some (str ''/dev/zero'')) zero_device_create s1);
          s3 = snd (vfs_mount (Some (str ''/dev/serial0'')) serial_device_create s2)
      in snd (vfs_mount (Some (str ''/dev/'')) dev_device_create s3))"

section \<open>Opening\<close>

text \<open>
  \<open>get_mount_point\<close> walks down the tree as long as it finds the elements and remembers the
  deepest mounted node, the elements behind it and its depth. The caller's \<^verbatim>\<open>path\<close> argument only
  serves to find the end of the last element.
\<close>

fun mount_walk ::
  "cstring list \<Rightarrow> vtree \<Rightarrow> vnode option \<Rightarrow> cstring list \<Rightarrow> nat \<Rightarrow> nat \<Rightarrow> vnode option \<times> cstring list \<times> nat" where
  "mount_walk [] node last_node outpath depth tree_depth = (last_node, outpath, tree_depth)"
| "mount_walk (at # rest) (VEntry n fl ks) last_node outpath depth tree_depth =
     (case find (\<lambda>k. e_name k = at) ks of
        None \<Rightarrow> (last_node, outpath, tree_depth)
      | Some k \<Rightarrow>
          (case e_file k of
             Some f \<Rightarrow> mount_walk rest k (Some f) rest (depth + 1) depth
           | None \<Rightarrow> mount_walk rest k last_node outpath (depth + 1) tree_depth))"

definition get_mount_point :: "vfs \<Rightarrow> vtree \<Rightarrow> cstring list \<Rightarrow> vnode option \<times> cstring list \<times> nat" where
  "get_mount_point s tree outpath = mount_walk outpath tree (vfs_root_node s) outpath 1 0"

fun open_walk :: "vfs \<Rightarrow> vnode \<Rightarrow> cstring list \<Rightarrow> nat \<Rightarrow> nat \<Rightarrow> vnode option option" where
  "open_walk s node [] depth path_depth = Some None"
| "open_walk s node (at # rest) depth path_depth =
     (if depth < path_depth then do {
        next \<leftarrow> finddir_vfs s node at;
        (case next of
           None \<Rightarrow> Some None
         | Some n \<Rightarrow>
             if depth = path_depth - 1 then Some (Some n)
             else open_walk s n rest (depth + 1) path_depth)
      } else Some None)"

text \<open>Result: \<open>None\<close> for a fault, \<open>Some None\<close> for the null pointer.\<close>

definition kopen :: "cstring option \<Rightarrow> u32 \<Rightarrow> vfs \<Rightarrow> vnode option option" where
  "kopen filename flags s =
     (case vfs_tree s of
        None \<Rightarrow> None
      | Some tree \<Rightarrow>
          (case filename of
             None \<Rightarrow> Some None
           | Some fn \<Rightarrow>
               let path = canonicalize_path (str ''/'') fn;
                   path_len = length path
               in if path_len = 1
                  then (case vfs_root_node s of None \<Rightarrow> None | Some root \<Rightarrow> Some (Some root))
                  else
                    let path_depth = length (filter (\<lambda>c. c = PATH_SEPARATOR) path);
                        (mount_point, path_offset, depth) = get_mount_point s tree (chop (tl path))
                    in if path_offset = [] then Some mount_point
                       else (case mount_point of
                               None \<Rightarrow> None
                             | Some node \<Rightarrow> open_walk s node path_offset depth path_depth)))"

text \<open>
  The name of a file to create: the rest of the path behind its last separator, but the whole
  path when that separator is the leading one.
\<close>

definition create_name :: "cstring \<Rightarrow> cstring" where
  "create_name path =
     (let r = takeWhile (\<lambda>c. c \<noteq> PATH_SEPARATOR) (rev path)
      in if length r + 1 < length path then rev r else path)"

text \<open>No file system of the sources installs a \<^verbatim>\<open>create\<close> function, so the parent never has one.\<close>

definition create_file_vfs :: "cstring \<Rightarrow> u16 \<Rightarrow> vfs \<Rightarrow> int option" where
  "create_file_vfs name permission s = do {
     let path = canonicalize_path (str ''/'') name;
     parent \<leftarrow> kopen (Some path) 0 s;
     (case parent of None \<Rightarrow> Some (- 1) | Some p \<Rightarrow> Some 0)
   }"


section \<open>A mount table\<close>

text \<open>
  What clients of \<^verbatim>\<open>vfs_mount\<close> rely on: a path that is free becomes mounted, a path that is taken
  stays as it is with the result 3, and nothing else changes.
\<close>

locale mount_table =
  fixes mounted :: "'t \<Rightarrow> 'p \<Rightarrow> 'f option"
    and mount :: "'p \<Rightarrow> 'f \<Rightarrow> 't \<Rightarrow> int \<times> 't"
  assumes mount_new: "mounted t p = None \<Longrightarrow>
      fst (mount p f t) = 0 \<and> (\<forall>q. mounted (snd (mount p f t)) q = (if q = p then Some f else mounted t q))"
    and mount_busy: "mounted t p \<noteq> None \<Longrightarrow>
      fst (mount p f t) = 3 \<and> (\<forall>q. mounted (snd (mount p f t)) q = mounted t q)"
begin

definition mount_all :: "('p \<times> 'f) list \<Rightarrow> 't \<Rightarrow> 't" where
  "mount_all ms t = fold (\<lambda>(p, f) t. snd (mount p f t)) ms t"

lemma mount_keeps: "mounted t q = Some g \<Longrightarrow> mounted (snd (mount p f t)) q = Some g"
  using mount_new [of t p f] mount_busy [of t p f] by (cases "mounted t p") auto

text \<open>Mounting at distinct free paths, in any number: every one of them is then mounted.\<close>

lemma mount_all_files:
  assumes "distinct (map fst ms)" and "\<forall>(p, f) \<in> set ms. mounted t p = None"
  shows "mounted (mount_all ms t) q = (case map_of ms q of Some f \<Rightarrow> Some f | None \<Rightarrow> mounted t q)"
  using assms
proof (induction ms arbitrary: t)
  case (Cons m ms)
  obtain p f where m: "m = (p, f)" by (cases m)
  let ?t = "snd (mount p f t)"
  have t: "mounted ?t q = (if q = p then Some f else mounted t q)" for q
    using mount_new [of t p f] Cons.prems(2) m by auto
  have "\<forall>(p', f') \<in> set ms. mounted ?t p' = None"
  proof (clarify)
    fix p' f'
    assume "(p', f') \<in> set ms"
    then show "mounted ?t p' = None" using Cons.prems m t [of p'] by force
  qed
  then have "mounted (mount_all ms ?t) q = (case map_of ms q of Some f \<Rightarrow> Some f | None \<Rightarrow> mounted ?t q)"
    using Cons.IH [of ?t] Cons.prems(1) by auto
  moreover have "map_of ms p = None" using Cons.prems(1) m by (auto simp: map_of_eq_None_iff)
  ultimately show ?case using m t by (auto simp: mount_all_def split: option.splits)
qed (simp add: mount_all_def)

end

section \<open>The tree is a mount table\<close>

fun entry_at :: "vtree \<Rightarrow> cstring list \<Rightarrow> vtree option" where
  "entry_at t [] = Some t"
| "entry_at (VEntry n fl ks) (a # as) =
     (case find (\<lambda>k. e_name k = a) ks of None \<Rightarrow> None | Some k \<Rightarrow> entry_at k as)"

definition file_at :: "vtree \<Rightarrow> cstring list \<Rightarrow> vnode option" where
  "file_at t as = (case entry_at t as of None \<Rightarrow> None | Some e \<Rightarrow> e_file e)"

lemma file_at_simps [simp]: "file_at (VEntry n fl ks) [] = fl"
  "file_at (VEntry n fl ks) (a # as) =
     (case find (\<lambda>k. e_name k = a) ks of None \<Rightarrow> None | Some k \<Rightarrow> file_at k as)"
  by (auto simp: file_at_def split: option.splits)

lemma split_child_Some:
  "split_child a ks = Some (bs, k, cs) \<Longrightarrow> ks = bs @ k # cs \<and> e_name k = a \<and> (\<forall>b \<in> set bs. e_name b \<noteq> a)"
  by (induction ks arbitrary: bs) (auto split: if_splits)

lemma split_child_None: "split_child a ks = None \<longleftrightarrow> find (\<lambda>k. e_name k = a) ks = None"
  by (induction ks) auto

lemma find_append: "find P (xs @ ys) = (case find P xs of None \<Rightarrow> find P ys | Some x \<Rightarrow> Some x)"
  by (induction xs) auto

lemma find_other: "\<forall>b \<in> set bs. e_name b \<noteq> a \<Longrightarrow> find (\<lambda>k. e_name k = a) bs = None"
  by (induction bs) auto

lemma mount_in_name: "e_name (snd (mount_in as f t)) = e_name t"
proof (cases t)
  case (VEntry n fl ks)
  then show ?thesis by (cases as) (auto split: option.splits prod.splits)
qed

lemma mount_in_file_at:
  "fst (mount_in as f t) = (if file_at t as = None then 0 else 3) \<and>
   file_at (snd (mount_in as f t)) bs = (if bs = as \<and> file_at t as = None then Some f else file_at t bs)"
proof (induction as f t arbitrary: bs rule: mount_in.induct)
  case (1 f n fl ks)
  then show ?case by (cases bs) (auto split: option.splits)
next
  case (2 a as f n fl ks)
  show ?case
  proof (cases "split_child a ks")
    case None
    then have nf: "find (\<lambda>k. e_name k = a) ks = None" by (simp add: split_child_None)
    obtain r k' where k': "mount_in as f (VEntry a None []) = (r, k')" by (cases "mount_in as f (VEntry a None [])")
    have nm: "e_name k' = a" using mount_in_name [of as f "VEntry a None []"] k' by simp
    have emp: "file_at (VEntry a None []) cs = None" for cs by (cases cs) auto
    have ih: "r = 0" "file_at k' cs = (if cs = as then Some f else None)" for cs
      using "2.IH"(1) [OF None, of cs] k' emp by simp_all
    show ?thesis using None nf k' nm ih
      by (cases bs) (auto simp: find_append split: option.splits)
  next
    case (Some x)
    obtain ls k rs where x: "x = (ls, k, rs)" by (cases x)
    have ks: "ks = ls @ k # rs" "e_name k = a" "\<forall>b \<in> set ls. e_name b \<noteq> a"
      using split_child_Some Some x by auto
    obtain r k' where k': "mount_in as f k = (r, k')" by (cases "mount_in as f k")
    have nm: "e_name k' = a" using mount_in_name [of as f k] k' ks(2) by simp
    have ih: "r = (if file_at k as = None then 0 else 3)"
      "file_at k' cs = (if cs = as \<and> file_at k as = None then Some f else file_at k cs)" for cs
      using "2.IH"(2) [OF Some x [symmetric] refl, of cs] k' by simp_all
    show ?thesis using Some x ks k' nm ih find_other [OF ks(3)]
      by (cases bs) (auto simp: find_append split: option.splits)
  qed
qed

interpretation vfs_mounts: mount_table file_at mount_in
  by unfold_locales (use mount_in_file_at in auto)


section \<open>Opening what is mounted\<close>

lemma chop_Nil [simp]: "chop [] = []"
  by (subst chop.simps) simp

lemma chop_join:
  assumes "\<forall>t \<in> set (a # as). clean_element t"
  shows "chop (a @ concat (map (\<lambda>t. PATH_SEPARATOR # t) as)) = a # as"
  using assms
proof (induction as arbitrary: a)
  case Nil
  then have a: "a \<noteq> []" "\<forall>x \<in> set a. x \<noteq> PATH_SEPARATOR" by (auto simp: clean_element_def)
  have "takeWhile (\<lambda>c. c \<noteq> PATH_SEPARATOR) a = a"
    by (rule takeWhile_eq_all_conv [THEN iffD2]) (rule a(2))
  then have "length (takeWhile (\<lambda>c. c \<noteq> PATH_SEPARATOR) a) = length a" by (rule arg_cong)
  then show ?case using a by (subst chop.simps) simp
next
  case (Cons b as)
  have "takeWhile (\<lambda>c. c \<noteq> PATH_SEPARATOR) (a @ PATH_SEPARATOR # r) = a" for r
    using Cons.prems by (subst takeWhile_append2) (auto simp: clean_element_def)
  then show ?case using Cons.IH [of b] Cons.prems by (subst chop.simps) auto
qed

lemma plain_clean: "plain_element t \<Longrightarrow> clean_element t"
  by (simp add: plain_element_def)

text \<open>What \<^verbatim>\<open>vfs_mount\<close> and \<^verbatim>\<open>kopen\<close> make of a path of plain elements.\<close>

lemma join_path_plain:
  assumes "\<forall>t \<in> set as. plain_element t" and "as \<noteq> []"
  shows "\<exists>i. join_path as = PATH_SEPARATOR # i \<and> i \<noteq> [] \<and> hd i \<noteq> PATH_SEPARATOR \<and> chop i = as"
    and "canonicalize_path cwd (join_path as) = join_path as"
    and "length (filter (\<lambda>c. c = PATH_SEPARATOR) (join_path as)) = length as"
proof -
  obtain a bs where as: "as = a # bs" using assms(2) by (cases as) auto
  let ?i = "a @ concat (map (\<lambda>t. PATH_SEPARATOR # t) bs)"
  have "join_path as = PATH_SEPARATOR # ?i" using as by (simp add: join_path_simps)
  moreover have "a \<noteq> []" "PATH_SEPARATOR \<notin> set a" using assms(1) as by (auto simp: plain_element_def clean_element_def)
  then have "?i \<noteq> []" "hd ?i \<noteq> PATH_SEPARATOR" by (cases a; auto)+
  ultimately show "\<exists>i. join_path as = PATH_SEPARATOR # i \<and> i \<noteq> [] \<and> hd i \<noteq> PATH_SEPARATOR \<and> chop i = as"
    using chop_join [of a bs] assms(1) as plain_clean by auto
  have "path_tokens (join_path as) = as" using assms(1) plain_clean by (intro path_tokens_join) blast
  moreover obtain r where "join_path as = PATH_SEPARATOR # r" using join_path_absolute by blast
  ultimately show "canonicalize_path cwd (join_path as) = join_path as"
    using fold_push_all_plain [OF assms(1), of "[]"] by (simp add: canonicalize_path_stack path_stack_def)
  have "length (filter (\<lambda>c. c = PATH_SEPARATOR) (concat (map (\<lambda>t. PATH_SEPARATOR # t) cs))) = length cs"
    if "\<forall>t \<in> set cs. plain_element t" for cs
    using that by (induction cs) (auto simp: plain_element_def clean_element_def filter_empty_conv)
  then show "length (filter (\<lambda>c. c = PATH_SEPARATOR) (join_path as)) = length as"
    using assms by (simp add: join_path_simps)
qed

lemma mount_walk_mounted:
  assumes "file_at t as = Some f" and "as \<noteq> []"
  shows "mount_walk as t l out d td = (Some f, [], d + length as - 1)"
  using assms
proof (induction as arbitrary: t l out d td)
  case (Cons a as)
  obtain n fl ks where t: "t = VEntry n fl ks" by (cases t)
  then obtain k where k: "find (\<lambda>k. e_name k = a) ks = Some k" "file_at k as = Some f"
    using Cons.prems(1) by (auto split: option.splits)
  show ?case
  proof (cases "as = []")
    case True
    then have "e_file k = Some f" using k(2) by (cases k) simp
    then show ?thesis using t k True by simp
  next
    case False
    then show ?thesis using Cons.IH [OF k(2) False] t k by (auto split: option.splits)
  qed
qed simp

text \<open>Below the deepest mount point the walk keeps the elements that are left.\<close>

lemma mount_walk_unmounted:
  assumes "\<And>cs. cs \<noteq> [] \<Longrightarrow> file_at t cs = None"
  shows "mount_walk cs t l out d td = (l, out, td)"
  using assms
proof (induction cs arbitrary: t d)
  case (Cons c cs)
  obtain n fl ks where t: "t = VEntry n fl ks" by (cases t)
  show ?case
  proof (cases "find (\<lambda>k. e_name k = c) ks")
    case (Some k)
    have "file_at k bs = None" for bs using Cons.prems [of "c # bs"] t Some by simp
    moreover from this [of "[]"] have "e_file k = None" by (cases k) simp
    ultimately show ?thesis using Cons.IH [of k] t Some by simp
  qed (simp add: t)
qed simp

lemma mount_walk_below:
  assumes "file_at t as = Some f" and "as \<noteq> []" and "\<And>cs. cs \<noteq> [] \<Longrightarrow> file_at t (as @ cs) = None"
  shows "mount_walk (as @ cs) t l out d td = (Some f, cs, d + length as - 1)"
  using assms
proof (induction as arbitrary: t l out d td)
  case (Cons a as)
  obtain n fl ks where t: "t = VEntry n fl ks" by (cases t)
  then obtain k where k: "find (\<lambda>k. e_name k = a) ks = Some k" "file_at k as = Some f"
    using Cons.prems(1) by (auto split: option.splits)
  have below: "file_at k (as @ bs) = None" if "bs \<noteq> []" for bs
    using Cons.prems(3) [OF that] t k by simp
  show ?case
  proof (cases "as = []")
    case True
    then have "e_file k = Some f" using k(2) by (cases k) simp
    then show ?thesis using t k True mount_walk_unmounted [of k cs] below by simp
  next
    case False
    then show ?thesis using Cons.IH [OF k(2) False] below t k by (auto split: option.splits)
  qed
qed simp

lemma vfs_mount_plain:
  assumes "\<forall>a \<in> set as. plain_element a" and "as \<noteq> []" and "vfs_tree s = Some t"
  shows "vfs_mount (Some (join_path as)) f s =
    (fst (mount_in as f t), s\<lparr>vfs_tree := Some (snd (mount_in as f t))\<rparr>)"
  using join_path_plain(1) [OF assms(1,2)] assms(3) by (auto simp: vfs_mount_def split: prod.splits)

lemma kopen_mounted:
  assumes "\<forall>a \<in> set as. plain_element a" and "as \<noteq> []" and "vfs_tree s = Some t" and "file_at t as = Some f"
  shows "kopen (Some (join_path as)) flags s = Some (Some f)"
proof -
  obtain i where i: "join_path as = PATH_SEPARATOR # i" "i \<noteq> []" "chop i = as"
    using join_path_plain(1) [OF assms(1,2)] by blast
  then show ?thesis
    using assms(3) join_path_plain(2) [OF assms(1,2)] mount_walk_mounted [OF assms(4,2)]
    by (simp add: kopen_def get_mount_point_def Let_def)
qed

lemma kopen_below:
  assumes "\<forall>a \<in> set (as @ cs). plain_element a" and "as \<noteq> []" and "cs \<noteq> []" and "vfs_tree s = Some t"
    and "file_at t as = Some f" and "\<And>bs. bs \<noteq> [] \<Longrightarrow> file_at t (as @ bs) = None"
  shows "kopen (Some (join_path (as @ cs))) flags s = open_walk s f cs (length as) (length (as @ cs))"
proof -
  have ne: "as @ cs \<noteq> []" using assms(2) by simp
  obtain i where i: "join_path (as @ cs) = PATH_SEPARATOR # i" "i \<noteq> []" "chop i = as @ cs"
    using join_path_plain(1) [OF assms(1) ne] by blast
  have "mount_walk (as @ cs) t (vfs_root_node s) (as @ cs) 1 0 = (Some f, cs, length as)"
    using mount_walk_below [OF assms(5,2,6)] by simp
  then show ?thesis
    using assms(3,4) i join_path_plain(2,3) [OF assms(1) ne]
    by (simp add: kopen_def get_mount_point_def Let_def)
qed

section \<open>Properties\<close>

text \<open>
  Property C10. Mounting a node at a free path and opening that path gives the node back, and every
  path that was mounted before still opens to the node it had.
\<close>

theorem vfs_mount_then_open:
  assumes "vfs_tree s = Some t" and "\<forall>a \<in> set as. plain_element a" and "as \<noteq> []" and "file_at t as = None"
  shows "\<exists>s'. vfs_mount (Some (join_path as)) f s = (0, s') \<and>
    kopen (Some (join_path as)) flags s' = Some (Some f) \<and>
    (\<forall>bs g. bs \<noteq> [] \<longrightarrow> (\<forall>b \<in> set bs. plain_element b) \<longrightarrow> file_at t bs = Some g \<longrightarrow>
       kopen (Some (join_path bs)) flags s' = Some (Some g))"
proof -
  let ?s = "s\<lparr>vfs_tree := Some (snd (mount_in as f t))\<rparr>"
  have m: "fst (mount_in as f t) = 0" "file_at (snd (mount_in as f t)) as = Some f"
    using vfs_mounts.mount_new [OF assms(4)] by auto
  have k: "file_at (snd (mount_in as f t)) bs = Some g" if "file_at t bs = Some g" for bs g
    using vfs_mounts.mount_keeps [OF that] .
  show ?thesis
    using vfs_mount_plain [OF assms(2,3,1)] m k kopen_mounted [of as ?s] kopen_mounted [of _ ?s] assms(2,3)
    by (intro exI [of _ ?s]) simp
qed

theorem vfs_mount_then_open_witness:
  "\<exists>s'. vfs_mount (Some (join_path [str ''dev'', str ''null''])) null_device_create (vfs_init vfs_boot) = (0, s') \<and>
    kopen (Some (join_path [str ''dev'', str ''null''])) 0 s' = Some (Some null_device_create)"
proof -
  have "\<forall>a \<in> set [str ''dev'', str ''null'']. plain_element a"
    by (simp add: plain_element_def clean_element_def str_def PATH_UP_def PATH_DOT_def)
  from vfs_mount_then_open [OF _ this, of "vfs_init vfs_boot" "VEntry (str ''[root]'') None []" null_device_create 0]
  show ?thesis by (auto simp: vfs_init_def)
qed

text \<open>
  Property C36. The result codes of \<^verbatim>\<open>vfs_mount\<close>: 1 without a tree, 2 for a missing or relative path, 3
  for a path that is already mounted, and then nothing that can be opened changes.
\<close>

theorem vfs_mount_errors:
  shows "(vfs_tree s = None \<longrightarrow> vfs_mount path f s = (1, s)) \<and>
    (vfs_tree s \<noteq> None \<longrightarrow> (path = None \<or> path = Some [] \<or> (\<exists>c r. path = Some (c # r) \<and> c \<noteq> PATH_SEPARATOR)) \<longrightarrow>
       vfs_mount path f s = (2, s)) \<and>
    (\<forall>t as. vfs_tree s = Some t \<longrightarrow> as \<noteq> [] \<longrightarrow> (\<forall>a \<in> set as. plain_element a) \<longrightarrow> file_at t as \<noteq> None \<longrightarrow>
       path = Some (join_path as) \<longrightarrow>
       (\<exists>t'. vfs_mount path f s = (3, s\<lparr>vfs_tree := Some t'\<rparr>) \<and> (\<forall>bs. file_at t' bs = file_at t bs)))"
proof (intro conjI allI impI)
  show "vfs_tree s = None \<Longrightarrow> vfs_mount path f s = (1, s)" by (simp add: vfs_mount_def)
  show "vfs_mount path f s = (2, s)"
    if "vfs_tree s \<noteq> None" "path = None \<or> path = Some [] \<or> (\<exists>c r. path = Some (c # r) \<and> c \<noteq> PATH_SEPARATOR)"
    using that by (auto simp: vfs_mount_def)
  fix t as
  assume a: "vfs_tree s = Some t" "as \<noteq> []" "\<forall>a \<in> set as. plain_element a" "file_at t as \<noteq> None"
    "path = Some (join_path as)"
  show "\<exists>t'. vfs_mount path f s = (3, s\<lparr>vfs_tree := Some t'\<rparr>) \<and> (\<forall>bs. file_at t' bs = file_at t bs)"
    using vfs_mount_plain [OF a(3,2,1)] vfs_mounts.mount_busy [OF a(4)] a(5) by auto
qed

theorem vfs_mount_errors_witness:
  "vfs_mount None null_device_create vfs_boot = (1, vfs_boot) \<and>
   vfs_mount (Some (str ''dev'')) null_device_create (vfs_init vfs_boot) = (2, vfs_init vfs_boot)"
  using vfs_mount_errors [of vfs_boot None null_device_create]
    vfs_mount_errors [of "vfs_init vfs_boot" "Some (str ''dev'')" null_device_create]
  by (auto simp: vfs_boot_def vfs_init_def str_def)

text \<open>
  Nothing below a mounted built-in file system can be opened: the devices are created with
  \<^verbatim>\<open>flags\<close> set to the directory bit and \<^verbatim>\<open>type\<close> zero, and the directory search tests \<^verbatim>\<open>type\<close>.
\<close>

theorem builtin_directories_unreachable:
  assumes "m \<in> {null_device_create, zero_device_create, serial_device_create, dev_device_create, sysfs_device_create}"
    and "vfs_tree s = Some t" and "file_at t as = Some m" and "as \<noteq> []" and "cs \<noteq> []"
    and "\<forall>a \<in> set (as @ cs). plain_element a" and "\<forall>bs. bs \<noteq> [] \<longrightarrow> file_at t (as @ bs) = None"
  shows "kopen (Some (join_path (as @ cs))) flags s = Some None"
proof -
  have "v_type m = 0"
    using assms(1) by (auto simp: null_device_create_def zero_device_create_def serial_device_create_def
        dev_device_create_def sysfs_device_create_def zeroed_node_def)
  then have "finddir_vfs s m c = Some None" for c by (auto simp: finddir_vfs_def split: option.splits)
  then have "open_walk s m cs (length as) (length (as @ cs)) = Some None" using assms(5) by (cases cs) simp_all
  then show ?thesis using kopen_below [OF assms(6,4,5,2,3)] assms(7) by simp
qed

theorem builtin_directories_unreachable_witness:
  "\<exists>s. snd (vfs_mount (Some (join_path [str ''sys''])) sysfs_device_create (vfs_init vfs_boot)) = s \<and>
     kopen (Some (join_path ([str ''sys''] @ [str ''cpu'']))) 0 s = Some None"
proof -
  let ?t = "VEntry (str ''[root]'') None [VEntry (str ''sys'') (Some sysfs_device_create) []]"
  let ?s = "snd (vfs_mount (Some (join_path [str ''sys''])) sysfs_device_create (vfs_init vfs_boot))"
  have p: "\<forall>a \<in> set ([str ''sys''] @ [str ''cpu'']). plain_element a" "\<forall>a \<in> set [str ''sys'']. plain_element a"
    by (simp_all add: plain_element_def clean_element_def str_def PATH_UP_def PATH_DOT_def)
  have "vfs_tree (vfs_init vfs_boot) = Some (VEntry (str ''[root]'') None [])" by (simp add: vfs_init_def)
  then have "vfs_tree ?s = Some ?t" using vfs_mount_plain [OF p(2)] by simp
  moreover have "file_at ?t [str ''sys''] = Some sysfs_device_create" by simp
  moreover have "\<forall>bs. bs \<noteq> [] \<longrightarrow> file_at ?t ([str ''sys''] @ bs) = None"
    by (auto simp: neq_Nil_conv)
  ultimately show ?thesis
    using builtin_directories_unreachable [of sysfs_device_create ?s ?t "[str ''sys'']" "[str ''cpu'']" 0] p by simp
qed

text \<open>
  The search of \<^verbatim>\<open>sysfs\<close> runs over seven entries of a table of six: a name that is in the
  table is found, and any other name reads past the end of the table.
\<close>

theorem finddir_sysfs_overrun:
  "finddir_sysfs node name =
     (if name \<in> set (map (fst \<circ> snd) sys_entries)
      then Some (Some ((sysfs_generic_create name Null_func)\<lparr>v_inode := v_inode node\<rparr>)) else None)"
  by (simp add: finddir_sysfs_def sys_entry_def sys_entries_def upt_rec)

end
