(* ===== verification/Initrd.thy ===== *)
theory Initrd
  imports Vfs
begin

text \<open>
  The initial ramdisk: the host tool that writes the image, \<^verbatim>\<open>src/util/build-initrd.c\<close>, and the
  kernel code that reads it, \<^verbatim>\<open>src/kernel/fs/initrd.c\<close>, which find each other only through the
  layout of two structures of 64 bytes. Both run on little-endian machines. Memory the C code does
  not initialise is an argument: \<open>junk\<close> for the name fields of the headers and for the nodes.
\<close>

section \<open>Words in memory\<close>

definition le32 :: "u32 \<Rightarrow> u8 list" where
  "le32 w = map (\<lambda>k. of_nat (unat w div 256 ^ k mod 256)) [0, 1, 2, 3]"

definition rd32 :: "mem \<Rightarrow> addr \<Rightarrow> u32" where
  "rd32 m p = of_nat (unat (m p) + 256 * unat (m (p + 1)) + 65536 * unat (m (p + 2)) + 16777216 * unat (m (p + 3)))"

definition wr32 :: "addr \<Rightarrow> u32 \<Rightarrow> mem \<Rightarrow> mem" where
  "wr32 p w m = m(p := le32 w ! 0, p + 1 := le32 w ! 1, p + 2 := le32 w ! 2, p + 3 := le32 w ! 3)"

definition rdstr :: "mem \<Rightarrow> addr \<Rightarrow> cstring option" where
  "rdstr m p = map_option (\<lambda>n. map (\<lambda>i. m (p + i)) [0..<n]) (strlen m p)"

section \<open>The tool\<close>

definition sizeof_superheader :: nat where "sizeof_superheader = 64"
definition sizeof_fileheader :: nat where "sizeof_fileheader = 64"

definition superheader :: "nat \<Rightarrow> u8 list" where
  "superheader nheaders =
     str ''INIT'' @ le32 (of_nat nheaders) @ le32 (of_nat (73 + 78 + 73 + 84 + nheaders)) @ replicate 52 0"

text \<open>The name is copied over the uninitialised field, with its terminator.\<close>

definition fileheader :: "u8 list \<Rightarrow> cstring \<Rightarrow> nat \<Rightarrow> nat \<Rightarrow> u8 list" where
  "fileheader junk name off len =
     le32 0xABABCBDC @ (name @ [0] @ drop (length name + 1) junk) @ le32 (of_nat off) @ le32 (of_nat len)"

text \<open>
  The first loop over the arguments: it opens each file for its length and lays the contents out
  one behind the other. A missing file ends the tool; a name of 52 characters or more overruns its field.
\<close>

fun fileheaders :: "(string \<rightharpoonup> u8 list) \<Rightarrow> (nat \<Rightarrow> u8 list) \<Rightarrow> nat \<Rightarrow> nat \<Rightarrow> (string \<times> cstring) list \<Rightarrow> u8 list option" where
  "fileheaders fopen junk i off [] = Some []"
| "fileheaders fopen junk i off ((src, name) # args) = do {
     contents \<leftarrow> fopen src;
     rest \<leftarrow> fileheaders fopen junk (i + 1) (off + length contents) args;
     if 52 \<le> length name then None
     else Some (fileheader (junk i) name off (length contents) @ rest)
   }"

fun file_contents :: "(string \<rightharpoonup> u8 list) \<Rightarrow> (string \<times> cstring) list \<Rightarrow> u8 list option" where
  "file_contents fopen [] = Some []"
| "file_contents fopen ((src, name) # args) = do {
     contents \<leftarrow> fopen src;
     rest \<leftarrow> file_contents fopen args;
     Some (contents @ rest)
   }"

definition build_initrd :: "(string \<rightharpoonup> u8 list) \<Rightarrow> (nat \<Rightarrow> u8 list) \<Rightarrow> (string \<times> cstring) list \<Rightarrow> u8 list option" where
  "build_initrd fopen junk args = do {
     let nheaders = length args;
     let off = sizeof_fileheader * nheaders + sizeof_superheader;
     headers \<leftarrow> fileheaders fopen junk 0 off args;
     contents \<leftarrow> file_contents fopen args;
     Some (superheader nheaders @ headers @ contents)
   }"

section \<open>The kernel\<close>

record initrd =
  initrd_exists :: bool
  initrd_startaddr :: addr
  initrd_endaddr :: addr

definition initrd_set_location :: "addr \<Rightarrow> addr \<Rightarrow> initrd \<Rightarrow> initrd" where
  "initrd_set_location start stop s =
     s\<lparr>initrd_startaddr := start, initrd_endaddr := stop, initrd_exists := True\<rparr>"

text \<open>The whole first word is compared with the first letter, so a valid image does not verify.\<close>

definition initrd_verify :: "mem \<Rightarrow> addr \<Rightarrow> bool" where
  "initrd_verify m p = (rd32 m p = of_char CHR ''I'')"

definition mountpoint :: vnode where
  "mountpoint = zeroed_node\<lparr>v_name := str ''ramdisk0'', v_uid := 0, v_gid := 0, v_permissions := VFS_PERMISSION_READ,
     v_flags := VFS_DIRECTORY OR VFS_MOUNTPOINT, v_readdir := Some Initrd_readdir, v_finddir := Some Initrd_finddir\<rparr>"

definition init_node :: "addr \<Rightarrow> (nat \<Rightarrow> vnode) \<Rightarrow> nat \<Rightarrow> mem \<times> vnode list \<Rightarrow> (mem \<times> vnode list) option" where
  "init_node start junk i s = do {
     let hdr = start + sizeof_superheader + sizeof_fileheader * i;
     let m = wr32 (hdr + 56) (rd32 (fst s) (hdr + 56) + of_nat start) (fst s);
     name \<leftarrow> rdstr m (hdr + 4);
     Some (m, snd s @ [(junk i)\<lparr>v_name := name, v_length := rd32 m (hdr + 60), v_inode := of_nat i, v_flags := VFS_FILE,
       v_read := None, v_write := None, v_readdir := None, v_finddir := None, v_open := None, v_close := None\<rparr>])
   }"

definition initrd_init :: "initrd \<Rightarrow> (nat \<Rightarrow> vnode) \<Rightarrow> mem \<Rightarrow> vfs \<Rightarrow> (vnode option \<times> mem \<times> vfs) option" where
  "initrd_init rd junk m s =
     (if \<not> initrd_exists rd then Some (None, m, s)
      else do {
        let start = initrd_startaddr rd;
        (m', nodes) \<leftarrow> foldM (init_node start junk) [0..<unat (rd32 m (start + 4))] (m, []);
        Some (Some mountpoint, m', s\<lparr>initrd_nodes := nodes\<rparr>)
      })"

section \<open>Bytes at an address\<close>

definition bytes_at :: "mem \<Rightarrow> addr \<Rightarrow> u8 list \<Rightarrow> bool" where
  "bytes_at m p bs \<longleftrightarrow> (\<forall>k < length bs. m (p + k) = bs ! k)"

lemma bytes_at_Nil [simp]: "bytes_at m p []"
  by (simp add: bytes_at_def)

lemma bytes_at_Cons [simp]: "bytes_at m p (b # bs) \<longleftrightarrow> m p = b \<and> bytes_at m (p + 1) bs"
  by (auto simp: bytes_at_def less_Suc_eq_0_disj all_simps)

lemma bytes_at_append [simp]: "bytes_at m p (xs @ ys) \<longleftrightarrow> bytes_at m p xs \<and> bytes_at m (p + length xs) ys"
  by (induction xs arbitrary: p) auto

lemma bytes_at_cong: "bytes_at m p bs \<Longrightarrow> (\<And>k. k < length bs \<Longrightarrow> m' (p + k) = m (p + k)) \<Longrightarrow> bytes_at m' p bs"
  by (simp add: bytes_at_def)

lemma le32_length [simp]: "length (le32 w) = 4"
  by (simp add: le32_def)

lemma rd32_le32:
  assumes "bytes_at m p (le32 w)"
  shows "rd32 m p = w"
proof -
  have b: "unat (of_nat (x mod 256) :: u8) = x mod 256" for x by (simp add: unat_of_nat)
  have w: "unat w < 4294967296" using unsigned_less [of w] by simp
  have "m p = of_nat (unat w mod 256)" "m (p + 1) = of_nat (unat w div 256 mod 256)"
    "m (p + 2) = of_nat (unat w div 65536 mod 256)" "m (p + 3) = of_nat (unat w div 16777216 mod 256)"
    using assms by (simp_all add: le32_def numeral_2_eq_2 numeral_3_eq_3)
  then have "rd32 m p = of_nat (unat w mod 256 + 256 * (unat w div 256 mod 256) + 65536 * (unat w div 65536 mod 256) +
      16777216 * (unat w div 16777216 mod 256))"
    by (simp only: rd32_def b)
  also have "unat w mod 256 + 256 * (unat w div 256 mod 256) + 65536 * (unat w div 65536 mod 256) +
      16777216 * (unat w div 16777216 mod 256) = unat w"
    using w mod_mult2_eq [of "unat w" 256 256] mod_mult2_eq [of "unat w" 65536 256] mod_mult2_eq [of "unat w" 16777216 256]
    by simp
  finally show ?thesis by simp
qed

lemma bytes_at_wr32: "bytes_at (wr32 p w m) p (le32 w)"
  by (simp add: le32_def wr32_def numeral_2_eq_2 numeral_3_eq_3)

lemma wr32_other: "a < p \<or> p + 4 \<le> a \<Longrightarrow> wr32 p w m a = m a"
  by (auto simp: wr32_def)

section \<open>Reading what the tool wrote\<close>

definition len_before :: "(string \<rightharpoonup> u8 list) \<Rightarrow> (string \<times> cstring) list \<Rightarrow> nat \<Rightarrow> nat" where
  "len_before fopen args j = sum_list (map (\<lambda>a. length (the (fopen (fst a)))) (take j args))"

lemma len_before_simps [simp]:
  "len_before fopen args 0 = 0"
  "len_before fopen (a # args) (Suc j) = length (the (fopen (fst a))) + len_before fopen args j"
  by (simp_all add: len_before_def)

definition good_name :: "cstring \<Rightarrow> bool" where
  "good_name name \<longleftrightarrow> 0 \<notin> set name \<and> length name < 52"

lemma rdstr_name:
  assumes "bytes_at m p (name @ [0] @ rest)" and "0 \<notin> set name"
  shows "rdstr m p = Some name"
proof -
  have b: "bytes_at m p name" "m (p + length name) = 0" using assms(1) by simp_all
  then have "cstr m p name" using assms(2) by (auto simp: cstr_iff bytes_at_def in_set_conv_nth)
  then have "strlen m p = Some (length name)" by (rule strlen_cstr)
  moreover have "map (\<lambda>i. m (p + i)) [0..<length name] = name"
    using b(1) by (intro nth_equalityI) (auto simp: bytes_at_def)
  ultimately show ?thesis by (simp add: rdstr_def)
qed

lemma fileheader_parts:
  assumes "bytes_at m hdr (fileheader jk name off len)" and "good_name name" and "length jk = 52"
  shows "bytes_at m (hdr + 4) (name @ [0] @ drop (length name + 1) jk)" and "rd32 m (hdr + 56) = of_nat off"
    and "rd32 m (hdr + 60) = of_nat len"
proof -
  let ?nm = "name @ [0] @ drop (length name + 1) jk"
  have l: "length ?nm = 52" using assms(2,3) by (simp add: good_name_def)
  have b: "bytes_at m hdr (le32 0xABABCBDC @ ?nm @ le32 (of_nat off) @ le32 (of_nat len))"
    using assms(1) by (simp only: fileheader_def)
  have "bytes_at m (hdr + 4) (?nm @ le32 (of_nat off) @ le32 (of_nat len))"
    using b unfolding bytes_at_append [of m hdr] by simp
  then have c: "bytes_at m (hdr + 4) ?nm" "bytes_at m (hdr + 4 + 52) (le32 (of_nat off) @ le32 (of_nat len))"
    unfolding bytes_at_append [of m "hdr + 4" ?nm] l by blast+
  then show "bytes_at m (hdr + 4) ?nm" by blast
  show "rd32 m (hdr + 56) = of_nat off" "rd32 m (hdr + 60) = of_nat len"
    using c(2) by (auto intro!: rd32_le32 simp: add.assoc)
qed

lemma rd32_cong: "(\<And>k. k < 4 \<Longrightarrow> m' (p + k) = m (p + k)) \<Longrightarrow> rd32 m' p = rd32 m p"
proof -
  assume a: "\<And>k. k < 4 \<Longrightarrow> m' (p + k) = m (p + k)"
  show "rd32 m' p = rd32 m p" using a [of 0] a [of 1] a [of 2] a [of 3] by (simp add: rd32_def)
qed

lemma init_node_ok:
  assumes "bytes_at m (start + 64 + 64 * i) (fileheader jk name off len)" and "good_name name" and "length jk = 52"
  shows "\<exists>node. init_node start junk i (m, nodes) =
      Some (wr32 (start + 64 + 64 * i + 56) (of_nat (start + off)) m, nodes @ [node]) \<and>
    v_name node = name \<and> v_length node = of_nat len \<and> v_inode node = of_nat i \<and> v_flags node = VFS_FILE"
proof -
  let ?hdr = "start + 64 + 64 * i"
  let ?m = "wr32 (?hdr + 56) (of_nat (start + off)) m"
  note parts = fileheader_parts [OF assms]
  have "rdstr ?m (?hdr + 4) = Some name"
  proof (rule rdstr_name)
    show "bytes_at ?m (?hdr + 4) (name @ [0] @ drop (length name + 1) jk)"
      using assms(2,3) by (intro bytes_at_cong [OF parts(1)]) (auto intro!: wr32_other simp: good_name_def)
    show "0 \<notin> set name" using assms(2) by (simp add: good_name_def)
  qed
  moreover have "rd32 ?m (?hdr + 60) = of_nat len"
    unfolding parts(3) [symmetric] by (rule rd32_cong) (auto intro!: wr32_other)
  moreover have "rd32 m (?hdr + 56) + of_nat start = of_nat (start + off)" using parts(2) by simp
  ultimately show ?thesis
    by (simp add: init_node_def sizeof_superheader_def sizeof_fileheader_def Let_def del: of_nat_add)
qed

lemma fileheader_length [simp]: "good_name name \<Longrightarrow> length jk = 52 \<Longrightarrow> length (fileheader jk name off len) = 64"
  by (simp add: fileheader_def good_name_def)

lemma fileheaders_length:
  assumes "fileheaders fopen jk i off args = Some hs" and "\<forall>a \<in> set args. good_name (snd a)" and "\<forall>i. length (jk i) = 52"
  shows "length hs = 64 * length args"
  using assms by (induction fopen jk i off args arbitrary: hs rule: fileheaders.induct)
    (auto split: Option.bind_splits if_splits)

lemma file_contents_at:
  assumes "file_contents fopen args = Some cs" and "j < length args" and "bytes_at m p cs"
  shows "\<exists>c. fopen (fst (args ! j)) = Some c \<and> bytes_at m (p + len_before fopen args j) c"
  using assms
proof (induction fopen args arbitrary: cs j p rule: file_contents.induct)
  case (2 fopen src name args)
  then obtain c rest where c: "fopen src = Some c" "file_contents fopen args = Some rest" "cs = c @ rest"
    by (auto split: Option.bind_splits)
  show ?case
  proof (cases j)
    case 0
    with c 2(4) show ?thesis by simp
  next
    case (Suc k)
    with 2(1) [OF c(1,2), of k "p + length c"] 2(3,4) c show ?thesis by (auto simp: add.assoc)
  qed
qed simp

lemma init_loop_ok:
  assumes "fileheaders fopen jk i off args = Some hs" and "bytes_at m (start + 64 + 64 * i) hs"
    and "\<forall>a \<in> set args. good_name (snd a)" and "\<forall>i. length (jk i) = 52"
  shows "\<exists>m' new. foldM (init_node start junk) [i..<i + length args] (m, nodes) = Some (m', nodes @ new) \<and>
    map v_name new = map snd args \<and>
    map v_length new = map (\<lambda>a. of_nat (length (the (fopen (fst a))))) args \<and>
    (\<forall>a. a < start + 64 + 64 * i \<or> start + 64 + 64 * (i + length args) \<le> a \<longrightarrow> m' a = m a) \<and>
    (\<forall>j < length args. rd32 m' (start + 64 + 64 * (i + j) + 56) = of_nat (start + off + len_before fopen args j))"
  using assms
proof (induction args arbitrary: i off hs m nodes)
  case Nil
  then show ?case by (intro exI [of _ m] exI [of _ "[]"]) simp
next
  case (Cons a args)
  obtain src name where a: "a = (src, name)" by (cases a)
  obtain c rest where c: "fopen src = Some c" "fileheaders fopen jk (i + 1) (off + length c) args = Some rest"
    "hs = fileheader (jk i) name off (length c) @ rest"
    using Cons.prems(1) unfolding a by (auto split: Option.bind_splits if_splits)
  have good: "good_name name" "\<forall>a \<in> set args. good_name (snd a)" "length (jk i) = 52"
    using Cons.prems(3,4) a by auto
  let ?hdr = "start + 64 + 64 * i"
  have h: "bytes_at m ?hdr (fileheader (jk i) name off (length c))" "bytes_at m (?hdr + 64) rest"
    using Cons.prems(2) good unfolding c(3) by simp_all
  let ?m = "wr32 (?hdr + 56) (of_nat (start + off)) m"
  obtain node where node: "init_node start junk i (m, nodes) = Some (?m, nodes @ [node])" "v_name node = name"
    "v_length node = of_nat (length c)"
    using init_node_ok [OF h(1) good(1,3)] by blast
  have "bytes_at ?m (?hdr + 64) rest"
    by (rule bytes_at_cong [OF h(2)], rule wr32_other) simp
  moreover have "start + 64 + 64 * (i + 1) = ?hdr + 64" by simp
  ultimately have "bytes_at ?m (start + 64 + 64 * (i + 1)) rest" by (simp only:)
  then obtain m' new where m': "foldM (init_node start junk) [i + 1..<i + 1 + length args] (?m, nodes @ [node]) =
      Some (m', (nodes @ [node]) @ new)" "map v_name new = map snd args"
    "map v_length new = map (\<lambda>a. of_nat (length (the (fopen (fst a))))) args"
    "\<forall>a. a < start + 64 + 64 * (i + 1) \<or> start + 64 + 64 * (i + 1 + length args) \<le> a \<longrightarrow> m' a = ?m a"
    "\<forall>j < length args. rd32 m' (start + 64 + 64 * (i + 1 + j) + 56) = of_nat (start + (off + length c) + len_before fopen args j)"
    using Cons.IH [OF c(2) _ good(2) Cons.prems(4)] by blast
  have "rd32 m' (?hdr + 56) = of_nat (start + off)"
  proof -
    have "rd32 m' (?hdr + 56) = rd32 ?m (?hdr + 56)" using m'(4) by (intro rd32_cong) simp
    then show ?thesis using rd32_le32 [OF bytes_at_wr32] by simp
  qed
  then have offs: "\<forall>j < length (a # args). rd32 m' (start + 64 + 64 * (i + j) + 56) = of_nat (start + off + len_before fopen (a # args) j)"
  proof (intro allI impI)
    fix j
    assume j: "j < length (a # args)"
    show "rd32 m' (start + 64 + 64 * (i + j) + 56) = of_nat (start + off + len_before fopen (a # args) j)"
    proof (cases j)
      case 0
      then show ?thesis using \<open>rd32 m' (?hdr + 56) = of_nat (start + off)\<close> by simp
    next
      case (Suc k)
      have "start + (off + length c) + len_before fopen args k = start + off + len_before fopen (a # args) j"
        using c(1) unfolding a Suc by simp
      moreover have "i + 1 + k = i + j" using Suc by simp
      moreover have "k < length args" using j Suc by simp
      ultimately show ?thesis using m'(5) by metis
    qed
  qed
  have "m' x = m x" if "x < ?hdr \<or> start + 64 + 64 * (i + length (a # args)) \<le> x" for x
  proof -
    have "m' x = ?m x" using m'(4) that by auto
    then show ?thesis using that wr32_other [of x "?hdr + 56"] by auto
  qed
  moreover have "foldM (init_node start junk) [i..<i + length (a # args)] (m, nodes) = Some (m', nodes @ node # new)"
  proof -
    have u: "[i..<i + length (a # args)] = i # [i + 1..<i + 1 + length args]"
      using upt_conv_Cons [of i "i + length (a # args)"] by (simp del: upt_Suc)
    have "nodes @ node # new = (nodes @ [node]) @ new" by simp
    then show ?thesis unfolding u foldM.simps node(1) bind.bind_lunit m'(1) by (simp only:)
  qed
  ultimately show ?case using m'(2,3) node(2,3) c(1) offs unfolding a
    by (intro exI [of _ m'] exI [of _ "node # new"]) simp
qed

lemma initrd_reads:
  assumes "build_initrd fopen jk args = Some img" and "bytes_at m start img" and "start + length img < 4294967296"
    and "\<forall>a \<in> set args. good_name (snd a)" and "\<forall>i. length (jk i) = 52"
  shows "\<exists>m' s'. initrd_init (initrd_set_location start stop rd) junk m s = Some (Some mountpoint, m', s') \<and>
    map v_name (initrd_nodes s') = map snd args \<and> \<not> initrd_verify m start \<and>
    (\<forall>j < length args. \<exists>c. fopen (fst (args ! j)) = Some c \<and> v_length (initrd_nodes s' ! j) = of_nat (length c) \<and>
       bytes_at m' (unat (rd32 m' (start + 64 + 64 * j + 56))) c)"
proof -
  let ?n = "length args"
  obtain hs cs where b: "fileheaders fopen jk 0 (64 * ?n + 64) args = Some hs" "file_contents fopen args = Some cs"
    "img = superheader ?n @ hs @ cs"
    using assms(1) by (auto simp: build_initrd_def Let_def sizeof_fileheader_def sizeof_superheader_def split: Option.bind_splits)
  have hl: "length hs = 64 * ?n" by (rule fileheaders_length [OF b(1) assms(4,5)])
  have sl: "length (superheader ?n) = 64" by (simp add: superheader_def str_def)
  have at: "bytes_at m start (superheader ?n)" "bytes_at m (start + 64 + 64 * 0) hs" "bytes_at m (start + 64 + 64 * ?n) cs"
    using assms(2) unfolding b(3) by (simp_all add: sl hl add.assoc)
  have "rd32 m (start + 4) = of_nat ?n"
  proof (rule rd32_le32)
    have "length (str ''INIT'') = 4" by (simp add: str_def)
    then show "bytes_at m (start + 4) (le32 (of_nat ?n))"
      using at(1) unfolding superheader_def bytes_at_append [of m start "str ''INIT''"] by simp
  qed
  moreover have n: "?n < 4294967296" using assms(3) sl hl unfolding b(3) by simp
  ultimately have cnt: "unat (rd32 m (start + 4)) = ?n" by (simp add: unat_of_nat)
  obtain m' new where L: "foldM (init_node start junk) [0..<?n] (m, []) = Some (m', new)" "map v_name new = map snd args"
    "map v_length new = map (\<lambda>a. of_nat (length (the (fopen (fst a))))) args"
    "\<forall>a. a < start + 64 \<or> start + 64 + 64 * ?n \<le> a \<longrightarrow> m' a = m a"
    "\<forall>j < ?n. rd32 m' (start + 64 + 64 * j + 56) = of_nat (start + (64 * ?n + 64) + len_before fopen args j)"
    using init_loop_ok [OF b(1) at(2) assms(4,5), of junk "[]"] by auto
  have "\<exists>c. fopen (fst (args ! j)) = Some c \<and> v_length (new ! j) = of_nat (length c) \<and>
      bytes_at m' (unat (rd32 m' (start + 64 + 64 * j + 56))) c" if j: "j < ?n" for j
  proof -
    have "bytes_at m' (start + 64 + 64 * ?n) cs" using L(4) by (intro bytes_at_cong [OF at(3)]) auto
    from file_contents_at [OF b(2) j this]
    obtain c where c: "fopen (fst (args ! j)) = Some c" "bytes_at m' (start + 64 + 64 * ?n + len_before fopen args j) c" by blast
    have "len_before fopen args j \<le> length cs"
      using b(2) j
    proof (induction fopen args arbitrary: cs j rule: file_contents.induct)
      case (2 fopen src name args)
      then show ?case by (cases j) (auto split: Option.bind_splits)
    qed simp
    then have "start + (64 * ?n + 64) + len_before fopen args j < 4294967296"
      using assms(3) sl hl unfolding b(3) by simp
    then have "unat (rd32 m' (start + 64 + 64 * j + 56)) = start + 64 + 64 * ?n + len_before fopen args j"
      using L(5) j by (simp add: unat_of_nat del: of_nat_add of_nat_mult)
    moreover have "v_length (new ! j) = of_nat (length c)"
    proof -
      have "length new = ?n" using L(2) by (metis length_map)
      then have "v_length (new ! j) = map v_length new ! j" using j by simp
      also have "\<dots> = of_nat (length c)" using L(3) j c(1) by simp
      finally show ?thesis .
    qed
    ultimately show ?thesis using c by auto
  qed
  moreover have "\<not> initrd_verify m start"
  proof -
    have "m start = 73" "m (start + 1) = 78" "m (start + 2) = 73" "m (start + 3) = 84"
      using at(1) by (simp_all add: superheader_def str_def numeral_2_eq_2 numeral_3_eq_3)
    then show ?thesis by (simp add: initrd_verify_def rd32_def)
  qed
  moreover have "initrd_init (initrd_set_location start stop rd) junk m s = Some (Some mountpoint, m', s\<lparr>initrd_nodes := new\<rparr>)"
    using L(1) cnt by (simp add: initrd_init_def initrd_set_location_def)
  ultimately show ?thesis using L(2) by auto
qed

section \<open>Properties\<close>

text \<open>
  Property C13. The kernel reads the ramdisk that the tool wrote: for an image loaded anywhere, \<^verbatim>\<open>initrd_init\<close>
  creates one node per file, in order, with its name and length, and the offset it leaves in the
  header of the file is the address of the file's contents. (\<^verbatim>\<open>initrd_verify\<close> rejects every such image;
  its result is only reported.)
\<close>

theorem initrd_roundtrip:
  assumes "build_initrd fopen jk args = Some img" and "bytes_at m start img" and "start + length img < 4294967296"
    and "\<forall>a \<in> set args. good_name (snd a)" and "\<forall>i. length (jk i) = 52"
  shows "\<exists>m' s'. initrd_init (initrd_set_location start stop rd) junk m s = Some (Some mountpoint, m', s') \<and>
    map v_name (initrd_nodes s') = map snd args \<and> \<not> initrd_verify m start \<and>
    (\<forall>j < length args. \<exists>c. fopen (fst (args ! j)) = Some c \<and> v_length (initrd_nodes s' ! j) = of_nat (length c) \<and>
       bytes_at m' (unat (rd32 m' (start + 64 + 64 * j + 56))) c)"
  using initrd_reads [OF assms] .

text \<open>An image with one file of two bytes.\<close>

definition sample_image :: "u8 list" where
  "sample_image = superheader 1 @ fileheader (replicate 52 0) (str ''hi'') 128 2 @ [104, 105]"

lemma sample_image_built:
  "build_initrd [''hello.txt'' \<mapsto> [104, 105]] (\<lambda>_. replicate 52 0) [(''hello.txt'', str ''hi'')] = Some sample_image"
  by (simp add: build_initrd_def sample_image_def sizeof_superheader_def sizeof_fileheader_def str_def numeral_2_eq_2)

lemma sample_image_length: "length sample_image = 130"
  by (simp add: sample_image_def superheader_def str_def good_name_def)

theorem initrd_roundtrip_witness:
  "\<exists>m' s'. build_initrd [''hello.txt'' \<mapsto> [104, 105]] (\<lambda>_. replicate 52 0) [(''hello.txt'', str ''hi'')] = Some sample_image \<and>
     initrd_init (initrd_set_location 0x1000 0x2000 \<lparr>initrd_exists = False, initrd_startaddr = 0, initrd_endaddr = 0\<rparr>) (\<lambda>_. zeroed_node)
       (\<lambda>a. if 0x1000 \<le> a \<and> a < 0x1000 + 130 then sample_image ! (a - 0x1000) else 0) vfs_boot = Some (Some mountpoint, m', s') \<and>
     map v_name (initrd_nodes s') = [str ''hi'']"
proof -
  let ?m = "\<lambda>a. if 0x1000 \<le> a \<and> a < 0x1000 + 130 then sample_image ! (a - 0x1000) else 0"
  have "bytes_at ?m 0x1000 sample_image" by (simp add: bytes_at_def sample_image_length)
  from initrd_roundtrip [OF sample_image_built this, of "0x2000" "\<lparr>initrd_exists = False, initrd_startaddr = 0, initrd_endaddr = 0\<rparr>"
      "\<lambda>_. zeroed_node" vfs_boot] sample_image_built sample_image_length
  show ?thesis by (auto simp: good_name_def str_def)
qed

end
