(* ===== verification/Page_Allocator.thy ===== *)
theory Page_Allocator
  imports Lock
begin

text \<open>
  Physical frames and pages of the x86 kernel: the placement allocator
  (\<^verbatim>\<open>src/kernel/arch/x86/lib/placement_malloc.c\<close>), the frame bitmap (\<^verbatim>\<open>page_allocator.c\<close>) and the page
  directory (\<^verbatim>\<open>paging.c\<close>). Numbers of frames and addresses are naturals below \<open>2 ^ 32\<close>; sums that
  may leave that range are under \<open>w32\<close>. The bitmap is the memory behind the pointer \<^verbatim>\<open>frame\<close> (\<open>frame_ptr\<close>), read as
  32 bit words (\<open>frame\<close>); the code never compares an index with the size of the block it allocated.
\<close>

unbundle bit_operations_syntax

record page =
  pg_present :: bool
  pg_rw :: bool
  pg_user :: bool
  pg_accessed :: bool
  pg_dirty :: bool
  pg_unused :: "7 word"
  pg_frame :: "20 word"

text \<open>The kernel's page directory is a map from table indices to tables, a table one from indices to pages.\<close>

record vmm =
  frame_ptr :: addr
  frame :: "nat \<Rightarrow> u32"
  frame_amount :: nat
  mem_end :: nat
  mem_end_aligned :: nat
  placement_address :: nat
  tables :: "nat \<rightharpoonup> (nat \<Rightarrow> page)"
  tablesPhysical :: "nat \<Rightarrow> nat"
  mem_pagefree :: nat
  mem_lastpage :: nat
  mmac_lock :: addr

section \<open>The placement allocator\<close>

definition placement_kmalloc :: "nat \<Rightarrow> vmm \<Rightarrow> nat \<times> vmm" where
  "placement_kmalloc sz s =
     (placement_address s, s\<lparr>placement_address := w32 (placement_address s + sz)\<rparr>)"

definition page_align :: "nat \<Rightarrow> nat" where
  "page_align a = w32 (a div 0x1000 * 0x1000 + 0x1000)"

text \<open>The test \<^verbatim>\<open>placement_address & 0xFFFFF000\<close> asks for a set bit above the offset, not for an offset.\<close>

definition placement_kmalloc_a :: "nat \<Rightarrow> nat \<Rightarrow> vmm \<Rightarrow> nat \<times> vmm" where
  "placement_kmalloc_a sz align s =
     (let tmp = (if align = 1 \<and> placement_address s div 0x1000 \<noteq> 0
                 then page_align (placement_address s) else placement_address s)
      in (tmp, s\<lparr>placement_address := w32 (tmp + sz)\<rparr>))"

definition placement_kmalloc_ap :: "nat \<Rightarrow> nat \<Rightarrow> vmm \<Rightarrow> nat \<times> nat \<times> vmm" where
  "placement_kmalloc_ap sz align s =
     (let tmp = (if align = 1 \<and> placement_address s div 0x1000 \<noteq> 0
                 then page_align (placement_address s) else placement_address s);
          phys = tmp
      in (tmp, phys, s\<lparr>placement_address := w32 (tmp + sz)\<rparr>))"

section \<open>The frame bitmap\<close>

definition INDEX_FROM_BIT :: "nat \<Rightarrow> nat" where
  "INDEX_FROM_BIT b = b div 0x20"

definition OFFSET_FROM_BIT :: "nat \<Rightarrow> nat" where
  "OFFSET_FROM_BIT b = b mod 0x20"

definition pa_frame_amount :: "vmm \<Rightarrow> nat" where
  "pa_frame_amount s = frame_amount s"

definition pa_set_frame :: "nat \<Rightarrow> vmm \<Rightarrow> vmm" where
  "pa_set_frame address s =
     (let frame_addr = address div 0x1000; index = INDEX_FROM_BIT frame_addr; offset = OFFSET_FROM_BIT frame_addr
      in s\<lparr>frame := (frame s)(index := frame s index OR push_bit offset 1)\<rparr>)"

definition pa_clear_frame :: "nat \<Rightarrow> vmm \<Rightarrow> vmm" where
  "pa_clear_frame address s =
     (let frame_addr = address div 0x1000; index = INDEX_FROM_BIT frame_addr; offset = OFFSET_FROM_BIT frame_addr
      in s\<lparr>frame := (frame s)(index := frame s index AND NOT (push_bit offset 1))\<rparr>)"

definition pa_test_frame :: "nat \<Rightarrow> vmm \<Rightarrow> u32" where
  "pa_test_frame address s =
     (let frame_addr = address div 0x1000; index = INDEX_FROM_BIT frame_addr; offset = OFFSET_FROM_BIT frame_addr
      in frame s index AND push_bit offset 1)"

text \<open>The two nested loops of \<^verbatim>\<open>pa_first_frame\<close>.\<close>

definition first_clear_bit :: "u32 \<Rightarrow> nat option" where
  "first_clear_bit w = find (\<lambda>j. w AND push_bit j 1 = 0) [0..<32]"

function first_frame_from :: "vmm \<Rightarrow> nat \<Rightarrow> nat" where
  "first_frame_from s i =
     (if i < INDEX_FROM_BIT (frame_amount s)
      then (if frame s i \<noteq> 0xFFFFFFFF
            then (case first_clear_bit (frame s i) of
                    Some j \<Rightarrow> i * 0x20 + j
                  | None \<Rightarrow> first_frame_from s (i + 1))
            else first_frame_from s (i + 1))
      else 0xFFFFFFFF)"
  by pat_completeness auto
termination
  by (relation "measure (\<lambda>(s, i). INDEX_FROM_BIT (frame_amount s) - i)") auto

declare first_frame_from.simps [simp del]

definition pa_first_frame :: "vmm \<Rightarrow> nat" where
  "pa_first_frame s = first_frame_from s 0"

text \<open>Without a free frame the processor halts with interrupts off: the call does not return.\<close>

definition pa_alloc_frame :: "page \<Rightarrow> nat \<Rightarrow> nat \<Rightarrow> vmm \<Rightarrow> (page \<times> vmm) option" where
  "pa_alloc_frame page klevel rw s =
     (if klevel > 1 then Some (page, s)
      else if pg_frame page \<noteq> 0 then Some (page, s)
      else (let index = pa_first_frame s
            in if index = 0xFFFFFFFF then None
               else Some (page\<lparr>pg_present := True, pg_rw := (rw \<noteq> 0), pg_user := (klevel = 0), pg_frame := of_nat index\<rparr>,
                          pa_set_frame (w32 (index * 0x1000)) s)))"

definition pa_free_frame :: "page \<Rightarrow> vmm \<Rightarrow> page \<times> vmm" where
  "pa_free_frame page s =
     (let ftf = pg_frame page
      in if ftf = 0 then (page, s) else (page\<lparr>pg_frame := 0\<rparr>, pa_clear_frame (unat ftf) s))"

text \<open>
  The bitmap gets a block of as many bytes as it has words, and only these bytes are cleared; \<open>raw\<close>
  is what the memory behind the pointer held before.
\<close>

definition init_page_allocator :: "(nat \<Rightarrow> u32) \<Rightarrow> vmm \<Rightarrow> vmm" where
  "init_page_allocator raw s =
     (let aligned = mem_end s div 0x1000 * 0x1000;
          amount = aligned div 4;
          (p, s1) = placement_kmalloc (INDEX_FROM_BIT amount) (s\<lparr>mem_end_aligned := aligned, frame_amount := amount\<rparr>)
      in s1\<lparr>frame_ptr := p, frame := (\<lambda>i. if i < INDEX_FROM_BIT amount div 4 then 0 else raw i)\<rparr>)"

section \<open>The page directory\<close>

definition zeroed_page :: page where
  "zeroed_page = \<lparr>pg_present = False, pg_rw = False, pg_user = False, pg_accessed = False, pg_dirty = False,
     pg_unused = 0, pg_frame = 0\<rparr>"

text \<open>A page is named by the indices of its table and of its entry.\<close>

definition paging_get_page :: "nat \<Rightarrow> bool \<Rightarrow> vmm \<Rightarrow> (nat \<times> nat) option \<times> vmm" where
  "paging_get_page address mk s =
     (let page = address div 0x1000; table_index = page div 1024; place = (table_index, page mod 1024)
      in case tables s table_index of
           Some t \<Rightarrow> (Some place, s)
         | None \<Rightarrow>
             (if mk
              then (let (t, temp, s1) = placement_kmalloc_ap 4096 1 s
                    in (Some place, s1\<lparr>tables := (tables s1)(table_index \<mapsto> (\<lambda>_. zeroed_page)),
                          tablesPhysical := (tablesPhysical s1)(table_index := unat ((of_nat temp :: u32) OR 0x7))\<rparr>))
              else (None, s)))"

definition page_at :: "nat \<times> nat \<Rightarrow> vmm \<Rightarrow> page option" where
  "page_at place s = map_option (\<lambda>t. t (snd place)) (tables s (fst place))"

definition put_page :: "nat \<times> nat \<Rightarrow> page \<Rightarrow> vmm \<Rightarrow> vmm" where
  "put_page place p s =
     (case tables s (fst place) of
        None \<Rightarrow> s
      | Some t \<Rightarrow> s\<lparr>tables := (tables s)(fst place \<mapsto> t(snd place := p))\<rparr>)"

text \<open>\<^verbatim>\<open>pa_alloc_frame(paging_get_page(address, 1, kernel_directory), kernel, rw)\<close>\<close>

definition alloc_page :: "nat \<Rightarrow> nat \<Rightarrow> nat \<Rightarrow> vmm \<Rightarrow> vmm option" where
  "alloc_page address klevel rw s =
     (case paging_get_page address True s of
        (None, s1) \<Rightarrow> None
      | (Some place, s1) \<Rightarrow> do {
          p \<leftarrow> page_at place s1;
          (p', s2) \<leftarrow> pa_alloc_frame p klevel rw s1;
          Some (put_page place p' s2)
        })"

text \<open>The identity loop of \<^verbatim>\<open>paging_init\<close>: its bound moves with the tables it allocates.\<close>

partial_function (option) identity_loop :: "nat \<Rightarrow> vmm \<Rightarrow> vmm option" where
  "identity_loop i s =
     (if i < placement_address s + 0x1000
      then do { s1 \<leftarrow> alloc_page i 0 0 s; identity_loop (i + 0x1000) s1 }
      else Some s)"

text \<open>\<^verbatim>\<open>paging_init\<close> up to the end of its loop, with the address of the directory; the rest is in \<open>Pc_Start\<close>.\<close>

definition paging_init :: "(nat \<Rightarrow> u32) \<Rightarrow> vmm \<Rightarrow> (nat \<times> vmm) option" where
  "paging_init raw s =
     (let s1 = init_page_allocator raw s;
          (dir, phys, s2) = placement_kmalloc_ap 8196 1 s1
      in map_option (Pair dir) (identity_loop 0 (s2\<lparr>tables := Map.empty, tablesPhysical := (\<lambda>_. 0)\<rparr>)))"

section \<open>The bitmap as a set of frames\<close>

definition used :: "vmm \<Rightarrow> nat \<Rightarrow> bool" where
  "used s f \<longleftrightarrow> bit (frame s (f div 32)) (f mod 32)"

lemma bit_exp32 [simp]: "bit (2 ^ m :: u32) n \<longleftrightarrow> m = n \<and> n < 32"
  by (auto simp: bit_exp_iff)

lemma and_exp_eq_0:
  assumes "j < 32"
  shows "(w :: u32) AND 2 ^ j = 0 \<longleftrightarrow> \<not> bit w j"
proof
  assume "w AND 2 ^ j = 0"
  then have "\<not> bit (w AND 2 ^ j) j" by (metis bit_0_eq bot_apply bot_bool_def)
  then show "\<not> bit w j" using assms by (simp add: bit_and_iff)
next
  assume "\<not> bit w j"
  then show "w AND 2 ^ j = 0" by (intro bit_eqI) (auto simp: bit_and_iff)
qed

lemma div_mod_32_eq: "(f :: nat) div 32 = g div 32 \<and> f mod 32 = g mod 32 \<longleftrightarrow> f = g"
  by (metis div_mult_mod_eq)

lemma pa_test_frame_iff: "pa_test_frame a s \<noteq> 0 \<longleftrightarrow> used s (a div 0x1000)"
  by (simp add: pa_test_frame_def used_def Let_def INDEX_FROM_BIT_def OFFSET_FROM_BIT_def and_exp_eq_0)

lemma used_pa_set_frame [simp]: "used (pa_set_frame a s) g \<longleftrightarrow> g = a div 0x1000 \<or> used s g"
  using div_mod_32_eq [of g "a div 0x1000"]
  by (auto simp: used_def pa_set_frame_def Let_def INDEX_FROM_BIT_def OFFSET_FROM_BIT_def bit_or_iff bit_push_bit_iff bit_1_iff)

lemma used_pa_clear_frame [simp]: "used (pa_clear_frame a s) g \<longleftrightarrow> g \<noteq> a div 0x1000 \<and> used s g"
  using div_mod_32_eq [of g "a div 0x1000"]
  by (auto simp: used_def pa_clear_frame_def Let_def INDEX_FROM_BIT_def OFFSET_FROM_BIT_def bit_and_iff bit_not_iff
      bit_push_bit_iff bit_1_iff)

lemma frame_fields [simp]:
  "frame_amount (pa_set_frame a s) = frame_amount s" "tables (pa_set_frame a s) = tables s"
  "mem_pagefree (pa_set_frame a s) = mem_pagefree s" "mem_lastpage (pa_set_frame a s) = mem_lastpage s"
  "mmac_lock (pa_set_frame a s) = mmac_lock s" "placement_address (pa_set_frame a s) = placement_address s"
  by (simp_all add: pa_set_frame_def Let_def)

text \<open>The contract of a set of numbered slots, and the two updates the allocator makes to it.\<close>

locale slot_set =
  fixes occupy release :: "nat \<Rightarrow> 's \<Rightarrow> 's" and occupied :: "'s \<Rightarrow> nat \<Rightarrow> bool"
  assumes occupied_occupy: "occupied (occupy f s) g \<longleftrightarrow> g = f \<or> occupied s g"
    and occupied_release: "occupied (release f s) g \<longleftrightarrow> g \<noteq> f \<and> occupied s g"
begin

lemma release_occupy: "\<not> occupied s f \<Longrightarrow> occupied (release f (occupy f s)) g \<longleftrightarrow> occupied s g"
  by (auto simp: occupied_occupy occupied_release)

lemma occupied_fold: "occupied (fold occupy fs s) g \<longleftrightarrow> g \<in> set fs \<or> occupied s g"
  by (induction fs arbitrary: s) (auto simp: occupied_occupy)

end

interpretation bitmap: slot_set "\<lambda>f. pa_set_frame (f * 0x1000)" "\<lambda>f. pa_clear_frame (f * 0x1000)" used
  by unfold_locales simp_all

lemma first_clear_bit_Some:
  assumes "first_clear_bit w = Some j"
  shows "j < 32 \<and> \<not> bit w j \<and> (\<forall>k < j. bit w k)"
proof -
  obtain i where i: "i < 32" "[0..<32] ! i = j" "w AND 2 ^ j = 0" "\<forall>k < i. w AND 2 ^ ([0..<32] ! k) \<noteq> 0"
    using assms by (auto simp: first_clear_bit_def find_Some_iff)
  then show ?thesis by (auto simp: and_exp_eq_0)
qed

lemma first_clear_bit_None: "first_clear_bit w = None \<Longrightarrow> \<forall>j < 32. bit w j"
  by (auto simp: first_clear_bit_def find_None_iff and_exp_eq_0)

lemma all_ones: "j < 32 \<Longrightarrow> bit (0xFFFFFFFF :: u32) j"
proof -
  assume j: "j < 32"
  have "(0xFFFFFFFF :: u32) = - 1" by simp
  then show ?thesis using j by (simp only: bit_minus_1_iff) simp
qed

lemma word_full: "\<forall>j < 32. bit (frame s i) j \<Longrightarrow> i * 32 \<le> f \<Longrightarrow> f < i * 32 + 32 \<Longrightarrow> used s f"
proof -
  assume a: "\<forall>j < 32. bit (frame s i) j" "i * 32 \<le> f" "f < i * 32 + 32"
  then have "f div 32 = i" by (simp add: div_nat_eqI)
  then show "used s f" using a(1) by (simp add: used_def)
qed

lemma used_first_eight:
  assumes "frame s = (\<lambda>i. if i = 0 then 0xFF else 0)"
  shows "used s f \<longleftrightarrow> f < 8"
proof -
  have "(0xFF :: u32) = mask 8" by (simp add: mask_eq_exp_minus_1)
  then have m: "bit (0xFF :: u32) j \<longleftrightarrow> j < 8" for j by (simp only: bit_mask_iff) auto
  have "used s f \<longleftrightarrow> f div 32 = 0 \<and> f mod 32 < 8" unfolding used_def assms if_distrib [of bit] if_distribR m by simp
  also have "\<dots> \<longleftrightarrow> f < 8"
  proof (cases "f < 32")
    case False
    then have "f div 32 \<noteq> 0" by (simp add: div_eq_0_iff)
    with False show ?thesis by simp
  qed simp
  finally show ?thesis .
qed

lemma first_frame_from_spec:
  assumes "\<forall>f < i * 32. used s f"
  shows "(\<exists>f < INDEX_FROM_BIT (frame_amount s) * 32. \<not> used s f \<and> (\<forall>g < f. used s g) \<and> first_frame_from s i = f) \<or>
    (\<forall>f < INDEX_FROM_BIT (frame_amount s) * 32. used s f) \<and> first_frame_from s i = 0xFFFFFFFF"
  using assms
proof (induction s i rule: first_frame_from.induct)
  case (1 s i)
  let ?n = "INDEX_FROM_BIT (frame_amount s)"
  have next_ok: "?case" if full: "\<forall>j < 32. bit (frame s i) j" and i: "i < ?n"
    and eq: "first_frame_from s i = first_frame_from s (i + 1)"
    and ih: "\<forall>f < (i + 1) * 32. used s f \<Longrightarrow>
      (\<exists>f < ?n * 32. \<not> used s f \<and> (\<forall>g < f. used s g) \<and> first_frame_from s (i + 1) = f) \<or>
      (\<forall>f < ?n * 32. used s f) \<and> first_frame_from s (i + 1) = 0xFFFFFFFF"
  proof -
    have "used s f" if "f < (i + 1) * 32" for f
    proof (cases "f < i * 32")
      case True
      then show ?thesis using "1.prems" by blast
    next
      case False
      then show ?thesis using word_full [OF full, of f] that by simp
    qed
    with ih show ?thesis unfolding eq by blast
  qed
  consider "\<not> i < ?n" | "i < ?n" "frame s i = 0xFFFFFFFF"
    | "i < ?n" "frame s i \<noteq> 0xFFFFFFFF" "first_clear_bit (frame s i) = None"
    | j where "i < ?n" "frame s i \<noteq> 0xFFFFFFFF" "first_clear_bit (frame s i) = Some j" by blast
  then show ?case
  proof cases
    case 1
    then show ?thesis using "1.prems" by (auto simp: first_frame_from.simps)
  next
    case 2
    show ?thesis
      by (rule next_ok) (use 2 all_ones "1.IH"(2) in \<open>auto simp: first_frame_from.simps [of s i]\<close>)
  next
    case 3
    show ?thesis
      by (rule next_ok) (use 3 first_clear_bit_None "1.IH"(1) in \<open>auto simp: first_frame_from.simps [of s i]\<close>)
  next
    case 4
    let ?f = "i * 32 + j"
    have j: "j < 32" "\<not> bit (frame s i) j" "\<forall>k < j. bit (frame s i) k" using first_clear_bit_Some [OF 4(3)] by auto
    have "used s g" if "g < ?f" for g
    proof (cases "g < i * 32")
      case False
      then have d: "g div 32 = i" using that j(1) by (intro div_nat_eqI) auto
      then have "g mod 32 < j" using that div_mult_mod_eq [of g 32] by simp
      then show ?thesis using j(3) d by (simp add: used_def)
    qed (use "1.prems" in blast)
    moreover have "\<not> used s ?f" using j(1,2) by (simp add: used_def)
    moreover have "?f < ?n * 32" using 4(1) j(1) by simp
    moreover have "first_frame_from s i = ?f" using 4 by (simp add: first_frame_from.simps [of s i])
    ultimately show ?thesis by blast
  qed
qed

lemma pa_first_frame_eq:
  assumes "f < INDEX_FROM_BIT (frame_amount s) * 32" and "\<not> used s f" and "\<forall>g < f. used s g"
  shows "pa_first_frame s = f"
  using first_frame_from_spec [of 0 s] assms unfolding pa_first_frame_def
  by simp (metis nat_neq_iff)

section \<open>The identity map\<close>

text \<open>
  After \<open>k\<close> rounds of the loop: the first \<open>k\<close> frames are taken, the first \<open>k\<close> entries of the first table
  hold them in order, and the placement address stays at \<open>A\<close>.
\<close>

definition mapped :: "nat \<Rightarrow> nat \<Rightarrow> vmm \<Rightarrow> bool" where
  "mapped A k s \<longleftrightarrow> placement_address s = A \<and> 1024 \<le> INDEX_FROM_BIT (frame_amount s) * 32 \<and>
     (\<forall>f < 0x100000. used s f \<longleftrightarrow> f < k) \<and>
     (\<exists>t. tables s 0 = Some t \<and> (\<forall>j < k. pg_present (t j) \<and> pg_frame (t j) = of_nat j) \<and> (\<forall>j \<ge> k. t j = zeroed_page))"

text \<open>What filling the entries of a table leaves alone.\<close>

definition frozen :: "vmm \<Rightarrow> nat set \<times> (nat \<Rightarrow> nat) \<times> nat \<times> nat \<times> addr \<times> addr" where
  "frozen s = (dom (tables s), tablesPhysical s, frame_amount s, mem_pagefree s, mmac_lock s, frame_ptr s)"

lemma alloc_page_mapped:
  assumes "mapped A k s" and "k < 1024"
  shows "\<exists>s'. alloc_page (0x1000 * k) 0 0 s = Some s' \<and> mapped A (Suc k) s' \<and> frozen s' = frozen s"
proof -
  obtain t where t: "tables s 0 = Some t" "\<forall>j < k. pg_present (t j) \<and> pg_frame (t j) = of_nat j" "\<forall>j \<ge> k. t j = zeroed_page"
    using assms(1) by (auto simp: mapped_def)
  have get: "paging_get_page (0x1000 * k) True s = (Some (0, k), s)"
    using t(1) assms(2) by (simp add: paging_get_page_def Let_def)
  have first: "pa_first_frame s = k"
    using assms by (intro pa_first_frame_eq) (auto simp: mapped_def)
  let ?p = "zeroed_page\<lparr>pg_present := True, pg_rw := False, pg_user := True, pg_frame := of_nat k\<rparr>"
  have al: "pa_alloc_frame zeroed_page 0 0 s = Some (?p, pa_set_frame (k * 0x1000) s)"
    using assms(2) by (simp add: pa_alloc_frame_def first Let_def w32_simps zeroed_page_def)
  have "alloc_page (0x1000 * k) 0 0 s = Some (put_page (0, k) ?p (pa_set_frame (k * 0x1000) s))"
    using get al t by (simp add: alloc_page_def page_at_def)
  moreover have "mapped A (Suc k) (put_page (0, k) ?p (pa_set_frame (k * 0x1000) s))"
  proof -
    have u: "used (put_page (0, k) ?p (pa_set_frame (k * 0x1000) s)) f \<longleftrightarrow> f < Suc k" if "f < 0x100000" for f
      using that assms(1) t(1) used_pa_set_frame [of "k * 0x1000" s f] by (auto simp: mapped_def put_page_def used_def)
    show ?thesis
      unfolding mapped_def using u assms(1) t
      by (auto simp: mapped_def put_page_def less_Suc_eq)
  qed
  moreover have "frozen (put_page (0, k) ?p (pa_set_frame (k * 0x1000) s)) = frozen s"
    using t(1) by (auto simp: frozen_def put_page_def pa_set_frame_def Let_def)
  ultimately show ?thesis by blast
qed

lemma identity_loop_mapped:
  assumes "mapped A k s" and "A + 0x1000 \<le> 0x400000" and "0x1000 * k < A + 0x1000 + 0x1000"
  shows "\<exists>s' k'. identity_loop (0x1000 * k) s = Some s' \<and> mapped A k' s' \<and> A + 0x1000 \<le> 0x1000 * k' \<and>
    0x1000 * k' < A + 0x1000 + 0x1000 \<and> frozen s' = frozen s"
  using assms
proof (induction "0x500 - k" arbitrary: k s rule: less_induct)
  case less
  show ?case
  proof (cases "0x1000 * k < A + 0x1000")
    case True
    then have k: "k < 1024" using less.prems(2) by simp
    obtain s1 where s1: "alloc_page (0x1000 * k) 0 0 s = Some s1" "mapped A (Suc k) s1" "frozen s1 = frozen s"
      using alloc_page_mapped [OF less.prems(1) k] by blast
    have "identity_loop (0x1000 * k) s = identity_loop (0x1000 * Suc k) s1"
      using True s1(1) less.prems(1) by (subst identity_loop.simps) (simp add: mapped_def add.commute)
    moreover have "0x500 - Suc k < 0x500 - k" using k by simp
    ultimately show ?thesis using less.hyps [of "Suc k" s1] s1(2,3) True less.prems(2) by simp
  next
    case False
    then have "identity_loop (0x1000 * k) s = Some s"
      using less.prems(1) by (subst identity_loop.simps) (simp add: mapped_def)
    then show ?thesis using less.prems(1,3) False by (intro exI [of _ s] exI [of _ k]) simp
  qed
qed

lemma alloc_first_page:
  assumes "tables s = Map.empty" and "\<forall>f < 0x100000. \<not> used s f" and "1024 \<le> INDEX_FROM_BIT (frame_amount s) * 32"
  shows "\<exists>s'. alloc_page 0 0 0 s = Some s' \<and> mapped (placement_address (snd (snd (placement_kmalloc_ap 4096 1 s)))) 1 s' \<and>
    frozen s' = ({0}, (tablesPhysical s)(0 := unat ((of_nat (fst (placement_kmalloc_ap 4096 1 s)) :: u32) OR 0x7)),
      frame_amount s, mem_pagefree s, mmac_lock s, frame_ptr s)"
proof -
  obtain t temp s1 where p: "placement_kmalloc_ap 4096 1 s = (t, temp, s1)" by (cases "placement_kmalloc_ap 4096 1 s")
  have s1: "tables s1 = Map.empty" "frame s1 = frame s" "frame_amount s1 = frame_amount s"
    using p assms(1) by (auto simp: placement_kmalloc_ap_def Let_def)
  let ?s2 = "s1\<lparr>tables := (tables s1)(0 \<mapsto> (\<lambda>_. zeroed_page)),
    tablesPhysical := (tablesPhysical s1)(0 := unat ((of_nat temp :: u32) OR 0x7))\<rparr>"
  have m: "mapped (placement_address s1) 0 ?s2"
    using s1 assms by (auto simp: mapped_def used_def)
  have a: "alloc_page 0 0 0 s = alloc_page (0x1000 * 0) 0 0 ?s2"
    using p assms(1) by (simp add: alloc_page_def paging_get_page_def Let_def)
  have "temp = t" "tablesPhysical s1 = tablesPhysical s" "mem_pagefree s1 = mem_pagefree s" "mmac_lock s1 = mmac_lock s" "frame_ptr s1 = frame_ptr s"
    using p by (auto simp: placement_kmalloc_ap_def Let_def)
  then have "frozen ?s2 = ({0}, (tablesPhysical s)(0 := unat ((of_nat (fst (t, temp, s1)) :: u32) OR 0x7)),
      frame_amount s, mem_pagefree s, mmac_lock s, frame_ptr s)"
    using s1 by (simp add: frozen_def)
  with alloc_page_mapped [OF m] a p show ?thesis by auto
qed

section \<open>Properties\<close>

text \<open>
  Property C14. \<^verbatim>\<open>pa_alloc_frame\<close> for every state of the bitmap: with all its frames in use the processor halts; otherwise the least
  free frame \<open>f\<close> is found, the page gets the lower twenty bits of its number and is present, and the frame of these bits
  is marked, with every other frame unchanged. When a frame of the first four gigabytes is free these bits are
  \<open>f\<close> itself, so the frame given was not in use and is not handed out twice; behind that the frames of the bitmap do not fit the
  page any more, and one already in use is given out again.
\<close>

theorem pa_alloc_frame_fresh:
  assumes "pg_frame pg = 0" and "klevel \<le> 1" and "frame_amount s < 2 ^ 32"
  shows "(\<exists>f < INDEX_FROM_BIT (frame_amount s) * 32. \<not> used s f \<and> (\<forall>g < f. used s g) \<and>
      (\<exists>pg' s'. pa_alloc_frame pg klevel rw s = Some (pg', s') \<and> unat (pg_frame pg') = f mod 2 ^ 20 \<and> pg_present pg' \<and>
        (\<forall>g. used s' g \<longleftrightarrow> g = f mod 2 ^ 20 \<or> used s g) \<and>
        ((\<exists>g < 2 ^ 20. \<not> used s g) \<longrightarrow> unat (pg_frame pg') = f) \<and>
        ((\<forall>g < 2 ^ 20. used s g) \<longrightarrow> used s (unat (pg_frame pg'))))) \<or>
    (\<forall>f < INDEX_FROM_BIT (frame_amount s) * 32. used s f) \<and> pa_alloc_frame pg klevel rw s = None"
proof (cases "\<forall>f < INDEX_FROM_BIT (frame_amount s) * 32. used s f")
  case True
  then show ?thesis
    using first_frame_from_spec [of 0 s] assms(1,2) by (auto simp: pa_alloc_frame_def pa_first_frame_def)
next
  case False
  then obtain f where f: "f < INDEX_FROM_BIT (frame_amount s) * 32" "\<not> used s f" "\<forall>g < f. used s g" "pa_first_frame s = f"
    using first_frame_from_spec [of 0 s] unfolding pa_first_frame_def by auto
  have "INDEX_FROM_BIT (frame_amount s) * 32 \<le> frame_amount s" by (simp add: INDEX_FROM_BIT_def)
  moreover have "frame_amount s < 4294967296" using assms(3) by simp
  ultimately have nf: "f \<noteq> 0xFFFFFFFF" using f(1) by linarith
  let ?pg = "pg\<lparr>pg_present := True, pg_rw := (rw \<noteq> 0), pg_user := (klevel = 0), pg_frame := of_nat f\<rparr>"
  let ?s = "pa_set_frame (w32 (f * 0x1000)) s"
  have a: "pa_alloc_frame pg klevel rw s = Some (?pg, ?s)"
    using assms(1,2) f(4) nf by (simp add: pa_alloc_frame_def Let_def)
  have n: "unat (of_nat f :: 20 word) = f mod 2 ^ 20" by (simp add: unat_of_nat)
  have "w32 (f * 0x1000) div 0x1000 = f mod 2 ^ 20"
    using mult_mod_left [of f "2 ^ 20" "0x1000"] by (simp add: w32_def)
  then have u: "\<forall>g. used ?s g \<longleftrightarrow> g = f mod 2 ^ 20 \<or> used s g" by simp
  have lt: "f < 2 ^ 20" if ex: "\<exists>g < 2 ^ 20. \<not> used s g"
  proof -
    obtain g where g: "g < 2 ^ 20" "\<not> used s g" using ex by blast
    then have "\<not> g < f" using f(3) by blast
    with g(1) show ?thesis by linarith
  qed
  have again: "used s (f mod 2 ^ 20)" if "\<forall>g < 2 ^ 20. used s g"
    using that by (meson mod_less_divisor zero_less_numeral zero_less_power)
  from f(1-3) a n u lt again show ?thesis
    by (intro disjI1 exI [of _ f] conjI exI [of _ ?pg] exI [of _ ?s]) simp_all
qed

text \<open>The bitmap as the kernel sets it up, with the first eight frames in use.\<close>

theorem pa_alloc_frame_fresh_witness:
  "\<exists>pg' s'. pa_alloc_frame zeroed_page 0 1
      \<lparr>frame_ptr = 0x110000, frame = (\<lambda>i. if i = 0 then 0xFF else 0), frame_amount = 62914560, mem_end = 0xF000000,
        mem_end_aligned = 0xF000000, placement_address = 0x2F0000, tables = Map.empty, tablesPhysical = (\<lambda>_. 0),
        mem_pagefree = 0x1000000, mem_lastpage = 0, mmac_lock = 0\<rparr>
      = Some (pg', s') \<and> pg_frame pg' = 8 \<and> used s' 8 \<and> \<not> used s' 9"
proof -
  define s where "s = \<lparr>frame_ptr = 0x110000, frame = (\<lambda>i :: nat. if i = 0 then 0xFF else 0 :: u32), frame_amount = 62914560, mem_end = 0xF000000,
        mem_end_aligned = 0xF000000, placement_address = 0x2F0000, tables = Map.empty, tablesPhysical = (\<lambda>_. 0),
        mem_pagefree = 0x1000000, mem_lastpage = 0, mmac_lock = 0\<rparr>"
  have e: "used s f \<longleftrightarrow> f < 8" for f by (rule used_first_eight) (simp add: s_def)
  have u: "used s f" if "f < 8" for f using that e by simp
  have nu: "\<not> used s 8" "\<not> used s 9" using e [of 8] e [of 9] by simp_all
  have pg: "pg_frame zeroed_page = 0" "(0 :: nat) \<le> 1" "frame_amount s < 2 ^ 32" by (simp_all add: zeroed_page_def s_def)
  have "8 < INDEX_FROM_BIT (frame_amount s) * 32" by (simp add: INDEX_FROM_BIT_def s_def)
  then obtain f pg' s' where f: "\<not> used s f" "\<forall>g < f. used s g" "pa_alloc_frame zeroed_page 0 1 s = Some (pg', s')"
      "\<forall>g. used s' g \<longleftrightarrow> g = f mod 2 ^ 20 \<or> used s g" "unat (pg_frame pg') = f mod 2 ^ 20"
    using pa_alloc_frame_fresh [of zeroed_page 0 s 1, OF pg] nu(1) by blast
  have "\<not> f < 8" "\<not> 8 < f" using f(1,2) nu(1) u by blast+
  then have f8: "f = 8" by simp
  then have "unat (pg_frame pg') = unat (8 :: 20 word)" using f(5) by simp
  then have "pg_frame pg' = 8" by (simp only: word_unat_eq_iff)
  moreover have "used s' 8" "\<not> used s' 9" using f(4) nu(2) f8 by auto
  ultimately show ?thesis using f(3) unfolding s_def by blast
qed

text \<open>
  \<^verbatim>\<open>pa_free_frame\<close> frees the wrong frame: it passes the number of the frame where an address is
  expected. The frame of the page stays in use for ever, and the one whose number is the quotient
  by the page size, which may belong to another page, becomes free.
\<close>

theorem pa_free_frame_wrong_frame:
  assumes "pg_frame pg \<noteq> 0" and "used s (unat (pg_frame pg))"
  shows "used (snd (pa_free_frame pg s)) (unat (pg_frame pg)) \<and>
    \<not> used (snd (pa_free_frame pg s)) (unat (pg_frame pg) div 0x1000)"
proof -
  have "0 < unat (pg_frame pg)" using assms(1) by (simp add: unat_gt_0)
  then have "unat (pg_frame pg) \<noteq> unat (pg_frame pg) div 0x1000" by simp
  then show ?thesis using assms by (simp add: pa_free_frame_def Let_def)
qed

theorem pa_free_frame_wrong_frame_witness:
  "\<exists>s. used s 0 \<and> used s 7 \<and> used (snd (pa_free_frame (zeroed_page\<lparr>pg_frame := 7\<rparr>) s)) 7 \<and>
     \<not> used (snd (pa_free_frame (zeroed_page\<lparr>pg_frame := 7\<rparr>) s)) 0"
proof -
  let ?s = "\<lparr>frame_ptr = 0, frame = (\<lambda>i. 0xFF), frame_amount = 128, mem_end = 0, mem_end_aligned = 0,
        placement_address = 0, tables = Map.empty, tablesPhysical = (\<lambda>_. 0), mem_pagefree = 0, mem_lastpage = 0, mmac_lock = 0\<rparr>"
  have "used ?s 0" "used ?s 7" by (simp_all add: used_def)
  with pa_free_frame_wrong_frame [of "zeroed_page\<lparr>pg_frame := 7\<rparr>" ?s] show ?thesis by (intro exI [of _ ?s]) simp
qed

text \<open>
  The identity loop of \<^verbatim>\<open>paging_init\<close> ends, although the tables it allocates move its own bound,
  and it maps every page up to the placement address to the frame of the same number; this holds
  when the kernel and its early data end below four megabytes.
\<close>

theorem paging_identity_mapped:
  assumes "tables s = Map.empty" and "\<forall>f < 0x100000. \<not> used s f" and "1024 \<le> INDEX_FROM_BIT (frame_amount s) * 32"
    and "placement_address s \<le> 0x3FD000"
  shows "\<exists>s' t. identity_loop 0 s = Some s' \<and> tables s' 0 = Some t \<and>
    (\<forall>a < placement_address s' + 0x1000. pg_present (t (a div 0x1000)) \<and> pg_frame (t (a div 0x1000)) = of_nat (a div 0x1000))"
proof -
  let ?A = "placement_address (snd (snd (placement_kmalloc_ap 4096 1 s)))"
  have A: "?A + 0x1000 \<le> 0x400000"
    using assms(4) w32_le [of "placement_address s div 4096 * 4096 + 4096"]
    by (auto simp: placement_kmalloc_ap_def Let_def page_align_def w32_def)
  obtain s1 where s1: "alloc_page 0 0 0 s = Some s1" "mapped ?A 1 s1" using alloc_first_page [OF assms(1-3)] by blast
  have "identity_loop 0 s = identity_loop (0x1000 * 1) s1"
    using s1(1) by (subst identity_loop.simps) simp
  moreover obtain s' k where k: "identity_loop (0x1000 * 1) s1 = Some s'" "mapped ?A k s'" "?A + 0x1000 \<le> 0x1000 * k"
    using identity_loop_mapped [OF s1(2) A] by auto
  moreover obtain t where "tables s' 0 = Some t" "\<forall>j < k. pg_present (t j) \<and> pg_frame (t j) = of_nat j"
    using k(2) by (auto simp: mapped_def)
  moreover have "a div 0x1000 < k" if "a < placement_address s' + 0x1000" for a
    using that k(2,3) by (simp add: mapped_def div_less_iff_less_mult)
  ultimately show ?thesis by auto
qed

text \<open>
  The bitmap is allocated four times too small: the bits of the upper three quarters of the frames
  lie behind the block that \<^verbatim>\<open>init_page_allocator\<close> reserved, in memory that is handed out again.
\<close>

theorem frame_bitmap_too_small:
  assumes "frame_amount (init_page_allocator raw s) div 4 \<le> f"
  shows "placement_address (init_page_allocator raw s) \<le> placement_address s + 4 * INDEX_FROM_BIT f"
proof -
  let ?m = "mem_end s div 0x1000"
  have amt: "frame_amount (init_page_allocator raw s) = ?m * 1024"
    by (simp add: init_page_allocator_def Let_def placement_kmalloc_def)
  then have "?m * 8 \<le> f div 32" using assms(1) by simp
  moreover have "placement_address (init_page_allocator raw s) = w32 (placement_address s + 32 * ?m)"
    by (simp add: init_page_allocator_def Let_def placement_kmalloc_def INDEX_FROM_BIT_def)
  ultimately show ?thesis using w32_le [of "placement_address s + 32 * ?m"] by (simp add: INDEX_FROM_BIT_def)
qed

theorem frame_bitmap_too_small_witness:
  "\<exists>s. frame_amount (init_page_allocator (\<lambda>_. 0) s) = 62914560 \<and>
     placement_address (init_page_allocator (\<lambda>_. 0) s) \<le> 0x100000 + 4 * INDEX_FROM_BIT 20000000"
proof -
  let ?s = "\<lparr>frame_ptr = 0, frame = (\<lambda>_. 0), frame_amount = 0, mem_end = 0xF000000, mem_end_aligned = 0, placement_address = 0x100000,
     tables = Map.empty, tablesPhysical = (\<lambda>_. 0), mem_pagefree = 0, mem_lastpage = 0, mmac_lock = 0\<rparr>"
  have a: "frame_amount (init_page_allocator (\<lambda>_. 0) ?s) = 62914560"
    by (simp add: init_page_allocator_def Let_def placement_kmalloc_def)
  with frame_bitmap_too_small [of "\<lambda>_. 0" ?s 20000000] show ?thesis by (intro exI [of _ ?s]) simp
qed

theorem paging_identity_mapped_witness:
  "\<exists>s' t. identity_loop 0 \<lparr>frame_ptr = 0, frame = (\<lambda>_. 0), frame_amount = 62914560, mem_end = 0xF000000, mem_end_aligned = 0xF000000,
     placement_address = 0x2F0000, tables = Map.empty, tablesPhysical = (\<lambda>_. 0), mem_pagefree = 0x1000000,
     mem_lastpage = 0, mmac_lock = 0\<rparr> = Some s' \<and> tables s' 0 = Some t \<and> pg_frame (t 5) = 5"
proof -
  let ?s = "\<lparr>frame_ptr = 0, frame = (\<lambda>_. 0), frame_amount = 62914560, mem_end = 0xF000000, mem_end_aligned = 0xF000000,
     placement_address = 0x2F0000, tables = Map.empty, tablesPhysical = (\<lambda>_. 0), mem_pagefree = 0x1000000,
     mem_lastpage = 0, mmac_lock = 0\<rparr>"
  obtain A s1 where s1: "alloc_page 0 0 0 ?s = Some s1" "mapped A 1 s1" "A = 0x2F2000"
    using alloc_first_page [of ?s] by (auto simp: used_def INDEX_FROM_BIT_def placement_kmalloc_ap_def page_align_def w32_simps)
  have "\<exists>s' t. identity_loop 0 ?s = Some s' \<and> tables s' 0 = Some t \<and>
    (\<forall>a < placement_address s' + 0x1000. pg_present (t (a div 0x1000)) \<and> pg_frame (t (a div 0x1000)) = of_nat (a div 0x1000))"
    by (rule paging_identity_mapped) (simp_all add: used_def INDEX_FROM_BIT_def)
  then obtain s' t where st: "identity_loop 0 ?s = Some s'" "tables s' 0 = Some t"
    "\<forall>a < placement_address s' + 0x1000. pg_present (t (a div 0x1000)) \<and> pg_frame (t (a div 0x1000)) = of_nat (a div 0x1000)"
    by blast
  have "identity_loop 0 ?s = identity_loop (0x1000 * 1) s1" using s1(1) by (subst identity_loop.simps) simp
  then have "placement_address s' = A"
    using identity_loop_mapped [OF s1(2)] s1(3) st(1) by (auto simp: mapped_def)
  then have "0x5000 < placement_address s' + 0x1000" using s1(3) by simp
  then have "pg_frame (t (0x5000 div 0x1000)) = of_nat (0x5000 div 0x1000)" using st(3) by blast
  then show ?thesis using st by auto
qed

end
