(* ===== verification/X86_Memory.thy ===== *)
theory X86_Memory
  imports Page_Allocator
begin

text \<open>
  The page provider of the x86 kernel, \<^verbatim>\<open>src/kernel/arch/x86/memory.c\<close>, on the frames and pages of
  \<open>Page_Allocator\<close>. \<^verbatim>\<open>INDEX_FROM_BIT(pos + j)\<close> is a macro without parentheses around its argument
  and expands to \<^verbatim>\<open>pos + j / 0x20\<close>; the scan is modelled as it expands.
\<close>

partial_function (option) mult_scan :: "nat \<Rightarrow> vmm \<Rightarrow> nat \<Rightarrow> nat option option" where
  "mult_scan pages s i =
     (if i < pa_frame_amount s
      then (let pos = w32 (i + mem_lastpage s) mod pa_frame_amount s
            in if w32 (pos + pages) > pa_frame_amount s then mult_scan pages s (i + pages - 1)
               else (case find (\<lambda>j. pa_test_frame (pos + j div 0x20) s \<noteq> 0) [0..<pages] of
                       None \<Rightarrow> Some (Some pos)
                     | Some j \<Rightarrow> mult_scan pages s (i + j + 1)))
      else Some None)"

definition memory_mult_alloc_pages :: "nat \<Rightarrow> vmm \<Rightarrow> (nat \<times> vmm) option" where
  "memory_mult_alloc_pages pages s =
     (if pa_frame_amount s < mem_pagefree s then Some (NULL, s)
      else do {
        found \<leftarrow> mult_scan pages s 0;
        case found of
          None \<Rightarrow> Some (NULL, s)
        | Some block \<Rightarrow> do {
            s1 \<leftarrow> foldM (\<lambda>i. alloc_page (block + i) 0 0) [0..<pages] s;
            Some (block, s1\<lparr>mem_lastpage := w32 (block + pages)\<rparr>)
          }
      })"

text \<open>The argument of \<^verbatim>\<open>memallocp\<close> is an \<^verbatim>\<open>int\<close>; when no page is found the kernel halts.\<close>

definition memallocp :: "int \<Rightarrow> vmm \<Rightarrow> (nat \<times> vmm) option" where
  "memallocp pages s =
     (if pages \<le> 0 then Some (0, s)
      else do {
        mutex_lock (mmac_lock s);
        (ptr, s1) \<leftarrow> memory_mult_alloc_pages (nat pages) s;
        if ptr = NULL then None
        else do {
          mutex_unlock (mmac_lock s1);
          Some (ptr, s1)
        }
      })"

definition free_page_at :: "nat \<Rightarrow> vmm \<Rightarrow> vmm option" where
  "free_page_at blk s =
     (case paging_get_page blk True s of
        (None, s1) \<Rightarrow> None
      | (Some place, s1) \<Rightarrow> do {
          p \<leftarrow> page_at place s1;
          let (p', s2) = pa_free_frame p s1;
          Some (put_page place p' s2)
        })"

definition memory_dealloc_pages :: "int \<Rightarrow> vmm \<Rightarrow> vmm option" where
  "memory_dealloc_pages pages s =
     (if pages \<le> 0 then Some s
      else do {
        mutex_lock (mmac_lock s);
        s1 \<leftarrow> foldM (\<lambda>i. free_page_at (sub32 (mem_lastpage s) i)) [0..<nat pages] s;
        mutex_unlock (mmac_lock s1);
        Some (s1\<lparr>mem_lastpage := w32 (pa_first_frame s1 * 0x1000)\<rparr>)
      })"

text \<open>\<^verbatim>\<open>memory_init\<close> without \<^verbatim>\<open>memman_init\<close>, which works on a state of its own.\<close>

definition memory_init :: "vmm \<Rightarrow> vmm option" where
  "memory_init s = do {
     mutex_init (mmac_lock s);
     Some (s\<lparr>mem_lastpage := w32 (pa_first_frame s * 0x1000)\<rparr>)
   }"

definition sbrk :: "nat \<Rightarrow> vmm \<Rightarrow> (nat \<times> vmm) option" where
  "sbrk amount s =
     (if amount = 0 then Some (mem_lastpage s, s)
      else (let actual_amount = amount div 0x1000
            in memallocp (int (if actual_amount = 0 then 1 else actual_amount)) s))"

definition brk :: "nat \<Rightarrow> int" where
  "brk end_data_segment = 0"

section \<open>Two consecutive requests\<close>

text \<open>
  The kernel after \<^verbatim>\<open>memory_init\<close>: the first \<open>k\<close> frames are in use, the search starts at the page of
  frame \<open>k\<close>, and the page directory has an empty entry for this page and the next.
\<close>

definition ready :: "nat \<Rightarrow> vmm \<Rightarrow> bool" where
  "ready k s \<longleftrightarrow> mmac_lock s = NULL \<and> mem_pagefree s \<le> frame_amount s \<and> frame_amount s < 2147483648 \<and>
     0 < k \<and> k + 1 < 2 ^ 20 \<and> (k + 2) * 0x1000 \<le> frame_amount s \<and> mem_lastpage s = k * 0x1000 \<and>
     (\<forall>f. used s f \<longleftrightarrow> f < k) \<and> page_at (k div 1024, k mod 1024) s = Some zeroed_page \<and>
     page_at ((k + 1) div 1024, (k + 1) mod 1024) s = Some zeroed_page"

lemma used_lastpage [simp]: "used (s\<lparr>mem_lastpage := x\<rparr>) f = used s f"
  by (simp add: used_def)

lemma used_put_page [simp]: "used (put_page place p s) f = used s f"
  by (simp add: used_def put_page_def split: option.splits)

lemma put_page_fields [simp]:
  "mmac_lock (put_page place p s) = mmac_lock s" "mem_pagefree (put_page place p s) = mem_pagefree s"
  "frame_amount (put_page place p s) = frame_amount s" "mem_lastpage (put_page place p s) = mem_lastpage s"
  by (simp_all add: put_page_def split: option.splits)

lemma page_at_put_page:
  "page_at place s = Some q \<Longrightarrow> page_at place' (put_page place p s) = (if place' = place then Some p else page_at place' s)"
  by (cases place; cases place') (auto simp: page_at_def put_page_def split: option.splits)

lemma page_at_set_frame [simp]: "page_at place (pa_set_frame a s) = page_at place s"
  by (simp add: page_at_def)

lemma alloc_page_existing:
  assumes "page_at (a div 0x1000 div 1024, a div 0x1000 mod 1024) s = Some p"
  shows "alloc_page a klevel rw s =
    map_option (\<lambda>(p', s'). put_page (a div 0x1000 div 1024, a div 0x1000 mod 1024) p' s') (pa_alloc_frame p klevel rw s)"
proof -
  obtain t where "tables s (a div 0x1000 div 1024) = Some t" using assms by (auto simp: page_at_def)
  then have "paging_get_page a True s = (Some (a div 0x1000 div 1024, a div 0x1000 mod 1024), s)"
    by (simp add: paging_get_page_def Let_def)
  with assms show ?thesis
    by (cases "pa_alloc_frame p klevel rw s") (auto simp: alloc_page_def)
qed

lemma alloc_page_present:
  assumes "page_at (a div 0x1000 div 1024, a div 0x1000 mod 1024) s = Some p" and "pg_frame p \<noteq> 0"
  shows "\<exists>s'. alloc_page a klevel rw s = Some s' \<and> s' = put_page (a div 0x1000 div 1024, a div 0x1000 mod 1024) p s"
  using alloc_page_existing [OF assms(1), of klevel rw] assms(2) by (simp add: pa_alloc_frame_def)

lemma alloc_page_first:
  assumes "page_at (a div 0x1000 div 1024, a div 0x1000 mod 1024) s = Some zeroed_page"
    and "\<forall>f. used s f \<longleftrightarrow> f < k" and "k < INDEX_FROM_BIT (frame_amount s) * 32" and "0 < k" and "k < 2 ^ 20"
  shows "\<exists>p. pg_frame p \<noteq> 0 \<and> alloc_page a 0 0 s =
    Some (put_page (a div 0x1000 div 1024, a div 0x1000 mod 1024) p (pa_set_frame (k * 0x1000) s))"
proof -
  have first: "pa_first_frame s = k" using assms(2,3) by (intro pa_first_frame_eq) auto
  have "unat (of_nat k :: 20 word) = k" using assms(5) by (simp add: unat_of_nat)
  then have "(of_nat k :: 20 word) \<noteq> 0" using assms(4) by auto
  then show ?thesis
    using alloc_page_existing [OF assms(1), of 0 0] assms(5) first
    by (intro exI [of _ "zeroed_page\<lparr>pg_present := True, pg_rw := False, pg_user := True, pg_frame := of_nat k\<rparr>"])
      (simp add: pa_alloc_frame_def zeroed_page_def w32_simps)
qed

lemma ready_two_pages:
  assumes "ready k s"
  shows "\<exists>s'. sbrk 0x2000 s = Some (k * 0x1000, s') \<and> mmac_lock s' = NULL \<and> mem_pagefree s' \<le> frame_amount s' \<and>
    frame_amount s' = frame_amount s \<and> mem_lastpage s' = k * 0x1000 + 2 \<and> (\<forall>f. used s' f \<longleftrightarrow> f < Suc k) \<and>
    page_at ((k + 1) div 1024, (k + 1) mod 1024) s' = Some zeroed_page"
proof -
  let ?a = "k * 0x1000"
  have r: "mmac_lock s = NULL" "mem_pagefree s \<le> frame_amount s" "frame_amount s < 2147483648" "0 < k" "k + 1 < 2 ^ 20"
    "(k + 2) * 0x1000 \<le> frame_amount s" "mem_lastpage s = ?a" "\<forall>f. used s f \<longleftrightarrow> f < k"
    "page_at (k div 1024, k mod 1024) s = Some zeroed_page"
    "page_at ((k + 1) div 1024, (k + 1) mod 1024) s = Some zeroed_page"
    using assms by (auto simp: ready_def)
  have idx: "k < INDEX_FROM_BIT (frame_amount s) * 32" using r(6) by (simp add: INDEX_FROM_BIT_def)
  have d: "?a div 0x1000 = k" "(?a + 1) div 0x1000 = k" by simp_all
  have scan: "mult_scan 2 s 0 = Some (Some ?a)"
  proof -
    have "find (\<lambda>j. pa_test_frame (?a + j div 0x20) s \<noteq> 0) [0..<2] = None"
      using r(8) by (auto simp: find_None_iff pa_test_frame_iff)
    then show ?thesis using r(3,6,7) by (subst mult_scan.simps) (simp add: pa_frame_amount_def w32_simps)
  qed
  obtain p where p: "pg_frame p \<noteq> 0"
    "alloc_page ?a 0 0 s = Some (put_page (k div 1024, k mod 1024) p (pa_set_frame (k * 0x1000) s))"
    using alloc_page_first [of ?a s k] r idx unfolding d by auto
  let ?s1 = "put_page (k div 1024, k mod 1024) p (pa_set_frame (k * 0x1000) s)"
  have at: "page_at (k div 1024, k mod 1024) ?s1 = Some p"
    using page_at_put_page [of "(k div 1024, k mod 1024)" "pa_set_frame (k * 0x1000) s"] r(9) by simp
  let ?s2 = "put_page (k div 1024, k mod 1024) p ?s1"
  have second: "alloc_page (?a + 1) 0 0 ?s1 = Some ?s2"
    using alloc_page_present [of "?a + 1" ?s1 p 0 0] at p(1) unfolding d by simp
  have ne: "((k + 1) div 1024, (k + 1) mod 1024) \<noteq> (k div 1024, k mod 1024)"
    by (metis add_cancel_right_right div_mult_mod_eq prod.inject zero_neq_one)
  have "page_at ((k + 1) div 1024, (k + 1) mod 1024) ?s2 = Some zeroed_page"
    using page_at_put_page [OF at, of "((k + 1) div 1024, (k + 1) mod 1024)" p]
      page_at_put_page [of "(k div 1024, k mod 1024)" "pa_set_frame (k * 0x1000) s" zeroed_page
        "((k + 1) div 1024, (k + 1) mod 1024)" p] ne r(9,10)
    by (simp only: page_at_set_frame if_False)
  moreover have "sbrk 0x2000 s = Some (?a, ?s2\<lparr>mem_lastpage := ?a + 2\<rparr>)"
  proof -
    have "[0..<2] = [0, 1 :: nat]" by (simp add: upt_rec)
    then have "foldM (\<lambda>i. alloc_page (?a + i) 0 0) [0..<2] s = Some ?s2" using p(2) second by simp
    then show ?thesis using r(1,2,3,4,6) scan
      by (simp add: sbrk_def memallocp_def memory_mult_alloc_pages_def pa_frame_amount_def w32_simps)
  qed
  ultimately show ?thesis using r by (auto simp: page_at_def less_Suc_eq)
qed

text \<open>The scan for one page goes on to the first page that is not in use.\<close>

lemma scan_one_page:
  assumes "\<forall>f \<le> k. used s f \<longleftrightarrow> f < k" and "mem_lastpage s + i \<le> k * 0x1000"
    and "k * 0x1000 < frame_amount s" and "frame_amount s < 2147483648"
  shows "mult_scan 1 s i = Some (Some (k * 0x1000))"
  using assms(2)
proof (induction "k * 0x1000 - i" arbitrary: i rule: less_induct)
  case less
  let ?pos = "i + mem_lastpage s"
  have pos: "w32 ?pos mod pa_frame_amount s = ?pos" "w32 (?pos + 1) \<le> pa_frame_amount s" "i < pa_frame_amount s"
    using assms(3,4) less.prems by (simp_all add: pa_frame_amount_def w32_simps)
  show ?case
  proof (cases "?pos = k * 0x1000")
    case True
    then have "pa_test_frame ?pos s = 0" using assms(1) pa_test_frame_iff [of ?pos s] by auto
    with True pos show ?thesis by (subst mult_scan.simps) (simp add: Let_def)
  next
    case False
    then have "?pos div 0x1000 < k" using less.prems by (simp add: div_less_iff_less_mult)
    then have "pa_test_frame ?pos s \<noteq> 0" using assms(1) pa_test_frame_iff [of ?pos s] by auto
    then have "mult_scan 1 s i = mult_scan 1 s (i + 1)" using pos by (subst mult_scan.simps) (simp add: Let_def)
    moreover have "mult_scan 1 s (i + 1) = Some (Some (k * 0x1000))"
      using False less.prems by (intro less.hyps) auto
    ultimately show ?thesis by simp
  qed
qed

section \<open>Properties\<close>

text \<open>
  Property C39. On x86 two memory requests overlap: a request for two pages is given the address of the first free
  page but marks only that page, because the scan counts bytes where it should count pages; the
  next request for one page is given the second page of the block handed out before.
\<close>

theorem x86_sbrk_overlap:
  assumes "ready k s"
  shows "\<exists>s1 s2. sbrk 0x2000 s = Some (k * 0x1000, s1) \<and> sbrk 0x1000 s1 = Some ((k + 1) * 0x1000, s2) \<and>
    (k + 1) * 0x1000 < k * 0x1000 + 0x2000"
proof -
  obtain s1 where s1: "sbrk 0x2000 s = Some (k * 0x1000, s1)" "mmac_lock s1 = NULL" "mem_pagefree s1 \<le> frame_amount s1"
    "frame_amount s1 = frame_amount s" "mem_lastpage s1 = k * 0x1000 + 2" "\<forall>f. used s1 f \<longleftrightarrow> f < Suc k"
    "page_at ((k + 1) div 1024, (k + 1) mod 1024) s1 = Some zeroed_page"
    using ready_two_pages [OF assms] by blast
  have r: "frame_amount s < 2147483648" "k + 1 < 2 ^ 20" "(k + 2) * 0x1000 \<le> frame_amount s"
    using assms by (auto simp: ready_def)
  have scan: "mult_scan 1 s1 0 = Some (Some ((k + 1) * 0x1000))"
    using scan_one_page [of "k + 1" s1 0] s1 r by simp
  have idx: "Suc k < INDEX_FROM_BIT (frame_amount s1) * 32" using r(3) s1(4) by (simp add: INDEX_FROM_BIT_def)
  have dv: "(k + 1) * 0x1000 div 0x1000 = k + 1" by simp
  obtain s2 where "alloc_page ((k + 1) * 0x1000) 0 0 s1 = Some s2"
    using alloc_page_first [of "(k + 1) * 0x1000" s1 "Suc k"] s1(6,7) idx r(2) unfolding dv by auto
  then have "sbrk 0x1000 s1 = Some ((k + 1) * 0x1000, s2\<lparr>mem_lastpage := w32 ((k + 1) * 0x1000 + 1)\<rparr>)"
    using s1(2,3) scan by (simp add: sbrk_def memallocp_def memory_mult_alloc_pages_def pa_frame_amount_def)
  with s1(1) show ?thesis by simp
qed

theorem x86_sbrk_overlap_witness:
  "\<exists>s1 s2. sbrk 0x2000 \<lparr>frame_ptr = 0, frame = (\<lambda>i. if i = 0 then 0xFF else 0), frame_amount = 62914560, mem_end = 0xF000000,
     mem_end_aligned = 0xF000000, placement_address = 0x2F2000, tables = [0 \<mapsto> (\<lambda>_. zeroed_page)], tablesPhysical = (\<lambda>_. 0),
     mem_pagefree = 0x1000000, mem_lastpage = 0x8000, mmac_lock = 0\<rparr> = Some (0x8000, s1) \<and> sbrk 0x1000 s1 = Some (0x9000, s2)"
proof -
  define s where "s = \<lparr>frame_ptr = 0, frame = (\<lambda>i. if i = 0 then 0xFF else 0), frame_amount = 62914560, mem_end = 0xF000000,
     mem_end_aligned = 0xF000000, placement_address = 0x2F2000, tables = [0 \<mapsto> (\<lambda>_. zeroed_page)], tablesPhysical = (\<lambda>_. 0),
     mem_pagefree = 0x1000000, mem_lastpage = 0x8000, mmac_lock = 0\<rparr>"
  have "used s f \<longleftrightarrow> f < 8" for f by (rule used_first_eight) (simp add: s_def)
  moreover have "mmac_lock s = NULL" "mem_pagefree s = 0x1000000" "frame_amount s = 62914560" "mem_lastpage s = 0x8000"
    "tables s 0 = Some (\<lambda>_. zeroed_page)" by (simp_all add: s_def)
  ultimately have ready: "ready 8 s" by (simp add: ready_def page_at_def)
  have "\<exists>s1 s2. sbrk 0x2000 s = Some (0x8000, s1) \<and> sbrk 0x1000 s1 = Some (0x9000, s2)"
    using x86_sbrk_overlap [OF ready] by simp
  then show ?thesis unfolding s_def .
qed

end
