(* ===== verification/X86_Heap.thy ===== *)
theory X86_Heap
  imports X86_Memory Linked_List
begin

text \<open>
  The kernel heap on the x86 page provider. Requests for one page, the only ones \<^verbatim>\<open>malloc\<close> makes, are
  served in ascending order from the identity mapped pages that \<^verbatim>\<open>paging_init\<close> leaves behind its
  first table, so the provider keeps the contract \<open>sbrk_provider\<close> up to the end of that table.
\<close>

section \<open>One page at a time\<close>

text \<open>
  \<open>k\<close> pages are mapped to themselves, and the search position lies in the last one or just behind it.
\<close>

definition x86_at :: "nat \<Rightarrow> nat \<Rightarrow> vmm \<Rightarrow> bool" where
  "x86_at A k s \<longleftrightarrow> mapped A k s \<and> 0 < k \<and> k \<le> 1024 \<and> mem_lastpage s \<le> 0x1000 * k \<and> 0x1000 * k < mem_lastpage s + 0x1000 \<and>
     vmm.mmac_lock s = NULL \<and> mem_pagefree s \<le> frame_amount s \<and> 0x400000 \<le> frame_amount s \<and> frame_amount s < 2147483648"

text \<open>The states after one with \<open>A\<close> and \<open>b\<close> as its placement address and its break, and \<open>F\<close> as its tables.\<close>

definition x86_ready :: "nat \<Rightarrow> nat \<Rightarrow> nat set \<times> (nat \<Rightarrow> nat) \<times> nat \<times> nat \<times> addr \<times> addr \<Rightarrow> vmm \<Rightarrow> bool" where
  "x86_ready A b F s \<longleftrightarrow> b \<le> mem_lastpage s \<and> frozen s = F \<and> (\<exists>k. x86_at A k s)"

lemma mapped_lastpage [simp]: "mapped A k (s\<lparr>mem_lastpage := x\<rparr>) = mapped A k s"
  by (simp add: mapped_def)

lemma frozen_lastpage [simp]: "frozen (s\<lparr>mem_lastpage := x\<rparr>) = frozen s"
  by (simp add: frozen_def)

lemma frozen_fields:
  assumes "frozen s' = frozen s"
  shows "frame_amount s' = frame_amount s" and "mem_pagefree s' = mem_pagefree s" and "vmm.mmac_lock s' = vmm.mmac_lock s"
  using assms by (simp_all add: frozen_def)

lemma x86_page:
  assumes "x86_at A k s" and "k < 1024"
  shows "\<exists>s'. sbrk 0x1000 s = Some (0x1000 * k, s') \<and> x86_at A (Suc k) s' \<and> mem_lastpage s' = 0x1000 * k + 1 \<and>
    frozen s' = frozen s"
proof -
  have s: "mapped A k s" "0 < k" "mem_lastpage s \<le> 0x1000 * k" "vmm.mmac_lock s = NULL" "mem_pagefree s \<le> frame_amount s"
    "0x400000 \<le> frame_amount s" "frame_amount s < 2147483648"
    using assms(1) by (simp_all add: x86_at_def)
  have scan: "mult_scan 1 s 0 = Some (Some (0x1000 * k))"
    using scan_one_page [of k s 0] s assms(2) by (simp add: mapped_def mult.commute)
  obtain s1 where s1: "alloc_page (0x1000 * k) 0 0 s = Some s1" "mapped A (Suc k) s1" "frozen s1 = frozen s"
    using alloc_page_mapped [OF s(1) assms(2)] by blast
  have "memory_mult_alloc_pages 1 s = Some (0x1000 * k, s1\<lparr>mem_lastpage := 0x1000 * k + 1\<rparr>)"
    using s scan s1(1) assms(2) by (simp add: memory_mult_alloc_pages_def pa_frame_amount_def w32_simps)
  then have "sbrk 0x1000 s = Some (0x1000 * k, s1\<lparr>mem_lastpage := 0x1000 * k + 1\<rparr>)"
    using s frozen_fields(3) [OF s1(3)] by (simp add: sbrk_def memallocp_def)
  moreover have "x86_at A (Suc k) (s1\<lparr>mem_lastpage := 0x1000 * k + 1\<rparr>)"
    using s s1(2) frozen_fields [OF s1(3)] assms(2) by (simp add: x86_at_def)
  ultimately show ?thesis using s1(3) by auto
qed

section \<open>The contract of the heap\<close>

interpretation x86: sbrk_provider sbrk mem_lastpage "x86_ready A b F" "0x400000" for A b F
proof
  fix m
  assume r: "x86_ready A b F m"
  then obtain k where m: "x86_at A k m" by (auto simp: x86_ready_def)
  then show "0 < mem_lastpage m \<and> mem_lastpage m < 4294967296" by (auto simp: x86_at_def)
  show "sbrk 0 m = Some (mem_lastpage m, m)" by (simp add: sbrk_def)
  assume "mem_lastpage m + 4096 < 0x400000"
  then have k: "k < 1024" using m by (auto simp: x86_at_def)
  obtain s' where s': "sbrk 0x1000 m = Some (0x1000 * k, s')" "x86_at A (Suc k) s'" "mem_lastpage s' = 0x1000 * k + 1"
    "frozen s' = frozen m"
    using x86_page [OF m k] by blast
  have "mem_lastpage m \<le> 0x1000 * k" "0x1000 * k < mem_lastpage m + 0x1000" using m by (simp_all add: x86_at_def)
  moreover have "x86_ready A b F s'" using r s' calculation by (auto simp: x86_ready_def)
  ultimately show "\<exists>r m'. sbrk 4096 m = Some (r, m') \<and> r \<noteq> 4294967295 \<and> mem_lastpage m < mem_lastpage m' \<and>
      mem_lastpage m' \<le> mem_lastpage m + 4096 \<and> x86_ready A b F m'"
    using s' k by simp
qed simp

section \<open>Where the blocks lie\<close>

text \<open>The address the processor reaches through the page tables.\<close>

definition translate :: "vmm \<Rightarrow> nat \<Rightarrow> nat option" where
  "translate s a = do {
     t \<leftarrow> tables s (a div 0x400000);
     let p = t (a div 0x1000 mod 1024);
     if pg_present p then Some (unat (pg_frame p) * 0x1000 + a mod 0x1000) else None
   }"

lemma mapped_translate:
  assumes "mapped A k s" and "k \<le> 1024" and "a < 0x1000 * k"
  shows "translate s a = Some a"
proof -
  have a: "a div 0x1000 < k" "a div 0x400000 = 0" using assms(2,3) by (simp_all add: div_less_iff_less_mult)
  then have "unat (of_nat (a div 0x1000) :: 20 word) = a div 0x1000" using assms(2) by (simp add: unat_of_nat)
  moreover obtain t where "tables s 0 = Some t" "pg_present (t (a div 0x1000))" "pg_frame (t (a div 0x1000)) = of_nat (a div 0x1000)"
    using assms(1) a(1) by (auto simp: mapped_def)
  ultimately show ?thesis using a assms(2) by (simp add: translate_def)
qed

definition above :: "nat \<Rightarrow> vmm heap \<Rightarrow> bool" where
  "above b s \<longleftrightarrow> (alloc_end s \<noteq> 0 \<longrightarrow> b \<le> alloc_end s) \<and> (\<forall>x \<in> set (blocks s). b \<le> fst x)"

lemma take_first_above:
  "take_first n bs = Some (a, bs') \<Longrightarrow> \<forall>x \<in> set bs. b \<le> fst x \<Longrightarrow> \<forall>x \<in> set bs'. b \<le> fst x"
  by (erule take_firstE) (auto split: if_splits)

lemma alloc_spec_nonempty: "snd (alloc_spec n e bs) \<noteq> []"
proof (cases "take_first n bs")
  case (Some r)
  then obtain a bs' where t: "take_first n bs = Some (a, bs')" by (cases r) auto
  then have "bs' \<noteq> []" by (elim take_firstE) simp
  with t show ?thesis by (simp add: alloc_spec_def)
qed (simp add: alloc_spec_def)

lemma release_above:
  assumes "\<forall>x \<in> set bs. b \<le> fst x"
  shows "\<forall>x \<in> set (release a bs). b \<le> fst x"
proof -
  have "\<forall>x \<in> set (coalesce xs). b \<le> fst x" if "\<forall>x \<in> set xs. b \<le> fst x" for xs
    using that by (induction xs rule: coalesce.induct) auto
  moreover have "\<forall>x \<in> set (map (\<lambda>(c, k, fr). (c, k, fr \<or> c = a)) bs). b \<le> fst x" using assms by auto
  ultimately show ?thesis unfolding release_def by blast
qed

text \<open>
  Runs of a client of the heap in the first table: requests as long as they end below its last page, resizing (but not to
  nothing) and releasing of blocks in use, and stores.
\<close>

inductive x86_run :: "vmm \<Rightarrow> vmm heap \<Rightarrow> bool" for m where
  start: "x86_run m (heap_start m)"
| alloc: "x86_run m s \<Longrightarrow> mem_lastpage (os s) + n + 4116 < 0x400000 \<Longrightarrow> malloc sbrk n s = Some (p, s') \<Longrightarrow> x86_run m s'"
| calloc: "x86_run m s \<Longrightarrow> mem_lastpage (os s) + num * n + 4116 < 0x400000 \<Longrightarrow> calloc sbrk num n s = Some (p, s') \<Longrightarrow> x86_run m s'"
| realloc: "x86_run m s \<Longrightarrow> mem_lastpage (os s) + n + 4116 < 0x400000 \<Longrightarrow> 0 < n \<Longrightarrow> live s p = Some k \<Longrightarrow>
    realloc sbrk p n s = Some (q, s') \<Longrightarrow> x86_run m s'"
| free: "x86_run m s \<Longrightarrow> live s p = Some k \<Longrightarrow> free p s = Some s' \<Longrightarrow> x86_run m s'"
| store: "x86_run m s \<Longrightarrow> x86_run m (s\<lparr>hbytes := b\<rparr>)"

lemma malloc_above:
  assumes "heap_ok mem_lastpage (x86_ready A b F) s" and "above b s" and "mem_lastpage (os s) + n + 4116 < 0x400000"
    and "malloc sbrk n s = Some (p, s')"
  shows "heap_ok mem_lastpage (x86_ready A b F) s' \<and> above b s'"
proof -
  have s': "blocks s' = snd (alloc_spec (long_align n) (heap_top mem_lastpage s) (blocks s))"
    "heap_ok mem_lastpage (x86_ready A b F) s'"
    using x86.malloc_refines [OF assms(1,3)] assms(4) by auto
  have "b \<le> heap_top mem_lastpage s" using assms(1,2) by (auto simp: heap_top_def heap_ok_def x86_ready_def above_def)
  then have bs: "\<forall>x \<in> set (blocks s'). b \<le> fst x"
    using assms(2) take_first_above [of "long_align n" "blocks s"]
    by (auto simp: s'(1) alloc_spec_def above_def split: option.splits)
  have "b \<le> alloc_end s'"
  proof -
    have "blocks s' \<noteq> []" using alloc_spec_nonempty s'(1) by metis
    then obtain a k fr where "(a, k, fr) \<in> set (blocks s')" by (cases "blocks s'") auto
    moreover obtain c where "layout c (blocks s') (alloc_end s')" using s'(2) by (auto simp: heap_ok_def)
    ultimately show ?thesis using layout_range bs by fastforce
  qed
  with s' bs show ?thesis by (simp add: above_def)
qed

lemma above_bytes [simp]: "above b (s\<lparr>hbytes := c\<rparr>) = above b s"
  by (simp add: above_def blocks_def)

lemma free_above:
  assumes "heap_ok mem_lastpage (x86_ready A b F) s" and "above b s" and "live s p = Some k" and "free p s = Some s'"
  shows "heap_ok mem_lastpage (x86_ready A b F) s' \<and> above b s'"
  using x86.free_refines [OF assms(1,3)] assms(2,4) release_above [of "blocks s" b "p - sizeof_meta"]
  by (auto simp: above_def)

text \<open>\<^verbatim>\<open>calloc\<close> and \<^verbatim>\<open>realloc\<close> are made of the others.\<close>

lemma calloc_above:
  assumes "heap_ok mem_lastpage (x86_ready A b F) s" and "above b s" and "mem_lastpage (os s) + num * n + 4116 < 0x400000"
    and "calloc sbrk num n s = Some (p, s')"
  shows "heap_ok mem_lastpage (x86_ready A b F) s' \<and> above b s'"
proof -
  have "w32 (num * n) = num * n" using assms(3) by (intro w32_id) linarith
  then have "\<exists>q s1. malloc sbrk (num * n) s = Some (q, s1) \<and> (s' = s1 \<or> (\<exists>c. s' = s1\<lparr>hbytes := c\<rparr>))"
    using assms(4) by (auto simp: calloc_def Let_def split: Option.bind_splits if_splits)
  then obtain q s1 where m: "malloc sbrk (num * n) s = Some (q, s1)" "s' = s1 \<or> (\<exists>c. s' = s1\<lparr>hbytes := c\<rparr>)" by blast
  from malloc_above [OF assms(1-3) m(1)] m(2) show ?thesis by (auto simp: x86.heap_ok_bytes)
qed

lemma realloc_above:
  assumes "heap_ok mem_lastpage (x86_ready A b F) s" and "above b s" and "mem_lastpage (os s) + n + 4116 < 0x400000" and "0 < n"
    and "live s p = Some k" and "realloc sbrk p n s = Some (q, s')"
  shows "heap_ok mem_lastpage (x86_ready A b F) s' \<and> above b s'"
proof -
  have "\<exists>r s1. malloc sbrk n s = Some (r, s1) \<and> (s' = s1 \<or> (\<exists>c. free p (s1\<lparr>hbytes := c\<rparr>) = Some s'))"
    using assms(4,6) by (auto simp: realloc_def Let_def split: Option.bind_splits if_splits)
  then obtain r s1 where m: "malloc sbrk n s = Some (r, s1)" "s' = s1 \<or> (\<exists>c. free p (s1\<lparr>hbytes := c\<rparr>) = Some s')" by blast
  have a: "heap_ok mem_lastpage (x86_ready A b F) s1" "above b s1" using malloc_above [OF assms(1-3) m(1)] by blast+
  have "live s1 p = Some k" using x86.malloc_ok [OF assms(1,3)] m(1) assms(5) by auto
  with a m(2) free_above [of A b F "s1\<lparr>hbytes := _\<rparr>" p k s'] show ?thesis by (auto simp: x86.heap_ok_bytes x86.live_bytes)
qed

lemma x86_run_ok:
  assumes "x86_run m s" and "x86_ready A b F m"
  shows "heap_ok mem_lastpage (x86_ready A b F) s \<and> above b s"
  using assms
proof (induction rule: x86_run.induct)
  case start
  then show ?case using heap_ok_start(1) [of "x86_ready A b F" m mem_lastpage]
    by (auto simp: above_def heap_start_def blocks_def walk_eval)
next
  case (alloc s n p s')
  then show ?case using malloc_above by blast
next
  case (calloc s num n p s')
  then show ?case using calloc_above by blast
next
  case (realloc s n p k q s')
  then show ?case using realloc_above by blast
next
  case (free s p k s')
  then show ?case using free_above by blast
next
  case (store s c)
  then show ?case by (simp add: x86.heap_ok_bytes)
qed

lemma x86_run_block:
  assumes "x86_at A k m" and "x86_run m s" and "live s p = Some n"
  shows "mem_lastpage m + sizeof_meta \<le> p \<and> (\<forall>a < p + n. translate (os s) a = Some a)"
proof -
  let ?R = "x86_ready A (mem_lastpage m) (frozen m)"
  have "?R m" using assms(1) by (auto simp: x86_ready_def)
  with x86_run_ok [OF assms(2)] have ok: "heap_ok mem_lastpage ?R s" and ab: "above (mem_lastpage m) s" by blast+
  obtain a where lay: "layout a (blocks s) (alloc_end s)" using ok by (auto simp: heap_ok_def)
  then have b: "sizeof_meta \<le> p" "(p - sizeof_meta, n, False) \<in> set (blocks s)"
    using assms(3) live_iff [OF lay] by (auto simp: Malloc.used_def)
  then have "mem_lastpage m \<le> p - sizeof_meta" using ab by (auto simp: above_def)
  moreover have "p + n \<le> mem_lastpage (os s)"
    using layout_range [OF lay b(2)] b(1) ok by (auto simp: heap_ok_def)
  moreover obtain k' where "mapped A k' (os s)" "k' \<le> 1024" "mem_lastpage (os s) \<le> 0x1000 * k'"
    using ok by (auto simp: heap_ok_def x86_ready_def x86_at_def)
  ultimately show ?thesis using b(1) mapped_translate [of A k' "os s"] by simp
qed

lemma x86_run_disjoint:
  assumes "x86_at A k m" and "x86_run m s" and "live s p = Some n" and "live s q = Some j" and "q \<noteq> p"
  shows "p + n + sizeof_meta \<le> q \<or> q + j + sizeof_meta \<le> p"
proof -
  have "x86_ready A (mem_lastpage m) (frozen m) m" using assms(1) by (auto simp: x86_ready_def)
  then show ?thesis using x86_run_ok [OF assms(2)] x86.live_disjoint assms(3-5) by blast
qed

section \<open>Behind the first table\<close>

lemma x86_at_step:
  assumes "x86_at A k s" and "k + n \<le> 1024"
  shows "\<exists>s'. times n (\<lambda>s. map_option snd (sbrk 0x1000 s)) s = Some s' \<and> x86_at A (k + n) s' \<and> frozen s' = frozen s"
  using assms
proof (induction n arbitrary: k s)
  case (Suc n)
  then obtain s1 where s1: "sbrk 0x1000 s = Some (0x1000 * k, s1)" "x86_at A (Suc k) s1" "frozen s1 = frozen s"
    using x86_page [of A k s] by auto
  from Suc.IH [OF s1(2)] Suc.prems(2) s1(1,3) show ?case by auto
qed simp

text \<open>The next page after the first table is full: its table is placed behind the placement address.\<close>

lemma x86_second_table:
  assumes "x86_at A 1024 s" and "dom (tables s) = {0}" and "0x1000 \<le> A" and "0x400000 < frame_amount s"
  shows "\<exists>s'. sbrk 0x1000 s = Some (0x400000, s') \<and> tablesPhysical s' 1 = unat (of_nat (page_align A) OR 0x7 :: u32) \<and>
    placement_address s' = w32 (page_align A + 0x1000)"
proof -
  have s: "mapped A 1024 s" "mem_lastpage s \<le> 0x400000" "vmm.mmac_lock s = NULL" "mem_pagefree s \<le> frame_amount s"
    "frame_amount s < 2147483648" using assms(1) by (simp_all add: x86_at_def)
  have pl: "placement_address s = A" and us: "\<forall>f \<le> 1024. Page_Allocator.used s f \<longleftrightarrow> f < 1024" using s(1) by (simp_all add: mapped_def)
  have scan: "mult_scan 1 s 0 = Some (Some 0x400000)"
    using scan_one_page [of 1024 s 0] us s(2,5) assms(4) by simp
  let ?t = "page_align A"
  define s1 where "s1 = s\<lparr>placement_address := w32 (?t + 0x1000), tables := (tables s)(1 \<mapsto> (\<lambda>_. zeroed_page)),
    tablesPhysical := (tablesPhysical s)(1 := unat (of_nat ?t OR 0x7 :: u32))\<rparr>"
  have "tables s 1 = None" using assms(2) by auto
  moreover have "placement_kmalloc_ap 4096 1 s = (?t, ?t, s\<lparr>placement_address := w32 (?t + 0x1000)\<rparr>)"
    using pl assms(3) by (simp add: placement_kmalloc_ap_def Let_def div_eq_0_iff)
  ultimately have get: "paging_get_page 0x400000 True s = (Some (1, 0), s1)" by (simp add: paging_get_page_def Let_def s1_def)
  have first: "pa_first_frame s1 = 1024"
    using us assms(4) by (intro pa_first_frame_eq) (auto simp: s1_def INDEX_FROM_BIT_def Page_Allocator.used_def)
  let ?p = "zeroed_page\<lparr>pg_present := True, pg_rw := False, pg_user := True, pg_frame := 1024\<rparr>"
  have "pa_alloc_frame zeroed_page 0 0 s1 = Some (?p, pa_set_frame 0x400000 s1)"
    by (simp add: pa_alloc_frame_def first Let_def w32_simps zeroed_page_def)
  moreover have "page_at (1, 0) s1 = Some zeroed_page" by (simp add: page_at_def s1_def)
  ultimately have "alloc_page 0x400000 0 0 s = Some (put_page (1, 0) ?p (pa_set_frame 0x400000 s1))"
    by (simp add: alloc_page_def get)
  moreover define s2 where "s2 = put_page (1, 0) ?p (pa_set_frame 0x400000 s1)"
  ultimately have al: "alloc_page 0x400000 0 0 s = Some s2" by simp
  have f2: "vmm.mmac_lock s2 = NULL" "tablesPhysical s2 = tablesPhysical s1" "placement_address s2 = placement_address s1"
    using s(3) by (simp_all add: s2_def put_page_def s1_def pa_set_frame_def Let_def)
  have "memory_mult_alloc_pages 1 s = Some (0x400000, s2\<lparr>mem_lastpage := 0x400001\<rparr>)"
    using s scan al by (simp add: memory_mult_alloc_pages_def pa_frame_amount_def w32_simps)
  then have "sbrk 0x1000 s = Some (0x400000, s2\<lparr>mem_lastpage := 0x400001\<rparr>)"
    using s(3) f2(1) by (simp add: sbrk_def memallocp_def)
  then show ?thesis using f2 by (simp add: s1_def)
qed

section \<open>Properties\<close>

text \<open>
  Property C8. As long as the heap of a started PC ends in its first page table, below four megabytes, and no block is resized to
  nothing, every block lies behind the break the heap started with, in pages that the page
  tables map to themselves, and blocks in use never overlap: no request can touch the kernel image, a
  ramdisk or the first page table, or miss its memory. Behind four megabytes this ends (see \<open>x86_table_on_heap\<close>).
\<close>

theorem x86_heap_safe:
  assumes "x86_at A k m" and "x86_run m s" and "live s p = Some n" and "live s q = Some j" and "q \<noteq> p"
  shows "mem_lastpage m + sizeof_meta \<le> p \<and> (\<forall>a < p + n. translate (os s) a = Some a) \<and>
    (p + n + sizeof_meta \<le> q \<or> q + j + sizeof_meta \<le> p)"
  using x86_run_block [OF assms(1-3)] x86_run_disjoint [OF assms] by blast

text \<open>
  Behind four megabytes the property ends: the page that holds the first block of the heap, in use since the start, is
  the place that \<^verbatim>\<open>paging_get_page\<close> takes for the second page table, and clears, when the heap has filled the first one. The
  identity loop maps one page behind the placement address, the heap starts there, and the placement allocator goes on there too.
\<close>

theorem x86_table_on_heap:
  assumes "x86_at A k m" and "A mod 0x1000 = 0" and "0x1000 \<le> A" and "0x1000 * k = A + 0x1000" and "mem_lastpage m = A + 0x1000"
    and "dom (tables m) = {0}" and "0x400000 < frame_amount m" and "A + 0x1000 + n + 4116 < 0x400000"
  shows "\<exists>s j i v v'. malloc sbrk n (heap_start m) = Some (A + 0x1000 + sizeof_meta, s) \<and> live s (A + 0x1000 + sizeof_meta) = Some j \<and>
    times i (\<lambda>v. map_option snd (sbrk 0x1000 v)) (os s) = Some v \<and> sbrk 0x1000 v = Some (0x400000, v') \<and>
    tablesPhysical v' 1 = unat (of_nat (A + 0x1000) OR 0x7 :: u32)"
proof -
  let ?R = "x86_ready A (mem_lastpage m) (frozen m)"
  have h: "heap_ok mem_lastpage ?R (heap_start m)" using heap_ok_start(1) [of ?R m mem_lastpage] assms(1) by (auto simp: x86_ready_def)
  have hs: "mem_lastpage (os (heap_start m)) = A + 0x1000" "blocks (heap_start m) = []" "heap_top mem_lastpage (heap_start m) = A + 0x1000"
    using assms(5) by (simp_all add: heap_start_def heap_top_def blocks_def walk_eval)
  have room: "mem_lastpage (os (heap_start m)) + n + 4116 < 0x400000" using assms(8) hs(1) by simp
  obtain s where s: "malloc sbrk n (heap_start m) = Some (A + 0x1000 + sizeof_meta, s)" "heap_ok mem_lastpage ?R s"
    using x86.malloc_refines [OF h room] by (auto simp: hs alloc_spec_def)
  moreover obtain j where j: "live s (A + 0x1000 + sizeof_meta) = Some j" using x86.malloc_ok [OF h room] s(1) by auto
  obtain k' where k': "x86_at A k' (os s)" "frozen (os s) = frozen m" using s(2) by (auto simp: heap_ok_def x86_ready_def)
  then have "k' \<le> 1024" by (simp add: x86_at_def)
  with x86_at_step [OF k'(1), of "1024 - k'"] obtain v where
    v: "times (1024 - k') (\<lambda>v. map_option snd (sbrk 0x1000 v)) (os s) = Some v" "x86_at A 1024 v" "frozen v = frozen m" using k'(2) by auto
  have f: "dom (tables v) = {0}" "0x400000 < frame_amount v" using v(3) assms(6,7) by (simp_all add: frozen_def)
  have "A div 0x1000 * 0x1000 = A" using assms(2) by (metis add.right_neutral div_mult_mod_eq)
  then have pa: "page_align A = A + 0x1000" using assms(8) by (simp add: page_align_def w32_simps)
  from x86_second_table [OF v(2) f(1) assms(3) f(2)] s(1) j v(1) show ?thesis unfolding pa by blast
qed

text \<open>A kernel with eight mapped pages.\<close>

definition eight_pages :: vmm where
  "eight_pages = \<lparr>frame_ptr = 0, frame = (\<lambda>i. if i = 0 then 0xFF else 0), frame_amount = 62914560, mem_end = 0xF000000,
     mem_end_aligned = 0xF000000, placement_address = 0x7000,
     tables = [0 \<mapsto> (\<lambda>j. if j < 8 then zeroed_page\<lparr>pg_present := True, pg_frame := of_nat j\<rparr> else zeroed_page)],
     tablesPhysical = (\<lambda>_. 0), mem_pagefree = 0x1000000, mem_lastpage = 0x8000, mmac_lock = 0\<rparr>"

lemma eight_pages_at: "x86_at 0x7000 8 eight_pages"
proof -
  have "Page_Allocator.used eight_pages f \<longleftrightarrow> f < 8" for f by (rule used_first_eight) (simp add: eight_pages_def)
  then show ?thesis by (simp add: x86_at_def mapped_def) (simp add: eight_pages_def INDEX_FROM_BIT_def)
qed

theorem x86_heap_safe_witness:
  "\<exists>p s1 q s2 k. malloc sbrk 100 (heap_start eight_pages) = Some (p, s1) \<and> malloc sbrk 20 s1 = Some (q, s2) \<and>
     live s2 p = Some k \<and> 0x8010 \<le> p \<and> translate (os s2) p = Some p \<and> (p + k + sizeof_meta \<le> q \<or> q < p)"
proof -
  have r: "x86_ready 0x7000 0x8000 (frozen eight_pages) eight_pages"
    using eight_pages_at by (auto simp: x86_ready_def eight_pages_def)
  have b: "mem_lastpage (os (heap_start eight_pages)) = 0x8000" by (simp add: eight_pages_def)
  obtain p s1 k where 1: "malloc sbrk 100 (heap_start eight_pages) = Some (p, s1)" "100 \<le> k" "live s1 p = Some k"
    "heap_ok mem_lastpage (x86_ready 0x7000 0x8000 (frozen eight_pages)) s1" "mem_lastpage (os s1) \<le> 0x8000 + 4216"
    using x86.malloc_ok [OF heap_ok_start(1) [of "x86_ready 0x7000 0x8000 (frozen eight_pages)", OF r], of 100] b by auto
  then obtain q s2 j where 2: "malloc sbrk 20 s1 = Some (q, s2)" "20 \<le> j" "live s1 q = None" "live s2 = (live s1)(q \<mapsto> j)"
    using x86.malloc_ok [OF 1(4), of 20] by auto
  have "x86_run eight_pages s1" using x86_run.alloc [OF x86_run.start _ 1(1)] b by simp
  then have run: "x86_run eight_pages s2" using x86_run.alloc [OF _ _ 2(1)] 1(5) by simp
  have "live s2 p = Some k" "live s2 q = Some j" "q \<noteq> p" using 1(3) 2(3,4) by auto
  from x86_heap_safe [OF eight_pages_at run this] this 1(1,2) 2(1) show ?thesis
    by (intro exI [of _ p] exI [of _ s1] exI [of _ q] exI [of _ s2] exI [of _ k]) (auto simp: eight_pages_def)
qed

theorem x86_table_on_heap_witness:
  "\<exists>s i v v'. malloc sbrk 12 (heap_start eight_pages) = Some (0x8010, s) \<and>
     times i (\<lambda>v. map_option snd (sbrk 0x1000 v)) (os s) = Some v \<and> sbrk 0x1000 v = Some (0x400000, v') \<and> tablesPhysical v' 1 = 0x8007"
proof -
  have "mem_lastpage eight_pages = 0x7000 + 0x1000" "dom (tables eight_pages) = {0}" "0x400000 < frame_amount eight_pages"
    by (simp_all add: eight_pages_def)
  from x86_table_on_heap [OF eight_pages_at _ _ _ this, of 12] show ?thesis by simp blast
qed

end
