(* ===== verification/Graphics.thy ===== *)
theory Graphics
  imports Printf
begin

text \<open>
  Text on the frame buffer of the Integrator/CP board: the display driver
  (\<^verbatim>\<open>src/kernel/arch/arm/integrator-cp/drivers/qemu-PL110.c\<close>), the font (\<^verbatim>\<open>includes/beryllium/video_font.h\<close>) and the
  terminal that draws it (\<^verbatim>\<open>src/kernel/gterminal.c\<close>), with the generic frame buffer of \<^verbatim>\<open>framebuffer.c\<close>. The
  frame buffer at \<^verbatim>\<open>0x200000\<close> is indexed without a check and is a function on all indices; 640 by 480
  pixels are visible. A plain \<^verbatim>\<open>char\<close> is unsigned on ARM.
\<close>

unbundle bit_operations_syntax

section \<open>The font\<close>

definition font8x8_basic :: "u8 list list" where
  "font8x8_basic = [
    [0, 0, 0, 0, 0, 0, 0, 0], [0, 0, 0, 0, 0, 0, 0, 0], [0, 0, 0, 0, 0, 0, 0, 0], [0, 0, 0, 0, 0, 0, 0, 0],
    [0, 0, 0, 0, 0, 0, 0, 0], [0, 0, 0, 0, 0, 0, 0, 0], [0, 0, 0, 0, 0, 0, 0, 0], [0, 0, 0, 0, 0, 0, 0, 0],
    [0, 0, 0, 0, 0, 0, 0, 0], [0, 0, 0, 0, 0, 0, 0, 0], [0, 0, 0, 0, 0, 0, 0, 0], [0, 0, 0, 0, 0, 0, 0, 0],
    [0, 0, 0, 0, 0, 0, 0, 0], [0, 0, 0, 0, 0, 0, 0, 0], [0, 0, 0, 0, 0, 0, 0, 0], [0, 0, 0, 0, 0, 0, 0, 0],
    [0, 0, 0, 0, 0, 0, 0, 0], [0, 0, 0, 0, 0, 0, 0, 0], [0, 0, 0, 0, 0, 0, 0, 0], [0, 0, 0, 0, 0, 0, 0, 0],
    [0, 0, 0, 0, 0, 0, 0, 0], [0, 0, 0, 0, 0, 0, 0, 0], [0, 0, 0, 0, 0, 0, 0, 0], [0, 0, 0, 0, 0, 0, 0, 0],
    [0, 0, 0, 0, 0, 0, 0, 0], [0, 0, 0, 0, 0, 0, 0, 0], [0, 0, 0, 0, 0, 0, 0, 0], [0, 0, 0, 0, 0, 0, 0, 0],
    [0, 0, 0, 0, 0, 0, 0, 0], [0, 0, 0, 0, 0, 0, 0, 0], [0, 0, 0, 0, 0, 0, 0, 0], [0, 0, 0, 0, 0, 0, 0, 0],
    [0, 0, 0, 0, 0, 0, 0, 0], [24, 60, 60, 24, 24, 0, 24, 0], [54, 54, 0, 0, 0, 0, 0, 0],
    [54, 54, 127, 54, 127, 54, 54, 0], [12, 62, 3, 30, 48, 31, 12, 0], [0, 99, 51, 24, 12, 102, 99, 0],
    [28, 54, 28, 110, 59, 51, 110, 0], [6, 6, 3, 0, 0, 0, 0, 0], [24, 12, 6, 6, 6, 12, 24, 0],
    [6, 12, 24, 24, 24, 12, 6, 0], [0, 102, 60, 255, 60, 102, 0, 0], [0, 12, 12, 63, 12, 12, 0, 0],
    [0, 0, 0, 0, 0, 12, 12, 6], [0, 0, 0, 63, 0, 0, 0, 0], [0, 0, 0, 0, 0, 12, 12, 0], [96, 48, 24, 12, 6, 3, 1, 0],
    [62, 99, 115, 123, 111, 103, 62, 0], [12, 14, 12, 12, 12, 12, 63, 0], [30, 51, 48, 28, 6, 51, 63, 0],
    [30, 51, 48, 28, 48, 51, 30, 0], [56, 60, 54, 51, 127, 48, 120, 0], [63, 3, 31, 48, 48, 51, 30, 0],
    [28, 6, 3, 31, 51, 51, 30, 0], [63, 51, 48, 24, 12, 12, 12, 0], [30, 51, 51, 30, 51, 51, 30, 0],
    [30, 51, 51, 62, 48, 24, 14, 0], [0, 12, 12, 0, 0, 12, 12, 0], [0, 12, 12, 0, 0, 12, 12, 6],
    [24, 12, 6, 3, 6, 12, 24, 0], [0, 0, 63, 0, 0, 63, 0, 0], [6, 12, 24, 48, 24, 12, 6, 0],
    [30, 51, 48, 24, 12, 0, 12, 0], [62, 99, 123, 123, 123, 3, 30, 0], [12, 30, 51, 51, 63, 51, 51, 0],
    [63, 102, 102, 62, 102, 102, 63, 0], [60, 102, 3, 3, 3, 102, 60, 0], [31, 54, 102, 102, 102, 54, 31, 0],
    [127, 70, 22, 30, 22, 70, 127, 0], [127, 70, 22, 30, 22, 6, 15, 0], [60, 102, 3, 3, 115, 102, 124, 0],
    [51, 51, 51, 63, 51, 51, 51, 0], [30, 12, 12, 12, 12, 12, 30, 0], [120, 48, 48, 48, 51, 51, 30, 0],
    [103, 102, 54, 30, 54, 102, 103, 0], [15, 6, 6, 6, 70, 102, 127, 0], [99, 119, 127, 127, 107, 99, 99, 0],
    [99, 103, 111, 123, 115, 99, 99, 0], [28, 54, 99, 99, 99, 54, 28, 0], [63, 102, 102, 62, 6, 6, 15, 0],
    [30, 51, 51, 51, 59, 30, 56, 0], [63, 102, 102, 62, 54, 102, 103, 0], [30, 51, 7, 14, 56, 51, 30, 0],
    [63, 45, 12, 12, 12, 12, 30, 0], [51, 51, 51, 51, 51, 51, 63, 0], [51, 51, 51, 51, 51, 30, 12, 0],
    [99, 99, 99, 107, 127, 119, 99, 0], [99, 99, 54, 28, 28, 54, 99, 0], [51, 51, 51, 30, 12, 12, 30, 0],
    [127, 99, 49, 24, 76, 102, 127, 0], [30, 6, 6, 6, 6, 6, 30, 0], [3, 6, 12, 24, 48, 96, 64, 0],
    [30, 24, 24, 24, 24, 24, 30, 0], [8, 28, 54, 99, 0, 0, 0, 0], [0, 0, 0, 0, 0, 0, 0, 255],
    [12, 12, 24, 0, 0, 0, 0, 0], [0, 0, 30, 48, 62, 51, 110, 0], [7, 6, 6, 62, 102, 102, 59, 0],
    [0, 0, 30, 51, 3, 51, 30, 0], [56, 48, 48, 62, 51, 51, 110, 0], [0, 0, 30, 51, 63, 3, 30, 0],
    [28, 54, 6, 15, 6, 6, 15, 0], [0, 0, 110, 51, 51, 62, 48, 31], [7, 6, 54, 110, 102, 102, 103, 0],
    [12, 0, 14, 12, 12, 12, 30, 0], [48, 0, 48, 48, 48, 51, 51, 30], [7, 6, 102, 54, 30, 54, 103, 0],
    [14, 12, 12, 12, 12, 12, 30, 0], [0, 0, 51, 127, 127, 107, 99, 0], [0, 0, 31, 51, 51, 51, 51, 0],
    [0, 0, 30, 51, 51, 51, 30, 0], [0, 0, 59, 102, 102, 62, 6, 15], [0, 0, 110, 51, 51, 62, 48, 120],
    [0, 0, 59, 110, 102, 6, 15, 0], [0, 0, 62, 3, 30, 48, 31, 0], [8, 12, 62, 12, 12, 44, 24, 0],
    [0, 0, 51, 51, 51, 51, 110, 0], [0, 0, 51, 51, 51, 30, 12, 0], [0, 0, 99, 107, 127, 127, 54, 0],
    [0, 0, 99, 54, 28, 54, 99, 0], [0, 0, 51, 51, 51, 62, 48, 31], [0, 0, 63, 25, 12, 38, 63, 0],
    [56, 12, 12, 7, 12, 12, 56, 0], [24, 24, 24, 0, 24, 24, 24, 0], [7, 12, 12, 56, 12, 12, 7, 0],
    [110, 59, 0, 0, 0, 0, 0, 0], [0, 0, 0, 0, 0, 0, 0, 0]]"

lemma font_shape: "length font8x8_basic = 128" "list_all (\<lambda>g. length g = 8) font8x8_basic"
  by (simp_all add: font8x8_basic_def)

section \<open>The display\<close>

type_synonym pixels = "nat \<Rightarrow> u16"

definition rgb :: "u8 \<Rightarrow> u8 \<Rightarrow> u8 \<Rightarrow> u16" where
  "rgb r g b = push_bit (5 + 6) (ucast b) OR push_bit 5 (ucast g) OR ucast r"

definition qemu_pl110_write_index :: "nat \<Rightarrow> u8 \<Rightarrow> u8 \<Rightarrow> u8 \<Rightarrow> pixels \<Rightarrow> pixels" where
  "qemu_pl110_write_index index r g b v = v(index := rgb r g b)"

definition qemu_pl110_write :: "nat \<Rightarrow> nat \<Rightarrow> u8 \<Rightarrow> u8 \<Rightarrow> u8 \<Rightarrow> pixels \<Rightarrow> pixels" where
  "qemu_pl110_write x y r g b v = qemu_pl110_write_index (w32 (y * 640 + x)) r g b v"

definition qemu_pl110_clear :: "pixels \<Rightarrow> pixels" where
  "qemu_pl110_clear v = fold (\<lambda>x. qemu_pl110_write_index x 0 0 (of_nat (x mod 640 * 480))) [0..<640 * 480 - 10] v"

record display =
  fb :: pixels
  pl_regs :: "(nat \<times> u32) list"
  video_device :: int
  g_x :: nat
  g_y :: nat

definition qemu_pl110_start :: "display \<Rightarrow> display" where
  "qemu_pl110_start s =
     s\<lparr>pl_regs := pl_regs s @ [(0, 0x3f1f3f9c), (4, 0x080b61df), (16, 0x200000), (28, 0x1829)],
       fb := qemu_pl110_clear (fb s), video_device := 1\<rparr>"

definition video_draw_pixel :: "nat \<Rightarrow> nat \<Rightarrow> u8 \<Rightarrow> u8 \<Rightarrow> u8 \<Rightarrow> pixels \<Rightarrow> pixels" where
  "video_draw_pixel x y r g b v = qemu_pl110_write x y r g b v"

section \<open>The terminal\<close>

text \<open>
  A character outside the font, such as the \<open>253\<close> of the version banner, reads behind the table; \<open>behind\<close> gives the bytes
  that lie there.
\<close>

definition font_glyph :: "(nat \<Rightarrow> u8) \<Rightarrow> u8 \<Rightarrow> u8 list" where
  "font_glyph behind c =
     (if unat c < length font8x8_basic then font8x8_basic ! unat c
      else map (\<lambda>row. behind ((unat c - length font8x8_basic) * 8 + row)) [0..<8])"

definition glyph_row :: "u8 list \<Rightarrow> nat \<Rightarrow> nat \<Rightarrow> nat \<Rightarrow> pixels \<Rightarrow> pixels" where
  "glyph_row g col ry row v =
     fold (\<lambda>i v. if bit (g ! row) i then video_draw_pixel (w32 (col + i)) (w32 (ry + row)) 0xFF 0xFF 0xFF v else v) [0..<8] v"

definition gprintchar :: "(nat \<Rightarrow> u8) \<Rightarrow> u8 \<Rightarrow> nat \<Rightarrow> nat \<Rightarrow> pixels \<Rightarrow> pixels" where
  "gprintchar behind c x y v =
     (let col = w32 (x * 8); ry = w32 (y * 9)
      in fold (glyph_row (font_glyph behind c) col ry) [0..<8] v)"

text \<open>The terminal shares \<^verbatim>\<open>scroll\<close> with \<^verbatim>\<open>terminal.c\<close>, and \<^verbatim>\<open>video_scroll\<close> does nothing on this board.\<close>

definition g_scroll :: "display \<Rightarrow> display" where
  "g_scroll s = (if 25 \<le> g_y s then s\<lparr>g_y := 24\<rparr> else s)"

definition gprintc_char :: "(nat \<Rightarrow> u8) \<Rightarrow> u8 \<Rightarrow> display \<Rightarrow> display" where
  "gprintc_char behind c s =
     (if c = 0x08 \<and> g_x s \<noteq> 0 then s\<lparr>g_x := g_x s - 1\<rparr>
      else if c = 0x09 then s\<lparr>g_x := w32 (g_x s + 8) div 8 * 8\<rparr>
      else if c = 13 then s\<lparr>g_x := 0\<rparr>
      else if c = 10 then s\<lparr>g_x := 0, g_y := w32 (g_y s + 1)\<rparr>
      else if 32 \<le> c
      then s\<lparr>fb := gprintchar behind c (g_x s) (g_y s) (fb s), g_x := w32 (g_x s + 1)\<rparr>
      else s)"

definition gprintc :: "(nat \<Rightarrow> u8) \<Rightarrow> u8 \<Rightarrow> display \<Rightarrow> display" where
  "gprintc behind c s =
     (let s1 = gprintc_char behind c s;
          s2 = (if 80 \<le> g_x s1 then s1\<lparr>g_x := 0, g_y := w32 (g_y s1 + 1)\<rparr> else s1)
      in g_scroll s2)"

text \<open>The argument is the memory from the pointer on; the string ends at the first zero.\<close>

definition gprint :: "(nat \<Rightarrow> u8) \<Rightarrow> u8 list \<Rightarrow> display \<Rightarrow> display" where
  "gprint behind cs s = fold (gprintc behind) (takeWhile (\<lambda>c. c \<noteq> 0) cs) s"

definition gterminal_clear :: "display \<Rightarrow> display" where
  "gterminal_clear s = s\<lparr>fb := qemu_pl110_clear (fb s)\<rparr>"

definition gscroll :: "display \<Rightarrow> display" where
  "gscroll s = (if 25 \<le> g_y s then gterminal_clear (s\<lparr>g_y := 0\<rparr>) else s)"

section \<open>Painting\<close>

text \<open>A loop of strokes that each paint the same colour paints the union of the strokes.\<close>

lemma fold_paint:
  assumes "\<And>r v j. r \<in> set rs \<Longrightarrow> F r v j = (if Q r j then w else v j)"
  shows "fold F rs v j = (if \<exists>r \<in> set rs. Q r j then w else v j)"
  using assms
proof (induction rs arbitrary: v)
  case (Cons r rs)
  then have "fold F rs (F r v) j = (if \<exists>r \<in> set rs. Q r j then w else F r v j)" by auto
  then show ?case using Cons.prems [of r v j] by auto
qed simp

abbreviation white :: u16 where "white \<equiv> rgb 0xFF 0xFF 0xFF"

lemma glyph_row_paint:
  assumes "x < 80" and "y < 50" and "row < 8"
  shows "glyph_row g (x * 8) (y * 9) row v j =
    (if \<exists>i \<in> set [0..<8]. bit (g ! row) i \<and> j = (y * 9 + row) * 640 + (x * 8 + i) then white else v j)"
  unfolding glyph_row_def
proof (rule fold_paint)
  fix i v j
  assume "i \<in> set [0..<8]"
  then have "w32 (x * 8 + i) = x * 8 + i" "w32 (y * 9 + row) = y * 9 + row"
    "w32 ((y * 9 + row) * 640 + (x * 8 + i)) = (y * 9 + row) * 640 + (x * 8 + i)"
    using assms by (auto intro!: w32_id)
  then show "(if bit (g ! row) i then video_draw_pixel (w32 (x * 8 + i)) (w32 (y * 9 + row)) 255 255 255 v else v) j =
      (if bit (g ! row) i \<and> j = (y * 9 + row) * 640 + (x * 8 + i) then white else v j)"
    by (simp add: video_draw_pixel_def qemu_pl110_write_def qemu_pl110_write_index_def)
qed

text \<open>The pixel \<open>(px, py)\<close> of a frame belongs to the glyph \<open>g\<close> at the cell \<open>(x, y)\<close>.\<close>

definition in_glyph :: "u8 list \<Rightarrow> nat \<Rightarrow> nat \<Rightarrow> nat \<Rightarrow> nat \<Rightarrow> bool" where
  "in_glyph g x y px py \<longleftrightarrow> x * 8 \<le> px \<and> px < x * 8 + 8 \<and> y * 9 \<le> py \<and> py < y * 9 + 8 \<and>
     bit (g ! (py - y * 9)) (px - x * 8)"

lemma pixel_index_eq:
  fixes a b c d :: nat
  assumes "b < 640" and "d < 640"
  shows "a * 640 + b = c * 640 + d \<longleftrightarrow> a = c \<and> b = d"
proof
  assume e: "a * 640 + b = c * 640 + d"
  have "(a * 640 + b) div 640 = a" "(a * 640 + b) mod 640 = b" "(c * 640 + d) div 640 = c" "(c * 640 + d) mod 640 = d"
    using assms by simp_all
  with e show "a = c \<and> b = d" by simp
qed simp

lemma gprintchar_paints:
  assumes "x < 80" and "y < 50"
  shows "px < 640 \<Longrightarrow> gprintchar behind c x y v (py * 640 + px) =
      (if in_glyph (font_glyph behind c) x y px py then white else v (py * 640 + px))"
    and "480 * 640 \<le> j \<Longrightarrow> gprintchar behind c x y v j = v j"
proof -
  let ?g = "font_glyph behind c"
  let ?Q = "\<lambda>row j. \<exists>i \<in> set [0..<8]. bit (?g ! row) i \<and> j = (y * 9 + row) * 640 + (x * 8 + i)"
  have w: "w32 (x * 8) = x * 8" "w32 (y * 9) = y * 9" using assms by (auto intro!: w32_id)
  have p: "gprintchar behind c x y v j = (if \<exists>row \<in> set [0..<8]. ?Q row j then white else v j)" for j
    unfolding gprintchar_def Let_def w by (rule fold_paint) (use glyph_row_paint assms(1,2) in auto)
  have "(\<exists>row \<in> set [0..<8]. ?Q row (py * 640 + px)) = in_glyph ?g x y px py" if px: "px < 640"
  proof
    assume "\<exists>row \<in> set [0..<8]. ?Q row (py * 640 + px)"
    then obtain row i where r: "row < 8" "i < 8" "bit (?g ! row) i" "py * 640 + px = (y * 9 + row) * 640 + (x * 8 + i)" by auto
    then have "py = y * 9 + row \<and> px = x * 8 + i" using px assms(1) by (subst (asm) pixel_index_eq) auto
    with r show "in_glyph ?g x y px py" by (simp add: in_glyph_def)
  next
    assume g: "in_glyph ?g x y px py"
    then have "py = y * 9 + (py - y * 9)" "px = x * 8 + (px - x * 8)" by (simp_all add: in_glyph_def)
    with g show "\<exists>row \<in> set [0..<8]. ?Q row (py * 640 + px)"
      by (intro bexI [of _ "py - y * 9"] bexI [of _ "px - x * 8"]) (auto simp: in_glyph_def)
  qed
  then show "px < 640 \<Longrightarrow> gprintchar behind c x y v (py * 640 + px) = (if in_glyph ?g x y px py then white else v (py * 640 + px))"
    unfolding p by simp
  show "480 * 640 \<le> j \<Longrightarrow> gprintchar behind c x y v j = v j"
    unfolding p using assms(1,2) by auto
qed

section \<open>Text\<close>

definition g_on_screen :: "display \<Rightarrow> bool" where
  "g_on_screen s \<longleftrightarrow> g_x s < 80 \<and> g_y s < 25"

text \<open>Whatever the terminal is given, its position stays on the screen and its pixels in the frame.\<close>

lemma gprintc_confined:
  assumes "g_on_screen s"
  shows "g_on_screen (gprintc behind c s) \<and> (\<forall>j \<ge> 480 * 640. fb (gprintc behind c s) j = fb s j)"
proof -
  have xy: "g_x s < 80" "g_y s < 50" "g_y s < 25" using assms by (simp_all add: g_on_screen_def)
  then show ?thesis
    by (auto simp: gprintc_def gprintc_char_def g_scroll_def g_on_screen_def w32_simps Let_def gprintchar_paints(2) [OF xy(1,2)])
qed

lemma gprintcs_confined:
  "g_on_screen s \<Longrightarrow> g_on_screen (fold (gprintc behind) cs s) \<and> (\<forall>j \<ge> 480 * 640. fb (fold (gprintc behind) cs s) j = fb s j)"
proof (induction cs arbitrary: s)
  case (Cons c cs)
  note g = gprintc_confined [OF Cons.prems, of behind c]
  with Cons.IH [of "gprintc behind c s"] show ?case by simp
qed simp

definition printable :: "u8 \<Rightarrow> bool" where
  "printable c \<longleftrightarrow> 32 \<le> c"

lemma printable_not_control:
  assumes "printable c"
  shows "c \<noteq> 0" "c \<noteq> 8" "c \<noteq> 9" "c \<noteq> 13" "c \<noteq> 10"
  using assms by (auto simp: printable_def)

lemma gprintc_printable:
  assumes "printable c" and "g_x s < 79" and "g_y s < 25"
  shows "gprintc behind c s = s\<lparr>fb := gprintchar behind c (g_x s) (g_y s) (fb s), g_x := g_x s + 1\<rparr>"
  using assms printable_not_control [OF assms(1)]
  by (simp add: gprintc_def gprintc_char_def g_scroll_def w32_simps Let_def printable_def)

lemma gprint_text:
  assumes "list_all printable cs" and "g_x s + length cs < 80" and "g_y s < 25"
  shows "g_x (fold (gprintc behind) cs s) = g_x s + length cs \<and> g_y (fold (gprintc behind) cs s) = g_y s \<and>
    (\<forall>px < 640. \<forall>py. fb (fold (gprintc behind) cs s) (py * 640 + px) =
       (if \<exists>k < length cs. in_glyph (font_glyph behind (cs ! k)) (g_x s + k) (g_y s) px py then white else fb s (py * 640 + px)))"
  using assms
proof (induction cs arbitrary: s)
  case (Cons c cs)
  define v where "v = gprintchar behind c (g_x s) (g_y s) (fb s)"
  define u where "u = s\<lparr>fb := v, g_x := g_x s + 1\<rparr>"
  have c: "gprintc behind c s = u" using gprintc_printable [of c s behind] Cons.prems by (simp add: u_def v_def)
  have u: "fb u = v" "g_x u = g_x s + 1" "g_y u = g_y s" by (simp_all add: u_def)
  have "g_x s < 80" "g_y s < 50" using Cons.prems by simp_all
  note v = gprintchar_paints(1) [OF this, of _ behind c "fb s", folded v_def]
  have "list_all printable cs" "g_x u + length cs < 80" "g_y u < 25" using Cons.prems u by simp_all
  note ih = Cons.IH [OF this, unfolded u]
  have "(\<exists>k < length (c # cs). in_glyph (font_glyph behind ((c # cs) ! k)) (g_x s + k) (g_y s) px py) =
      (in_glyph (font_glyph behind c) (g_x s) (g_y s) px py \<or>
       (\<exists>k < length cs. in_glyph (font_glyph behind (cs ! k)) (g_x s + 1 + k) (g_y s) px py))" for px py
    by (auto simp: less_Suc_eq_0_disj)
  with ih v c show ?case by auto
qed simp

section \<open>The generic frame buffer\<close>

record framebuffer =
  f_width :: nat
  f_height :: nat
  f_depth :: nat
  f_pitch :: nat
  f_pixwidth :: nat

text \<open>\<open>mem\<close> is the memory from \<^verbatim>\<open>memory_start\<close> on.\<close>

definition fb_putpixel :: "framebuffer \<Rightarrow> nat \<Rightarrow> nat \<Rightarrow> u32 \<Rightarrow> (nat \<Rightarrow> u8) \<Rightarrow> nat \<Rightarrow> u8" where
  "fb_putpixel f x y color mem =
     (let p = w32 (x * f_pixwidth f + y * f_pitch f)
      in mem(p := ucast (color AND 255), w32 (p + 1) := ucast (drop_bit 8 color AND 255),
           w32 (p + 2) := ucast (drop_bit 16 color AND 255)))"

section \<open>Properties\<close>

text \<open>
  Property C22. Printing text on a line of the graphics terminal draws exactly the glyphs of its characters, one cell
  after the other: a visible pixel is white when it belongs to one of the glyphs and otherwise keeps its colour. The glyph
  of a character that the font does not have is what lies behind the font.
\<close>

theorem gterminal_draws_text:
  assumes "list_all printable cs" and "g_x s + length cs < 80" and "g_y s < 25"
  shows "g_x (gprint behind cs s) = g_x s + length cs \<and> g_y (gprint behind cs s) = g_y s \<and>
    (\<forall>px < 640. \<forall>py. fb (gprint behind cs s) (py * 640 + px) =
       (if \<exists>k < length cs. in_glyph (font_glyph behind (cs ! k)) (g_x s + k) (g_y s) px py then white else fb s (py * 640 + px)))"
proof -
  have "takeWhile (\<lambda>c. c \<noteq> 0) cs = cs"
    using assms(1) printable_not_control(1) by (auto simp: takeWhile_eq_all_conv list_all_iff)
  then have eq: "gprint behind cs s = fold (gprintc behind) cs s" by (simp only: gprint_def)
  show ?thesis unfolding eq by (rule gprint_text [OF assms])
qed

text \<open>A blank display.\<close>

definition display0 :: display where
  "display0 = \<lparr>fb = (\<lambda>_. 0), pl_regs = [], video_device = 1, g_x = 0, g_y = 0\<rparr>"

theorem gterminal_draws_text_witness:
  "fb (gprint (\<lambda>_. 0) (str ''A'') display0) (0 * 640 + 2) = white \<and> fb (gprint (\<lambda>_. 0) (str ''A'') display0) (0 * 640 + 0) = 0"
proof -
  have "list_all printable (str ''A'')" "g_x display0 + length (str ''A'') < 80" "g_y display0 < 25"
    by (simp_all add: str_def printable_def display0_def)
  from gterminal_draws_text [OF this, of "\<lambda>_. 0"] have t: "px < 640 \<Longrightarrow> fb (gprint (\<lambda>_. 0) (str ''A'') display0) (py * 640 + px) =
       (if \<exists>k < length (str ''A''). in_glyph (font_glyph (\<lambda>_. 0) (str ''A'' ! k)) (g_x display0 + k) (g_y display0) px py then white
        else fb display0 (py * 640 + px))" for px py by blast
  have "font8x8_basic ! 65 = [12, 30, 51, 51, 63, 51, 51, 0]" by code_simp
  then have "font_glyph (\<lambda>_. 0) (str ''A'' ! 0) = [12, 30, 51, 51, 63, 51, 51, 0]"
    by (simp add: font_glyph_def font_shape str_def)
  then have "in_glyph (font_glyph (\<lambda>_. 0) (str ''A'' ! 0)) 0 0 2 0" "\<not> in_glyph (font_glyph (\<lambda>_. 0) (str ''A'' ! 0)) 0 0 0 0"
    by (simp_all add: in_glyph_def)
  with t [of 2 0] t [of 0 0] show ?thesis by (auto simp: display0_def str_def)
qed

text \<open>
  Property C35. Starting on the screen, the graphics terminal stays on the screen and writes only to the visible frame,
  whatever bytes it is given to print, also those outside the font.
\<close>

theorem gterminal_confined:
  assumes "g_on_screen s"
  shows "g_on_screen (gprint behind cs s) \<and> (\<forall>j \<ge> 480 * 640. fb (gprint behind cs s) j = fb s j)"
  unfolding gprint_def by (rule gprintcs_confined [OF assms])

theorem gterminal_confined_witness:
  "g_on_screen (gprint (\<lambda>_. 0xFF) (str ''Beryllium'' @ [253]) display0) \<and>
   fb (gprint (\<lambda>_. 0xFF) (str ''Beryllium'' @ [253]) display0) 400000 = 0"
proof -
  have "g_on_screen display0" by (simp add: g_on_screen_def display0_def)
  from gterminal_confined [OF this, of "\<lambda>_. 0xFF" "str ''Beryllium'' @ [253]"] show ?thesis by (simp add: display0_def)
qed

end
