(* ===== verification/Pc_Devices.thy ===== *)
theory Pc_Devices
  imports Device_Manager Graphics
begin

text \<open>
  Small devices of the PC: the Bochs graphics adapter (\<^verbatim>\<open>src/kernel/arch/x86/drivers/bga.c\<close>) with the question
  of \<^verbatim>\<open>video.c\<close> whether graphics can be used, the feature words of the processor (\<^verbatim>\<open>sysinfo.c\<close>), and
  the list of boot modules (\<^verbatim>\<open>modules.c\<close>). Word wide port writes are recorded in order; what a port
  or \<^verbatim>\<open>cpuid\<close> gives is an argument.
\<close>

unbundle bit_operations_syntax

section \<open>The graphics adapter\<close>

record bga =
  bga_out :: "(nat \<times> u16) list"
  bga_isinit :: bool

definition outw :: "nat \<Rightarrow> u16 \<Rightarrow> bga \<Rightarrow> bga" where
  "outw port v s = s\<lparr>bga_out := bga_out s @ [(port, v)]\<rparr>"

definition bga_getFramebuffer :: "nat \<times> framebuffer" where
  "bga_getFramebuffer = (0xE0000000, \<lparr>f_width = 800, f_height = 600, f_depth = 32, f_pitch = 3200, f_pixwidth = 4\<rparr>)"

definition bga_writeregister :: "u16 \<Rightarrow> u16 \<Rightarrow> bga \<Rightarrow> bga" where
  "bga_writeregister index v s = outw 0x01CF v (outw 0x01CE index s)"

text \<open>\<open>reg\<close> is the register file of the adapter.\<close>

definition bga_readregister :: "(u16 \<Rightarrow> u16) \<Rightarrow> u16 \<Rightarrow> bga \<Rightarrow> u16 \<times> bga" where
  "bga_readregister reg index s = (reg index, outw 0x01CE index s)"

definition bga_isavalable :: "(u16 \<Rightarrow> u16) \<Rightarrow> bga \<Rightarrow> bool \<times> bga" where
  "bga_isavalable reg s =
     (let (ver, s') = bga_readregister reg 0 s in (if ver < 0xB0C2 then False else if ver > 0xB0C5 then False else True, s'))"

definition bga_setmode :: "u32 \<Rightarrow> u32 \<Rightarrow> u32 \<Rightarrow> bool \<Rightarrow> bool \<Rightarrow> bga \<Rightarrow> bga" where
  "bga_setmode width height bitdepth linearframebuffer clearvideomemory s =
     bga_writeregister 4 (0x01 OR (if linearframebuffer then 0x40 else 0) OR (if clearvideomemory then 0 else 0x80))
       (bga_writeregister 3 (ucast bitdepth)
         (bga_writeregister 2 (ucast height)
           (bga_writeregister 1 (ucast width) (bga_writeregister 4 0x00 s))))"

definition bga_start :: "(u16 \<Rightarrow> u16) \<Rightarrow> bga \<Rightarrow> u32 \<times> bga" where
  "bga_start reg s =
     (let (ok, s1) = bga_isavalable reg s
      in if \<not> ok then (1, s1) else (0, (bga_setmode 800 600 32 True False s1)\<lparr>bga_isinit := True\<rparr>))"

definition bga_init :: "(u16 \<Rightarrow> u16) \<Rightarrow> addr \<Rightarrow> bga \<Rightarrow> (u32 \<times> bga) option" where
  "bga_init reg driver s = do {
     (r, s') \<leftarrow> driver_start (Some (\<lambda>_ w. Some (bga_start reg w))) driver s;
     Some (0, s')
   }"

definition video_graphics_capable :: "(u16 \<Rightarrow> u16) \<Rightarrow> bga \<Rightarrow> bool \<times> bga" where
  "video_graphics_capable reg s = (let (ok, s') = bga_isavalable reg s in (\<not> ok, s'))"

text \<open>The adapter is put in its mode exactly when its version is known.\<close>

lemma bga_start_modes:
  "bga_start reg s =
     (if reg 0 \<in> {0xB0C2, 0xB0C3, 0xB0C4, 0xB0C5}
      then (0, s\<lparr>bga_isinit := True, bga_out := bga_out s @ [(0x1CE, 0), (0x1CE, 4), (0x1CF, 0), (0x1CE, 1), (0x1CF, 800),
        (0x1CE, 2), (0x1CF, 600), (0x1CE, 3), (0x1CF, 32), (0x1CE, 4), (0x1CF, 0xC1)]\<rparr>)
      else (1, s\<lparr>bga_out := bga_out s @ [(0x1CE, 0)]\<rparr>))"
proof -
  have v: "(\<not> reg 0 < 0xB0C2 \<and> \<not> 0xB0C5 < reg 0) = (reg 0 \<in> {0xB0C2, 0xB0C3, 0xB0C4, 0xB0C5})"
  proof
    assume "\<not> reg 0 < 0xB0C2 \<and> \<not> 0xB0C5 < reg 0"
    then have "45250 \<le> unat (reg 0)" "unat (reg 0) \<le> 45253" by (simp_all add: word_less_nat_alt)
    then have "unat (reg 0) \<in> {45250, 45251, 45252, 45253}" by auto
    then show "reg 0 \<in> {0xB0C2, 0xB0C3, 0xB0C4, 0xB0C5}" by (auto simp: word_unat_eq_iff)
  qed auto
  have "bga_start reg s = (if \<not> reg 0 < 0xB0C2 \<and> \<not> 0xB0C5 < reg 0
      then (0, s\<lparr>bga_isinit := True, bga_out := bga_out s @ [(0x1CE, 0), (0x1CE, 4), (0x1CF, 0), (0x1CE, 1), (0x1CF, 800),
        (0x1CE, 2), (0x1CF, 600), (0x1CE, 3), (0x1CF, 32), (0x1CE, 4), (0x1CF, 0xC1)]\<rparr>)
      else (1, s\<lparr>bga_out := bga_out s @ [(0x1CE, 0)]\<rparr>))"
    by (simp add: bga_start_def bga_isavalable_def bga_readregister_def bga_setmode_def bga_writeregister_def outw_def Let_def)
  then show ?thesis unfolding v .
qed

text \<open>Graphics are reported as usable exactly when the adapter is missing.\<close>

lemma graphics_capable_inverted: "fst (video_graphics_capable reg s) \<longleftrightarrow> fst (bga_start reg s) = 1"
  by (simp add: video_graphics_capable_def bga_start_def Let_def split: prod.split)

text \<open>Distinct pixels of the 800 by 600 frame have distinct bytes, all inside the frame.\<close>

lemma fb_putpixel_inside:
  assumes "x < 800" and "y < 600"
  shows "fb_putpixel (snd bga_getFramebuffer) x y color mem =
      mem(x * 4 + y * 3200 := ucast (color AND 255), x * 4 + y * 3200 + 1 := ucast (drop_bit 8 color AND 255),
        x * 4 + y * 3200 + 2 := ucast (drop_bit 16 color AND 255))"
    and "x * 4 + y * 3200 + 2 < 800 * 600 * 4"
proof -
  have "x * 4 + y * 3200 \<le> 799 * 4 + 599 * 3200" using assms by simp
  then have p: "x * 4 + y * 3200 < 1919997" by simp
  then show "x * 4 + y * 3200 + 2 < 800 * 600 * 4" by simp
  have "w32 (x * 4 + y * 3200) = x * 4 + y * 3200" "w32 (x * 4 + y * 3200 + 1) = x * 4 + y * 3200 + 1"
    "w32 (x * 4 + y * 3200 + 2) = x * 4 + y * 3200 + 2" using p by (auto intro!: w32_id)
  then show "fb_putpixel (snd bga_getFramebuffer) x y color mem =
      mem(x * 4 + y * 3200 := ucast (color AND 255), x * 4 + y * 3200 + 1 := ucast (drop_bit 8 color AND 255),
        x * 4 + y * 3200 + 2 := ucast (drop_bit 16 color AND 255))"
    by (simp add: fb_putpixel_def bga_getFramebuffer_def Let_def)
qed

section \<open>The processor's features\<close>

record cpu_info =
  cpu_features :: u32
  cpu_features_extended :: u32

definition get_x86_cpu_info :: "u32 \<Rightarrow> u32 \<Rightarrow> cpu_info" where
  "get_x86_cpu_info ecx edx = \<lparr>cpu_features = edx, cpu_features_extended = ecx\<rparr>"

definition cpu_feature_avalable :: "u32 \<Rightarrow> cpu_info \<Rightarrow> bool" where
  "cpu_feature_avalable feature s = (cpu_features s AND feature \<noteq> 0)"

definition cpu_feature_extended_avalable :: "u32 \<Rightarrow> cpu_info \<Rightarrow> bool" where
  "cpu_feature_extended_avalable feature s = (cpu_features_extended s AND feature \<noteq> 0)"

section \<open>Boot modules\<close>

definition modloader_init :: "'m alloc \<Rightarrow> 'm list_heap \<Rightarrow> (addr \<times> 'm list_heap) option" where
  "modloader_init alloc s = list_create alloc s"

definition module_add_raw :: "'m alloc \<Rightarrow> addr \<Rightarrow> addr \<Rightarrow> 'm list_heap \<Rightarrow> 'm list_heap option" where
  "module_add_raw alloc modules module s = map_option snd (list_insert alloc modules module s)"

end
