(* ===== verification/Mman.thy ===== *)
theory Mman
  imports Beryllium_Prelude
begin

text \<open>
  The regioned memory manager \<^verbatim>\<open>src/kernel/arch/x86/mman.c\<close> (the Raspberry Pi has the same file).
  Regions are nodes of a list in a store; the first 255 come from the array \<^verbatim>\<open>mman_prealloc\<close> at
  \<open>prealloc_base\<close>, later ones from \<^verbatim>\<open>malloc\<close>, whose result is an argument of \<^verbatim>\<open>memsig\<close>. The address of a
  region outside the store is wild, and so is the entry 255 of the array. Addresses and sizes are
  naturals below \<open>2 ^ 32\<close>.
\<close>

record mman_region =
  r_prev :: addr
  r_next :: addr
  r_used :: u8
  r_type :: u8
  r_flags :: u8
  r_start :: nat
  r_size :: nat

record mman =
  regions :: "addr \<rightharpoonup> mman_region"
  prealloc_base :: addr
  mman_region :: addr
  mman_prealloc_ptr :: u8
  mman_status :: u8

definition sizeof_region :: nat where
  "sizeof_region = 20"

definition zeroed_region :: mman_region where
  "zeroed_region = \<lparr>r_prev = NULL, r_next = NULL, r_used = 0, r_type = 0, r_flags = 0, r_start = 0, r_size = 0\<rparr>"

definition prealloc :: "addr \<Rightarrow> nat \<Rightarrow> addr" where
  "prealloc base i = base + sizeof_region * i"

section \<open>Operations\<close>

text \<open>The loop of \<^verbatim>\<open>memsig\<close> over the list; on a cyclic list it does not end.\<close>

partial_function (option) region_end :: "(addr \<rightharpoonup> mman_region) \<Rightarrow> addr \<Rightarrow> addr option" where
  "region_end rs parent_ptr =
     (case rs parent_ptr of
        None \<Rightarrow> None
      | Some r \<Rightarrow> (if r_next r = NULL then Some parent_ptr else region_end rs (r_next r)))"

definition memsig :: "addr \<Rightarrow> nat \<Rightarrow> nat \<Rightarrow> u8 \<Rightarrow> u8 \<Rightarrow> mman \<Rightarrow> (nat \<times> mman) option" where
  "memsig a start sz ty flags s =
     (if sz = 0 then Some (1, s)
      else if mman_status s = 0 then Some (2, s)
      else do {
        let region = (if mman_status s = 1 then prealloc (prealloc_base s) (unat (mman_prealloc_ptr s)) else a);
        let s1 = (if mman_status s = 1 then s\<lparr>mman_prealloc_ptr := mman_prealloc_ptr s + 1\<rparr> else s);
        old \<leftarrow> regions s1 region;
        let r = old\<lparr>r_start := start, r_size := sz, r_type := ty, r_flags := flags, r_used := 1\<rparr>;
        let s2 = s1\<lparr>regions := (regions s1)(region \<mapsto> r),
                    mman_status := (if ty = 1 \<and> mman_status s1 = 1 then 2 else mman_status s1)\<rparr>;
        if mman_region s2 = NULL
        then Some (0, s2\<lparr>regions := (regions s2)(region \<mapsto> r\<lparr>r_next := NULL\<rparr>)\<rparr>)
        else do {
          parent_ptr \<leftarrow> region_end (regions s2) (mman_region s2);
          p \<leftarrow> regions s2 parent_ptr;
          let rs = (regions s2)(parent_ptr \<mapsto> p\<lparr>r_next := region\<rparr>);
          r' \<leftarrow> rs region;
          Some (0, s2\<lparr>regions := rs(region \<mapsto> r'\<lparr>r_prev := parent_ptr, r_next := NULL\<rparr>)\<rparr>)
        }
      })"

text \<open>The loop of \<^verbatim>\<open>memresize\<close> gives its result code; zero commits the new size.\<close>

partial_function (option) resize_loop :: "(addr \<rightharpoonup> mman_region) \<Rightarrow> addr \<Rightarrow> nat \<Rightarrow> addr \<Rightarrow> nat option" where
  "resize_loop rs region addr_size_new parent_ptr =
     (if parent_ptr = NULL then Some 2
      else do {
        q \<leftarrow> rs parent_ptr;
        r \<leftarrow> rs region;
        if parent_ptr \<noteq> region \<and> r_start q > r_start r \<and> r_start q < addr_size_new then Some 1
        else if r_next q = NULL then Some 0
        else resize_loop rs region addr_size_new (r_next q)
      })"

definition memresize :: "addr \<Rightarrow> nat \<Rightarrow> mman \<Rightarrow> (nat \<times> mman) option" where
  "memresize region sz s = do {
     r \<leftarrow> regions s region;
     let addr_size_new = w32 (sz + r_start r);
     code \<leftarrow> resize_loop (regions s) region addr_size_new (mman_region s);
     Some (code, if code = 0 then s\<lparr>regions := (regions s)(region \<mapsto> r\<lparr>r_size := sz\<rparr>)\<rparr> else s)
   }"

partial_function (option) heap_loop :: "(addr \<rightharpoonup> mman_region) \<Rightarrow> addr \<Rightarrow> addr option" where
  "heap_loop rs parent_ptr =
     (if parent_ptr = NULL then Some NULL
      else do {
        r \<leftarrow> rs parent_ptr;
        if r_type r = 1 then Some parent_ptr else heap_loop rs (r_next r)
      })"

definition get_kernel_heap :: "mman \<Rightarrow> addr option" where
  "get_kernel_heap s = heap_loop (regions s) (mman_region s)"

text \<open>\<open>memallocp\<close> is the page provider, on a state of its own.\<close>

definition mem_heap_sbrk :: "(int \<Rightarrow> 'w \<Rightarrow> (nat \<times> 'w) option) \<Rightarrow> nat \<Rightarrow> mman \<Rightarrow> 'w \<Rightarrow> (nat \<times> 'w) option" where
  "mem_heap_sbrk memallocp amount s w = do {
     heap \<leftarrow> get_kernel_heap s;
     if amount = 0 then do {
       h \<leftarrow> regions s heap;
       Some (w32 (r_start h + r_size h), w)
     }
     else (let actual_amount = amount div 0x1000
           in memallocp (int (if actual_amount = 0 then 1 else actual_amount)) w)
   }"

text \<open>\<open>kend\<close> is the address of the linker symbol \<^verbatim>\<open>_end\<close>.\<close>

definition memman_init :: "nat \<Rightarrow> mman \<Rightarrow> mman option" where
  "memman_init kend s = do {
     let s0 = s\<lparr>regions := (\<lambda>p. if \<exists>i < 0xFF. p = prealloc (prealloc_base s) i then Some zeroed_region else regions s p),
                mman_region := prealloc (prealloc_base s) 0, mman_status := 1\<rparr>;
     (x, s1) \<leftarrow> memsig NULL 0 kend 0 0x21 s0;
     (y, s2) \<leftarrow> memsig NULL (w32 (kend div 0x1000 * 0x1000 + 0x1000)) 0x100000 1 0x21 s1;
     Some s2
   }"

section \<open>The list of regions\<close>

definition region_list :: "mman \<Rightarrow> addr list \<Rightarrow> bool" where
  "region_list s xs \<longleftrightarrow> xs \<noteq> [] \<and> distinct xs \<and> chain r_next (regions s) (mman_region s) xs"

lemma region_end_last:
  assumes "chain r_next rs p xs" and "xs \<noteq> []"
  shows "region_end rs p = Some (last xs)"
  using assms
proof (induction xs arbitrary: p)
  case (Cons x xs)
  then obtain r where r: "rs x = Some r" "chain r_next rs (r_next r) xs" "p = x" by (auto split: option.splits)
  show ?case
  proof (cases xs)
    case Nil
    with r show ?thesis by (subst region_end.simps) simp
  next
    case ys: (Cons y ys)
    with r(2) have "r_next r \<noteq> NULL" by simp
    with Cons.IH [OF r(2)] r ys show ?thesis by (subst region_end.simps) simp
  qed
qed simp

lemma heap_loop_find:
  assumes "chain r_next rs p xs"
  shows "heap_loop rs p = Some (case find (\<lambda>x. \<exists>r. rs x = Some r \<and> r_type r = 1) xs of None \<Rightarrow> NULL | Some x \<Rightarrow> x)"
  using assms
proof (induction xs arbitrary: p)
  case Nil
  then show ?case by (subst heap_loop.simps) simp
next
  case (Cons x xs)
  then obtain r where r: "rs x = Some r" "chain r_next rs (r_next r) xs" "p = x" "x \<noteq> NULL" by (auto split: option.splits)
  with Cons.IH [OF r(2)] show ?case by (subst heap_loop.simps) simp
qed

text \<open>What the resize loop has found out when it gives its code.\<close>

definition in_the_way :: "(addr \<rightharpoonup> mman_region) \<Rightarrow> addr \<Rightarrow> nat \<Rightarrow> addr \<Rightarrow> bool" where
  "in_the_way rs region new x \<longleftrightarrow>
     (\<exists>q r. rs x = Some q \<and> rs region = Some r \<and> x \<noteq> region \<and> r_start q > r_start r \<and> r_start q < new)"

lemma resize_loop_code:
  assumes "chain r_next rs p xs" and "xs \<noteq> []" and "rs region = Some r"
  shows "resize_loop rs region new p = Some (if \<exists>x \<in> set xs. in_the_way rs region new x then 1 else 0)"
  using assms(1,2)
proof (induction xs arbitrary: p)
  case (Cons x xs)
  then obtain q where q: "rs x = Some q" "chain r_next rs (r_next q) xs" "p = x" "x \<noteq> NULL" by (auto split: option.splits)
  have way: "in_the_way rs region new x \<longleftrightarrow> x \<noteq> region \<and> r_start q > r_start r \<and> r_start q < new"
    using q(1) assms(3) by (auto simp: in_the_way_def)
  show ?case
  proof (cases xs)
    case Nil
    with q assms(3) way show ?thesis by (subst resize_loop.simps) (auto simp: in_the_way_def)
  next
    case ys: (Cons y ys)
    with q(2) have "r_next q \<noteq> NULL" by simp
    with Cons.IH [OF q(2)] q assms(3) way ys show ?thesis by (subst resize_loop.simps) auto
  qed
qed simp

section \<open>Adding a region\<close>

lemma memsig_append:
  assumes "region_list s xs" and "sz \<noteq> 0" and "mman_status s \<noteq> 0"
    and "region = (if mman_status s = 1 then prealloc (prealloc_base s) (unat (mman_prealloc_ptr s)) else a)"
    and "region \<notin> set xs" and "region \<noteq> NULL" and "regions s region = Some old"
  shows "\<exists>s' r. memsig a start sz ty flags s = Some (0, s') \<and> region_list s' (xs @ [region]) \<and>
    regions s' region = Some r \<and> r_start r = start \<and> r_size r = sz \<and> r_type r = ty \<and> r_flags r = flags \<and>
    r_prev r = last xs \<and>
    (\<forall>x. x \<noteq> region \<and> x \<noteq> last xs \<longrightarrow> regions s' x = regions s x) \<and>
    regions s' (last xs) = map_option (\<lambda>p. p\<lparr>r_next := region\<rparr>) (regions s (last xs)) \<and>
    mman_region s' = mman_region s \<and> prealloc_base s' = prealloc_base s \<and>
    mman_status s' = (if ty = 1 \<and> mman_status s = 1 then 2 else mman_status s) \<and>
    mman_prealloc_ptr s' = (if mman_status s = 1 then mman_prealloc_ptr s + 1 else mman_prealloc_ptr s)"
proof -
  have xs: "xs \<noteq> []" "distinct xs" "chain r_next (regions s) (mman_region s) xs"
    using assms(1) by (simp_all add: region_list_def)
  let ?r = "old\<lparr>r_start := start, r_size := sz, r_type := ty, r_flags := flags, r_used := 1\<rparr>"
  let ?rs = "(regions s)(region \<mapsto> ?r)"
  have head: "mman_region s \<noteq> NULL" using xs by (cases xs) auto
  have ch: "chain r_next ?rs (mman_region s) xs"
    using assms(5) by (intro chain_cong [OF xs(3)]) auto
  note end1 = region_end_last [OF ch xs(1)]
  have ne: "last xs \<noteq> region" "last xs \<notin> set (butlast xs)" using assms(5) xs not_last_butlast by auto
  obtain p where p: "regions s (last xs) = Some p" using chain_last [OF xs(3,1)] by blast
  let ?rs' = "(?rs(last xs \<mapsto> p\<lparr>r_next := region\<rparr>))(region \<mapsto> ?r\<lparr>r_prev := last xs, r_next := NULL\<rparr>)"
  let ?s' = "(if mman_status s = 1 then s\<lparr>mman_prealloc_ptr := mman_prealloc_ptr s + 1\<rparr> else s)\<lparr>regions := ?rs',
    mman_status := (if ty = 1 \<and> mman_status s = 1 then 2 else mman_status s)\<rparr>"
  have eq: "memsig a start sz ty flags s = Some (0, ?s')"
    using assms(2,3,7) head end1 ne p unfolding memsig_def assms(4) [symmetric]
    by (cases "mman_status s = 1") (simp_all add: Let_def)
  have "chain r_next ?rs' (mman_region s) (xs @ [region])"
    using ne p assms(5,6)
    by (intro chain_append [OF ch xs(1,2), where n = "p\<lparr>r_next := region\<rparr>" and
          e = "?r\<lparr>r_prev := last xs, r_next := NULL\<rparr>"]) (auto dest: in_set_butlastD)
  then have "region_list ?s' (xs @ [region])" using xs assms(5) by (simp add: region_list_def)
  with eq show ?thesis using ne p by (intro exI [of _ ?s'] exI [of _ "?r\<lparr>r_prev := last xs, r_next := NULL\<rparr>"]) simp
qed

section \<open>Properties\<close>

text \<open>Two regions of a list do not overlap.\<close>

definition disjoint_regions :: "(addr \<rightharpoonup> mman_region) \<Rightarrow> addr set \<Rightarrow> bool" where
  "disjoint_regions rs X \<longleftrightarrow>
     (\<forall>x \<in> X. \<forall>y \<in> X. \<forall>q r. x \<noteq> y \<longrightarrow> rs x = Some q \<longrightarrow> rs y = Some r \<longrightarrow>
        r_start q + r_size q \<le> r_start r \<or> r_start r + r_size r \<le> r_start q)"

lemma resize_disjoint:
  assumes "regions s region = Some r" and "region \<in> set xs" and "0 < r_size r" and "disjoint_regions (regions s) (set xs)"
  shows "disjoint_regions ((regions s)(region \<mapsto> r\<lparr>r_size := sz\<rparr>)) (set xs) \<longleftrightarrow>
    \<not> (\<exists>x \<in> set xs. in_the_way (regions s) region (sz + r_start r) x)"
proof
  let ?rs = "(regions s)(region \<mapsto> r\<lparr>r_size := sz\<rparr>)"
  assume d: "disjoint_regions ?rs (set xs)"
  show "\<not> (\<exists>x \<in> set xs. in_the_way (regions s) region (sz + r_start r) x)"
  proof
    assume "\<exists>x \<in> set xs. in_the_way (regions s) region (sz + r_start r) x"
    then obtain x q where x: "x \<in> set xs" "regions s x = Some q" "x \<noteq> region" "r_start r < r_start q" "r_start q < sz + r_start r"
      using assms(1) by (auto simp: in_the_way_def)
    have "r_start q + r_size q \<le> r_start r \<or> r_start r + sz \<le> r_start q"
      using d x(1-3) assms(2) unfolding disjoint_regions_def by (force dest: bspec [of _ _ x])
    with x(4,5) show False by auto
  qed
next
  let ?new = "sz + r_start r"
  let ?rs = "(regions s)(region \<mapsto> r\<lparr>r_size := sz\<rparr>)"
  assume way: "\<not> (\<exists>x \<in> set xs. in_the_way (regions s) region (sz + r_start r) x)"
  have clear: "r_start q + r_size q \<le> r_start r \<or> ?new \<le> r_start q"
    if "x \<in> set xs" "x \<noteq> region" "regions s x = Some q" for x q
  proof -
    have "\<not> (r_start q > r_start r \<and> r_start q < ?new)"
      using assms(1) way that by (auto simp: in_the_way_def)
    moreover have "r_start q + r_size q \<le> r_start r \<or> r_start r + r_size r \<le> r_start q"
      using assms(1,2,4) that unfolding disjoint_regions_def by blast
    ultimately show ?thesis using assms(3) by auto
  qed
  show "disjoint_regions ?rs (set xs)"
    unfolding disjoint_regions_def
  proof (intro ballI allI impI)
    fix x y q r'
    assume xy: "x \<in> set xs" "y \<in> set xs" "x \<noteq> y" "?rs x = Some q" "?rs y = Some r'"
    have old: "r_start q + r_size q \<le> r_start r' \<or> r_start r' + r_size r' \<le> r_start q" if "x \<noteq> region" "y \<noteq> region"
      using that xy assms(4) unfolding disjoint_regions_def by simp
    show "r_start q + r_size q \<le> r_start r' \<or> r_start r' + r_size r' \<le> r_start q"
      using old clear [OF xy(1)] clear [OF xy(2)] xy(3-5) by (cases "x = region"; cases "y = region") (auto simp: add.commute)
  qed
qed

text \<open>
  Property C26. What \<^verbatim>\<open>memresize\<close> does to a list of disjoint regions, for every size: it returns; with the end of the new extent
  taken modulo \<open>2\<^sup>3\<^sup>2\<close> it reports a boundary, and changes nothing, exactly when another region starts inside, and otherwise it
  gives the region its new size. The regions are then still disjoint exactly when no other region starts inside the true
  extent: always when the end does not pass \<open>2\<^sup>3\<^sup>2\<close>, but not when it does and the check has missed a region.
\<close>

theorem memresize_keeps_disjoint:
  assumes "region_list s xs" and "region \<in> set xs" and "regions s region = Some r" and "0 < r_size r"
    and "disjoint_regions (regions s) (set xs)"
  shows "if \<exists>x \<in> set xs. in_the_way (regions s) region (w32 (sz + r_start r)) x then memresize region sz s = Some (1, s)
    else \<exists>s'. memresize region sz s = Some (0, s') \<and> regions s' = (regions s)(region \<mapsto> r\<lparr>r_size := sz\<rparr>) \<and>
      (disjoint_regions (regions s') (set xs) \<longleftrightarrow> \<not> (\<exists>x \<in> set xs. in_the_way (regions s) region (sz + r_start r) x)) \<and>
      (sz + r_start r < 4294967296 \<longrightarrow> disjoint_regions (regions s') (set xs))"
proof -
  have ch: "chain r_next (regions s) (mman_region s) xs" "xs \<noteq> []" using assms(1) by (simp_all add: region_list_def)
  note d = resize_disjoint [OF assms(3,2,4,5), of sz]
  show ?thesis
  proof (cases "\<exists>x \<in> set xs. in_the_way (regions s) region (w32 (sz + r_start r)) x")
    case True
    then show ?thesis using resize_loop_code [OF ch assms(3), of "w32 (sz + r_start r)"] assms(3) by (simp add: memresize_def)
  next
    case False
    then have "memresize region sz s = Some (0, s\<lparr>regions := (regions s)(region \<mapsto> r\<lparr>r_size := sz\<rparr>)\<rparr>)"
      using resize_loop_code [OF ch assms(3), of "w32 (sz + r_start r)"] assms(3) by (simp add: memresize_def)
    moreover have "disjoint_regions ((regions s)(region \<mapsto> r\<lparr>r_size := sz\<rparr>)) (set xs)" if "sz + r_start r < 4294967296"
      using d False that by (simp add: w32_simps)
    ultimately show ?thesis using False d by simp
  qed
qed

text \<open>
  \<^verbatim>\<open>memman_init\<close> leaves two regions: the kernel image, and the kernel heap of one megabyte in the
  page behind it, disjoint from the image; the heap is the one \<^verbatim>\<open>get_kernel_heap\<close> finds.
\<close>

theorem memman_init_layout:
  assumes "prealloc_base s \<noteq> NULL" and "0 < kend" and "kend + 0x1000 < 4294967296" and "mman_prealloc_ptr s = 0"
  shows "\<exists>s' k h. memman_init kend s = Some s' \<and> region_list s' [prealloc_base s, prealloc_base s + 20] \<and>
    regions s' (prealloc_base s) = Some k \<and> r_start k = 0 \<and> r_size k = kend \<and>
    get_kernel_heap s' = Some (prealloc_base s + 20) \<and> regions s' (prealloc_base s + 20) = Some h \<and>
    r_size h = 0x100000 \<and> r_start h mod 0x1000 = 0 \<and> kend < r_start h \<and> mman_status s' = 2"
proof -
  let ?b = "prealloc_base s"
  let ?s0 = "s\<lparr>regions := (\<lambda>p. if \<exists>i < 0xFF. p = prealloc ?b i then Some zeroed_region else regions s p),
    mman_region := prealloc ?b 0, mman_status := 1\<rparr>"
  have pre: "\<exists>i < 0xFF. ?b = prealloc ?b i" "\<exists>i < 0xFF. ?b + 20 = prealloc ?b i"
    by (auto simp: prealloc_def sizeof_region_def intro: exI [of _ 0] exI [of _ 1])
  let ?k = "zeroed_region\<lparr>r_start := 0, r_size := kend, r_type := 0, r_flags := 0x21, r_used := 1, r_next := NULL, r_prev := ?b\<rparr>"
  have b0: "prealloc ?b 0 = ?b" by (simp add: prealloc_def)
  obtain s1 where s1: "memsig NULL 0 kend 0 0x21 ?s0 = Some (0, s1)" "regions s1 = (regions ?s0)(?b \<mapsto> ?k)"
    "mman_region s1 = ?b" "mman_status s1 = 1" "mman_prealloc_ptr s1 = 1" "prealloc_base s1 = ?b"
  proof
    show "memsig NULL 0 kend 0 0x21 ?s0 =
        Some (0, ?s0\<lparr>regions := (regions ?s0)(?b \<mapsto> ?k), mman_prealloc_ptr := 1\<rparr>)"
      using assms pre(1) b0 by (simp add: memsig_def Let_def region_end.simps zeroed_region_def)
  qed (use b0 in simp_all)
  have rl: "region_list s1 [?b]" using s1 assms(1) by (simp add: region_list_def)
  let ?st = "w32 (kend div 0x1000 * 0x1000 + 0x1000)"
  have le: "kend div 0x1000 * 0x1000 \<le> kend" by simp
  then have st: "?st = kend div 0x1000 * 0x1000 + 0x1000" using assms(3) by (intro w32_id) linarith
  obtain s2 h where s2: "memsig NULL ?st 0x100000 1 0x21 s1 = Some (0, s2)" "region_list s2 ([?b] @ [?b + 20])"
    "regions s2 (?b + 20) = Some h" "r_start h = ?st" "r_size h = 0x100000" "r_type h = 1"
    "regions s2 ?b = Some (?k\<lparr>r_next := ?b + 20\<rparr>)" "mman_status s2 = 2" "mman_region s2 = ?b"
    using memsig_append [OF rl, where sz = "0x100000" and region = "?b + 20" and a = NULL and old = zeroed_region and
        start = "?st" and ty = "1" and flags = "0x21"] s1 pre(2) assms(1)
    by (auto simp: prealloc_def sizeof_region_def)
  have heap: "get_kernel_heap s2 = Some (?b + 20)"
    using heap_loop_find [of "regions s2" "mman_region s2" "[?b, ?b + 20]"] s2
    by (simp add: get_kernel_heap_def region_list_def zeroed_region_def)
  have "kend < ?st" "?st mod 0x1000 = 0" unfolding st using div_mult_mod_eq [of kend "0x1000"] by simp_all
  moreover have "memman_init kend s = Some s2" using s1(1) s2(1) by (simp add: memman_init_def)
  ultimately show ?thesis using s2 heap by (intro exI [of _ s2]) (simp add: zeroed_region_def)
qed

text \<open>Two regions at \<open>0x1000\<close> and \<open>0x2000\<close>, and sizes up to the second and round the address space.\<close>

theorem memresize_keeps_disjoint_witness:
  "(\<exists>s'. memresize 4 0x300 \<lparr>regions = [4 \<mapsto> zeroed_region\<lparr>r_next := 24, r_start := 0x1000, r_size := 0x100\<rparr>,
      24 \<mapsto> zeroed_region\<lparr>r_start := 0x2000, r_size := 0x100\<rparr>], prealloc_base = 4, mman_region = 4,
      mman_prealloc_ptr = 2, mman_status = 1\<rparr> = Some (0, s') \<and> disjoint_regions (regions s') {4, 24}) \<and>
   (\<exists>s'. memresize 4 0xFFFFFFFF \<lparr>regions = [4 \<mapsto> zeroed_region\<lparr>r_next := 24, r_start := 0x1000, r_size := 0x100\<rparr>,
      24 \<mapsto> zeroed_region\<lparr>r_start := 0x2000, r_size := 0x100\<rparr>], prealloc_base = 4, mman_region = 4,
      mman_prealloc_ptr = 2, mman_status = 1\<rparr> = Some (0, s') \<and> \<not> disjoint_regions (regions s') {4, 24})"
proof -
  let ?r = "zeroed_region\<lparr>r_next := 24, r_start := 0x1000, r_size := 0x100\<rparr>"
  let ?s = "\<lparr>regions = [4 \<mapsto> ?r, 24 \<mapsto> zeroed_region\<lparr>r_start := 0x2000, r_size := 0x100\<rparr>], prealloc_base = 4,
      mman_region = 4, mman_prealloc_ptr = 2, mman_status = 1\<rparr>"
  have l: "region_list ?s [4, 24]" by (simp add: region_list_def zeroed_region_def)
  have d: "disjoint_regions (regions ?s) (set [4, 24])" by (simp add: disjoint_regions_def)
  have m: "4 \<in> set [4, 24 :: addr]" "regions ?s 4 = Some ?r" "0 < r_size ?r" by simp_all
  have w: "w32 0x1300 = 0x1300" "w32 0x100000FFF = 0xFFF" by (simp_all add: w32_def)
  have 1: "\<not> (\<exists>x \<in> set [4, 24]. in_the_way (regions ?s) 4 (w32 (0x300 + r_start ?r)) x)"
    "\<not> (\<exists>x \<in> set [4, 24]. in_the_way (regions ?s) 4 (w32 (0xFFFFFFFF + r_start ?r)) x)"
    "\<exists>x \<in> set [4, 24]. in_the_way (regions ?s) 4 (0xFFFFFFFF + r_start ?r) x"
    by (simp_all add: in_the_way_def w)
  from memresize_keeps_disjoint [OF l m d, of "0x300"] memresize_keeps_disjoint [OF l m d, of "0xFFFFFFFF"] 1
  show ?thesis by auto
qed

theorem memman_init_layout_witness:
  "\<exists>s'. memman_init 0x123456 \<lparr>regions = Map.empty, prealloc_base = 0x8000, mman_region = 0, mman_prealloc_ptr = 0,
     mman_status = 0\<rparr> = Some s' \<and> get_kernel_heap s' = Some 0x8014"
  using memman_init_layout [of "\<lparr>regions = Map.empty, prealloc_base = 0x8000, mman_region = 0, mman_prealloc_ptr = 0,
     mman_status = 0\<rparr>" "0x123456"] by auto

end
