(* ===== verification/Pc_Start.thy ===== *)
theory Pc_Start
  imports Boot Initrd X86_Heap Pc_Devices Mman
begin

text \<open>
  The whole start of the PC, \<^verbatim>\<open>x86_early\<close> of \<^verbatim>\<open>src/kernel/arch/x86/x86-early.c\<close> and the part of \<^verbatim>\<open>kmain\<close>
  before its loop: what the boot loader hands over (\<^verbatim>\<open>src/kernel/includes/boot/multiboot.h\<close>), the ramdisk among
  its modules, the page tables, the kernel heap over them, the region manager and the list of modules. \<open>Boot\<close>
  has the same functions as far as they concern interrupts. Console and log output are left out.
\<close>

unbundle bit_operations_syntax

section \<open>What the boot loader hands over\<close>





section \<open>The state of the PC\<close>

text \<open>The frames and pages are the memory under the kernel heap, in which the list of modules lives.\<close>

record pc =
  pc_machine :: machine
  pc_devices :: "addr \<rightharpoonup> device"
  pc_heap :: "vmm heap list_heap"
  pc_modules :: addr
  pc_rd :: initrd
  pc_mman :: mman
  kernel_directory :: nat
  current_directory :: nat
  cr0 :: u32
  cr3 :: u32

definition pc_vmm :: "pc \<Rightarrow> vmm" where
  "pc_vmm s = os (lmem (pc_heap s))"

definition set_vmm :: "vmm \<Rightarrow> pc \<Rightarrow> pc" where
  "set_vmm v s = s\<lparr>pc_heap := (pc_heap s)\<lparr>lmem := (lmem (pc_heap s))\<lparr>os := v\<rparr>\<rparr>\<rparr>"







section \<open>The page tables after the start\<close>



section \<open>The start succeeds\<close>


lemma pc_vmm_simps [simp]:
  "pc_vmm (set_vmm v s) = v" "pc_machine (set_vmm v s) = pc_machine s" "pc_devices (set_vmm v s) = pc_devices s"
  "pc_mman (set_vmm v s) = pc_mman s" "pc_rd (set_vmm v s) = pc_rd s"
  "pc_vmm (s\<lparr>pc_machine := m\<rparr>) = pc_vmm s" "pc_vmm (s\<lparr>pc_devices := d\<rparr>) = pc_vmm s" "pc_vmm (s\<lparr>pc_rd := r\<rparr>) = pc_vmm s"
  "pc_vmm (s\<lparr>pc_mman := q\<rparr>) = pc_vmm s" "pc_vmm (s\<lparr>kernel_directory := d'\<rparr>) = pc_vmm s"
  by (simp_all add: pc_vmm_def set_vmm_def)

lemma set_vmm_start:
  "pc_heap s = \<lparr>nodes = Map.empty, lists = Map.empty, lmem = heap_start w\<rparr> \<Longrightarrow>
   pc_heap (set_vmm v s) = \<lparr>nodes = Map.empty, lists = Map.empty, lmem = heap_start v\<rparr>"
  by (simp add: set_vmm_def heap_start_def)








section \<open>Properties\<close>







end
