(* ===== verification/Console.thy ===== *)
theory Console
  imports Printf
begin

text \<open>
  The x86 console: the terminal (\<^verbatim>\<open>src/kernel/terminal.c\<close>), the text mode driver
  (\<^verbatim>\<open>arch/x86/drivers/textmode.c\<close>) behind \<^verbatim>\<open>video.c\<close>, and virtual terminals (\<^verbatim>\<open>vterm.c\<close>). The
  text page at \<^verbatim>\<open>0xB8000\<close> is indexed by \<^verbatim>\<open>int\<close> without a check, so \<open>vram\<close> is a function on all
  integers; 25 rows of 80 cells are visible. Port writes are recorded in order in \<open>crt_out\<close>. The branches of the code for
  other boards are not modelled.
\<close>

unbundle bit_operations_syntax

record console =
  vram :: "int \<Rightarrow> u16"
  attributeByte :: u8
  term_x :: nat
  term_y :: nat
  klog_mask :: int
  crt_out :: "(nat \<times> u8) list"

text \<open>The reading of an unsigned 32 bit value as an \<^verbatim>\<open>int\<close>.\<close>

definition s32 :: "nat \<Rightarrow> int" where
  "s32 n = signed_take_bit 31 (int n)"

lemma s32_small [simp]:
  assumes "n < 2147483648"
  shows "s32 n = int n"
proof -
  have "signed_take_bit 31 (int n) = int n"
    using assms by (intro signed_take_bit_int_eq_self) simp_all
  then show ?thesis by (simp add: s32_def)
qed

definition crt_outb :: "nat \<Rightarrow> u8 \<Rightarrow> console \<Rightarrow> console" where
  "crt_outb port v s = s\<lparr>crt_out := crt_out s @ [(port, v)]\<rparr>"

section \<open>The text mode driver\<close>

definition defaultAttribute :: u8 where
  "defaultAttribute = push_bit 4 0 OR (15 AND 0x0F)"

definition textmode_setcursor :: "int \<Rightarrow> int \<Rightarrow> console \<Rightarrow> console" where
  "textmode_setcursor x y s =
     (let location = (word_of_int (y * 80 + x) :: u16)
      in crt_outb 0x3D5 (ucast location) (crt_outb 0x3D4 15
           (crt_outb 0x3D5 (ucast (drop_bit 8 location)) (crt_outb 0x3D4 14 s))))"

definition textmode_setcolor :: "u8 \<Rightarrow> u8 \<Rightarrow> console \<Rightarrow> console" where
  "textmode_setcolor back fore s = s\<lparr>attributeByte := push_bit 4 back OR (fore AND 0x0F)\<rparr>"

definition textmode_resetcolor :: "console \<Rightarrow> console" where
  "textmode_resetcolor s = s\<lparr>attributeByte := defaultAttribute\<rparr>"

text \<open>A cell holds the character below its attribute.\<close>

definition cell :: "u8 \<Rightarrow> u8 \<Rightarrow> u16" where
  "cell attr c = ucast c OR push_bit 8 (ucast attr)"

definition textmode_write :: "int \<Rightarrow> int \<Rightarrow> u8 \<Rightarrow> console \<Rightarrow> console" where
  "textmode_write x y c s = s\<lparr>vram := (vram s)(y * 80 + x := cell (attributeByte s) c)\<rparr>"

definition textmode_write_color :: "int \<Rightarrow> int \<Rightarrow> u8 \<Rightarrow> u8 \<Rightarrow> console \<Rightarrow> console" where
  "textmode_write_color x y c attr s = s\<lparr>vram := (vram s)(y * 80 + x := cell attr c)\<rparr>"

definition textmode_clear :: "console \<Rightarrow> console" where
  "textmode_clear s = s\<lparr>vram := fold (\<lambda>i v. v(i := 0)) [0..80 * 24 - 1] (vram s)\<rparr>"

definition textmode_read :: "int \<Rightarrow> int \<Rightarrow> u8" where
  "textmode_read x y = 0"

definition textmode_scroll :: "int \<Rightarrow> int \<Rightarrow> console \<Rightarrow> console" where
  "textmode_scroll src dst s =
     (let blank = cell (attributeByte s) 0x20;
          v = fold (\<lambda>i v. v(i := v (i + 80))) [src * 80..dst * 80 - 1] (vram s)
      in s\<lparr>vram := fold (\<lambda>i v. v(i := blank)) [dst * 80..(dst + 1) * 80 - 1] v\<rparr>)"

section \<open>The video layer\<close>

definition video_printchar :: "int \<Rightarrow> int \<Rightarrow> u8 \<Rightarrow> console \<Rightarrow> console" where
  "video_printchar x y c s = textmode_write x y c s"

definition video_printcoloredchar :: "int \<Rightarrow> int \<Rightarrow> u8 \<Rightarrow> u8 \<Rightarrow> console \<Rightarrow> console" where
  "video_printcoloredchar x y c attribute s = textmode_write_color x y c attribute s"

text \<open>A string is given by its characters in front of the terminating zero.\<close>

definition video_printstring :: "int \<Rightarrow> int \<Rightarrow> u8 list \<Rightarrow> console \<Rightarrow> console" where
  "video_printstring x y cs s = fold (\<lambda>i. video_printchar (x + int i) y (cs ! i)) [0..<length cs] s"

definition video_printcoloredstring :: "int \<Rightarrow> int \<Rightarrow> u8 \<Rightarrow> u8 list \<Rightarrow> console \<Rightarrow> console" where
  "video_printcoloredstring x y attribute cs s =
     fold (\<lambda>i. video_printcoloredchar (x + int i) y (cs ! i) attribute) [0..<length cs] s"

definition video_scroll :: "int \<Rightarrow> int \<Rightarrow> console \<Rightarrow> console" where
  "video_scroll src dst s = textmode_scroll src dst s"

definition video_setcursor :: "int \<Rightarrow> int \<Rightarrow> console \<Rightarrow> console" where
  "video_setcursor x y s = textmode_setcursor x y s"

definition video_clear :: "console \<Rightarrow> console" where
  "video_clear s = textmode_clear s"

definition video_setattributetext :: "u8 \<Rightarrow> u8 \<Rightarrow> console \<Rightarrow> console" where
  "video_setattributetext back fore s = textmode_setcolor back fore s"

definition video_resetattributetext :: "console \<Rightarrow> console" where
  "video_resetattributetext s = textmode_resetcolor s"

section \<open>The terminal\<close>

definition scroll :: "console \<Rightarrow> console" where
  "scroll s = (if 25 \<le> term_y s then (video_scroll 0 24 s)\<lparr>term_y := 24\<rparr> else s)"

text \<open>The effect of the character itself, before the line is wrapped.\<close>

definition printc_char :: "u8 \<Rightarrow> console \<Rightarrow> console" where
  "printc_char c s =
     (if c = 0x08 \<and> term_x s \<noteq> 0 then s\<lparr>term_x := term_x s - 1\<rparr>
      else if c = 0x09 then s\<lparr>term_x := w32 (term_x s + 8) div 8 * 8\<rparr>
      else if c = 13 then s\<lparr>term_x := 0\<rparr>
      else if c = 10 then s\<lparr>term_x := 0, term_y := w32 (term_y s + 1)\<rparr>
      else if 32 \<le> c
      then (video_printchar (s32 (term_x s)) (s32 (term_y s)) c s)\<lparr>term_x := w32 (term_x s + 1)\<rparr>
      else s)"

text \<open>The end of \<^verbatim>\<open>printc\<close>: wrap the line, scroll, move the hardware cursor.\<close>

definition printc_settle :: "console \<Rightarrow> console" where
  "printc_settle s1 =
     (let s2 = (if 80 \<le> term_x s1 then s1\<lparr>term_x := 0, term_y := w32 (term_y s1 + 1)\<rparr> else s1);
          s3 = scroll s2
      in video_setcursor (s32 (term_x s3)) (s32 (term_y s3)) s3)"

definition printc :: "u8 \<Rightarrow> console \<Rightarrow> console" where
  "printc c s = printc_settle (printc_char c s)"

definition print :: "u8 list \<Rightarrow> console \<Rightarrow> console" where
  "print cs s = fold printc cs s"

definition terminal_clear :: "console \<Rightarrow> console" where
  "terminal_clear s = video_clear s"

text \<open>\<open>hi\<close> and \<open>lo\<close> are the two bytes the port \<^verbatim>\<open>0x3D5\<close> gives.\<close>

definition terminal_init :: "u8 \<Rightarrow> u8 \<Rightarrow> console \<Rightarrow> console" where
  "terminal_init hi lo s =
     (let s1 = crt_outb 0x3D4 15 (crt_outb 0x3D4 14 s);
          pos = (push_bit 8 (ucast hi) OR ucast lo :: u16);
          s2 = s1\<lparr>term_x := unat pos mod 80, term_y := unat pos div 80\<rparr>
      in video_setcursor (s32 (term_x s2)) (s32 (term_y s2)) s2)"

definition video_prints :: "int \<Rightarrow> u8 list \<Rightarrow> console \<Rightarrow> console" where
  "video_prints video_device cs s = (if video_device = 0 then print cs s else s)"

section \<open>The kernel log\<close>

abbreviation (input) LOG_OK :: int where "LOG_OK \<equiv> 5"
abbreviation (input) LOG_FAIL :: int where "LOG_FAIL \<equiv> 6"

text \<open>A message is the title and the formatted text, in the build without time stamps.\<close>

definition klog :: "int \<Rightarrow> cstring \<Rightarrow> cstring \<Rightarrow> parg list \<Rightarrow> console \<Rightarrow> console option" where
  "klog mode title fmt args s =
     (if mode \<le> klog_mask s
      then do {
        let s1 = video_setattributetext 0x0 0xE s;
        (n, s2) \<leftarrow> (if mode = LOG_OK then printf printc (str ''[OKAY]'') [] s1
                   else if mode = LOG_FAIL then printf printc (str ''[FAIL]'') [] s1
                   else printf printc (str ''%s: '') [Ptr title] s1);
        let s3 = video_resetattributetext s2;
        (n, s4) \<leftarrow> vprintf printc fmt args s3;
        Some s4
      }
      else Some s)"

definition klog_setmask :: "int \<Rightarrow> console \<Rightarrow> console" where
  "klog_setmask mode s = s\<lparr>klog_mask := mode\<rparr>"

text \<open>Formatted text at a position, through a buffer on the stack.\<close>

definition printf_at :: "int \<Rightarrow> int \<Rightarrow> cstring \<Rightarrow> parg list \<Rightarrow> console \<Rightarrow> (nat \<times> console) option" where
  "printf_at x y fmt args s = do {
     out \<leftarrow> do_printf fmt args;
     if 256 \<le> length out then None
     else Some (length out, video_printstring x y (takeWhile (\<lambda>c. c \<noteq> 0) out) s)
   }"

definition printf_at_cc :: "int \<Rightarrow> int \<Rightarrow> u8 \<Rightarrow> cstring \<Rightarrow> parg list \<Rightarrow> console \<Rightarrow> (nat \<times> console) option" where
  "printf_at_cc x y color fmt args s = do {
     out \<leftarrow> do_printf fmt args;
     if 256 \<le> length out then None
     else Some (length out, video_printcoloredstring x y color (takeWhile (\<lambda>c. c \<noteq> 0) out) s)
   }"

section \<open>Virtual terminals\<close>

text \<open>A screen of characters in memory; accesses outside its block are undefined.\<close>

record vterm =
  vt_height :: int
  vt_width :: int
  vt_isInit :: int
  vt_isPhysical :: int
  vt_data :: "u8 list"

text \<open>\<open>junk\<close> is what the allocated block holds.\<close>

definition term_create :: "(nat \<Rightarrow> u8) \<Rightarrow> int \<Rightarrow> int \<Rightarrow> int \<Rightarrow> vterm" where
  "term_create junk width height isPhysical =
     \<lparr>vt_height = height, vt_width = width, vt_isInit = 1, vt_isPhysical = isPhysical,
      vt_data = map junk [0..<nat (height * width)]\<rparr>"

definition term_write :: "int \<Rightarrow> int \<Rightarrow> u8 \<Rightarrow> vterm \<Rightarrow> vterm option" where
  "term_write x y c t =
     (let i = vt_width t * y + x
      in if 0 \<le> i \<and> nat i < length (vt_data t) then Some (t\<lparr>vt_data := (vt_data t)[nat i := c]\<rparr>) else None)"

definition term_writes :: "int \<Rightarrow> int \<Rightarrow> u8 list \<Rightarrow> vterm \<Rightarrow> vterm option" where
  "term_writes x y cs t = foldM (\<lambda>i. term_write (x + int i) y (cs ! i)) [0..<length cs] t"

definition term_read :: "int \<Rightarrow> int \<Rightarrow> vterm \<Rightarrow> u8 option" where
  "term_read x y t =
     (let i = vt_width t * y + x
      in if 0 \<le> i \<and> nat i < length (vt_data t) then Some (vt_data t ! nat i) else None)"

definition blt_cell :: "vterm \<Rightarrow> int \<Rightarrow> int \<Rightarrow> nat \<times> console \<Rightarrow> (nat \<times> console) option" where
  "blt_cell t iy ix is =
     (let (i, s) = is in if i < length (vt_data t) then Some (i + 1, video_printchar ix iy (vt_data t ! i) s) else None)"

definition blt_row :: "vterm \<Rightarrow> int \<Rightarrow> int \<Rightarrow> nat \<times> console \<Rightarrow> (nat \<times> console) option" where
  "blt_row t x iy is = foldM (blt_cell t iy) [x..x + vt_width t - 1] is"

text \<open>The loops compare with \<^verbatim>\<open>!=\<close>: a negative size never meets its end.\<close>

definition term_blt :: "vterm \<Rightarrow> int \<Rightarrow> int \<Rightarrow> console \<Rightarrow> console option" where
  "term_blt t x y s =
     (if vt_height t < 0 \<or> 0 < vt_height t \<and> vt_width t < 0 then None
      else map_option snd (foldM (blt_row t x) [y..y + vt_height t - 1] (0, s)))"

section \<open>What a terminal shows\<close>

text \<open>The contract: 25 rows of 80 cells, a position, and a line feed that drops the top row.\<close>

record tty =
  rows :: "u16 list list"
  t_col :: nat
  t_row :: nat

definition tty_newline :: "u16 \<Rightarrow> tty \<Rightarrow> tty" where
  "tty_newline blank t =
     (if t_row t = 24 then t\<lparr>rows := tl (rows t) @ [replicate 80 blank], t_col := 0\<rparr>
      else t\<lparr>t_col := 0, t_row := t_row t + 1\<rparr>)"

definition tty_column :: "u16 \<Rightarrow> nat \<Rightarrow> tty \<Rightarrow> tty" where
  "tty_column blank x t = (if x < 80 then t\<lparr>t_col := x\<rparr> else tty_newline blank t)"

definition tty_put :: "u8 \<Rightarrow> u8 \<Rightarrow> tty \<Rightarrow> tty" where
  "tty_put attr c t =
     (let blank = cell attr 0x20 in
      if c = 8 then t\<lparr>t_col := t_col t - 1\<rparr>
      else if c = 9 then tty_column blank ((t_col t div 8 + 1) * 8) t
      else if c = 13 then t\<lparr>t_col := 0\<rparr>
      else if c = 10 then tty_newline blank t
      else if 32 \<le> c
      then tty_column blank (t_col t + 1)
        (t\<lparr>rows := (rows t)[t_row t := (rows t ! t_row t)[t_col t := cell attr c]]\<rparr>)
      else t)"

definition row_of :: "(int \<Rightarrow> u16) \<Rightarrow> nat \<Rightarrow> u16 list" where
  "row_of v r = map (\<lambda>c. v (int r * 80 + int c)) [0..<80]"

definition tty_of :: "console \<Rightarrow> tty" where
  "tty_of s = \<lparr>rows = map (row_of (vram s)) [0..<25], t_col = term_x s, t_row = term_y s\<rparr>"

definition on_screen :: "console \<Rightarrow> bool" where
  "on_screen s \<longleftrightarrow> term_x s < 80 \<and> term_y s < 25"

definition visible :: "int \<Rightarrow> bool" where
  "visible i \<longleftrightarrow> 0 \<le> i \<and> i < 2000"

section \<open>The loops of the driver\<close>

lemma upto_snoc: "[a..a + int (Suc n) - 1] = [a..a + int n - 1] @ [a + int n]"
  using upto_rec2 [of a "a + int n"] by (simp add: algebra_simps)

lemma fold_cells:
  assumes "\<And>i v j. f i v j = (if j = i then g v i else v j)" and "\<And>v w i. (\<forall>j \<ge> i. v j = w j) \<Longrightarrow> g v i = g w i"
  shows "fold f [a..b - 1] v j = (if a \<le> j \<and> j < b then g v j else v j)"
proof (cases "a \<le> b")
  case True
  then obtain n where b: "b = a + int n" using zle_iff_zadd by auto
  have "fold f [a..a + int n - 1] v j = (if a \<le> j \<and> j < a + int n then g v j else v j)" for j
  proof (induction n arbitrary: j)
    case (Suc n)
    have "g (fold f [a..a + int n - 1] v) (a + int n) = g v (a + int n)" by (rule assms(2)) (simp add: Suc)
    then show ?case unfolding upto_snoc by (simp add: assms(1) [of "a + int n"] Suc)
  qed auto
  then show ?thesis unfolding b .
qed auto

lemma vram_scroll:
  "vram (textmode_scroll src dst s) j =
     (if dst * 80 \<le> j \<and> j < (dst + 1) * 80 then cell (attributeByte s) 0x20
      else if src * 80 \<le> j \<and> j < dst * 80 then vram s (j + 80) else vram s j)"
proof -
  have a: "fold (\<lambda>i v. v(i := v (i + 80))) [src * 80..dst * 80 - 1] v j =
      (if src * 80 \<le> j \<and> j < dst * 80 then v (j + 80) else v j)" for v :: "int \<Rightarrow> u16"
    by (rule fold_cells) auto
  have b: "fold (\<lambda>i v. v(i := x)) [dst * 80..(dst + 1) * 80 - 1] v j =
      (if dst * 80 \<le> j \<and> j < (dst + 1) * 80 then x else v j)" for v :: "int \<Rightarrow> u16" and x
    by (rule fold_cells) auto
  have c: "vram (s\<lparr>vram := v\<rparr>) = v" for v by simp
  show ?thesis unfolding textmode_scroll_def Let_def c a b ..
qed

lemma vram_clear: "vram (textmode_clear s) j = (if 0 \<le> j \<and> j < 1920 then 0 else vram s j)"
proof -
  have "fold (\<lambda>i v. v(i := 0)) [0..80 * 24 - 1] v j = (if 0 \<le> j \<and> j < 80 * 24 then 0 else v j)" for v :: "int \<Rightarrow> u16"
    by (rule fold_cells) auto
  then show ?thesis by (simp add: textmode_clear_def)
qed

lemma setcursor_fields [simp]:
  "vram (textmode_setcursor x y s) = vram s" "attributeByte (textmode_setcursor x y s) = attributeByte s"
  "term_x (textmode_setcursor x y s) = term_x s" "term_y (textmode_setcursor x y s) = term_y s"
  by (simp_all add: textmode_setcursor_def crt_outb_def Let_def)

lemma scroll_fields [simp]:
  "attributeByte (textmode_scroll a b s) = attributeByte s"
  "term_x (textmode_scroll a b s) = term_x s" "term_y (textmode_scroll a b s) = term_y s"
  by (simp_all add: textmode_scroll_def Let_def)

lemma write_fields [simp]:
  "attributeByte (textmode_write x y c s) = attributeByte s"
  "term_x (textmode_write x y c s) = term_x s" "term_y (textmode_write x y c s) = term_y s"
  by (simp_all add: textmode_write_def)

section \<open>The terminal meets its contract\<close>

abbreviation rows_of :: "(int \<Rightarrow> u16) \<Rightarrow> u16 list list" where
  "rows_of v \<equiv> map (row_of v) [0..<25]"

lemma cell_index_eq:
  fixes a b c d :: nat
  assumes "b < 80" and "d < 80"
  shows "int a * 80 + int b = int c * 80 + int d \<longleftrightarrow> a = c \<and> b = d"
proof
  assume "int a * 80 + int b = int c * 80 + int d"
  then have e: "a * 80 + b = c * 80 + d" by linarith
  have "(a * 80 + b) div 80 = a" "(a * 80 + b) mod 80 = b" "(c * 80 + d) div 80 = c" "(c * 80 + d) mod 80 = d"
    using assms by simp_all
  with e show "a = c \<and> b = d" by simp
qed simp

lemma rows_of_write:
  assumes "x < 80" and "y < 25"
  shows "rows_of (v(int y * 80 + int x := e)) = (rows_of v)[y := (rows_of v ! y)[x := e]]"
proof (rule nth_equalityI)
  fix r
  assume "r < length (rows_of (v(int y * 80 + int x := e)))"
  then have r: "r < 25" by simp
  show "rows_of (v(int y * 80 + int x := e)) ! r = (rows_of v)[y := (rows_of v ! y)[x := e]] ! r"
    using r assms by (intro nth_equalityI) (auto simp: row_of_def nth_list_update cell_index_eq)
qed simp

lemma rows_of_scroll:
  "rows_of (vram (textmode_scroll 0 24 s)) = tl (rows_of (vram s)) @ [replicate 80 (cell (attributeByte s) 0x20)]"
proof (rule nth_equalityI)
  fix r
  assume "r < length (rows_of (vram (textmode_scroll 0 24 s)))"
  then have r: "r < 25" by simp
  show "rows_of (vram (textmode_scroll 0 24 s)) ! r =
      (tl (rows_of (vram s)) @ [replicate 80 (cell (attributeByte s) 0x20)]) ! r"
  proof (cases "r = 24")
    case True
    then show ?thesis by (intro nth_equalityI) (auto simp: row_of_def vram_scroll nth_append)
  next
    case False
    with r have "(tl (rows_of (vram s)) @ [replicate 80 (cell (attributeByte s) 0x20)]) ! r = rows_of (vram s) ! Suc r"
      by (simp add: nth_append nth_tl del: upt_Suc upt.simps)
    with False r show ?thesis
      by (intro nth_equalityI) (auto simp: row_of_def vram_scroll algebra_simps)
  qed
qed simp

lemma scroll_row:
  assumes "term_y s = 25"
  shows "tty_of (scroll s) =
    \<lparr>rows = tl (rows_of (vram s)) @ [replicate 80 (cell (attributeByte s) 0x20)], t_col = term_x s, t_row = 24\<rparr>"
proof -
  have "vram (scroll s) = vram (textmode_scroll 0 24 s)" "term_x (scroll s) = term_x s" "term_y (scroll s) = 24"
    using assms by (simp_all add: scroll_def video_scroll_def)
  then show ?thesis unfolding tty_of_def rows_of_scroll [symmetric] by simp
qed

lemma tty_of_newline:
  assumes "y < 25" and "vram u = vram s" and "attributeByte u = attributeByte s" and "term_x u = 0"
    and "term_y u = y + 1"
  shows "tty_of (scroll u) = tty_newline (cell (attributeByte s) 0x20) (tty_of s\<lparr>t_row := y\<rparr>)"
proof (cases "y = 24")
  case True
  then have "term_y u = 25" using assms by simp
  from scroll_row [OF this] True assms show ?thesis
    by (simp add: tty_newline_def tty_of_def del: upt_Suc upt.simps)
next
  case False
  with assms show ?thesis by (simp add: scroll_def tty_newline_def tty_of_def del: upt_Suc upt.simps)
qed

lemma tty_of_setcursor [simp]: "tty_of (video_setcursor x y s) = tty_of s"
  by (simp add: tty_of_def video_setcursor_def del: upt_Suc upt.simps)

lemma tty_of_settle:
  assumes "term_y u < 25"
  shows "tty_of (printc_settle u) = tty_column (cell (attributeByte u) 0x20) (term_x u) (tty_of u)"
proof (cases "80 \<le> term_x u")
  case True
  let ?u = "u\<lparr>term_x := 0, term_y := w32 (term_y u + 1)\<rparr>"
  have "tty_of (printc_settle u) = tty_of (scroll ?u)" using True by (simp add: printc_settle_def Let_def)
  also have "\<dots> = tty_newline (cell (attributeByte u) 0x20) (tty_of u\<lparr>t_row := term_y u\<rparr>)"
    using assms by (intro tty_of_newline) (simp_all add: w32_simps)
  finally show ?thesis using True by (simp add: tty_column_def tty_of_def del: upt_Suc upt.simps)
next
  case False
  then have "tty_of (printc_settle u) = tty_of u" using assms by (simp add: printc_settle_def Let_def scroll_def)
  with False show ?thesis by (simp add: tty_column_def tty_of_def del: upt_Suc upt.simps)
qed

lemma tty_of_write:
  assumes "on_screen s"
  shows "tty_of ((video_printchar (s32 (term_x s)) (s32 (term_y s)) c s)\<lparr>term_x := x\<rparr>) =
    (tty_of s)\<lparr>rows := (rows (tty_of s))[term_y s := (rows (tty_of s) ! term_y s)[term_x s := cell (attributeByte s) c]],
      t_col := x\<rparr>"
  using assms rows_of_write [of "term_x s" "term_y s" "vram s" "cell (attributeByte s) c"]
  by (simp add: on_screen_def tty_of_def video_printchar_def textmode_write_def del: upt_Suc upt.simps)

lemma w32_tab:
  assumes "x < 80"
  shows "w32 (x + 8) div 8 * 8 = (x div 8 + 1) * 8"
proof -
  have "(x + 8) div 8 = x div 8 + 1" by simp
  with assms show ?thesis by (simp add: w32_simps)
qed

lemma printc_refines:
  assumes "on_screen s"
  shows "tty_of (printc c s) = tty_put (attributeByte s) c (tty_of s)"
proof -
  have xy: "term_x s < 80" "term_y s < 25" using assms by (simp_all add: on_screen_def)
  have colrow: "t_col (tty_of s) = term_x s" "t_row (tty_of s) = term_y s" by (simp_all add: tty_of_def)
  have pos: "tty_of (printc_settle (s\<lparr>term_x := x\<rparr>)) = tty_column (cell (attributeByte s) 0x20) x (tty_of s)" for x
    using tty_of_settle [of "s\<lparr>term_x := x\<rparr>"] xy
    by (simp add: tty_column_def tty_newline_def tty_of_def del: upt_Suc upt.simps)
  consider "c = 8" | "c = 9" | "c = 13" | "c = 10" | "c \<notin> {8, 9, 13, 10}" "32 \<le> c" | "c \<notin> {8, 9, 13, 10}" "\<not> 32 \<le> c"
    by auto
  then show ?thesis
  proof cases
    case 1
    have "printc_char c s = s\<lparr>term_x := term_x s - 1\<rparr>" using 1 by (auto simp: printc_char_def)
    with pos 1 xy show ?thesis by (simp add: printc_def tty_put_def tty_column_def colrow)
  next
    case 2
    with pos xy show ?thesis by (simp add: printc_def printc_char_def tty_put_def colrow w32_tab)
  next
    case 3
    with pos xy show ?thesis by (simp add: printc_def printc_char_def tty_put_def tty_column_def)
  next
    case 4
    let ?u = "s\<lparr>term_x := 0, term_y := w32 (term_y s + 1)\<rparr>"
    have "tty_of (printc c s) = tty_of (scroll ?u)"
      using 4 by (simp add: printc_def printc_char_def printc_settle_def Let_def)
    also have "\<dots> = tty_newline (cell (attributeByte s) 0x20) (tty_of s\<lparr>t_row := term_y s\<rparr>)"
      using xy by (intro tty_of_newline) (simp_all add: w32_simps)
    finally show ?thesis using 4 by (simp add: tty_put_def tty_of_def del: upt_Suc upt.simps)
  next
    case 5
    let ?u = "(video_printchar (s32 (term_x s)) (s32 (term_y s)) c s)\<lparr>term_x := term_x s + 1\<rparr>"
    have "printc_char c s = ?u" using 5 xy by (simp add: printc_char_def w32_simps)
    moreover have "term_y ?u < 25" "attributeByte ?u = attributeByte s" using xy by (simp_all add: video_printchar_def)
    ultimately have "tty_of (printc c s) = tty_column (cell (attributeByte s) 0x20) (term_x s + 1) (tty_of ?u)"
      using tty_of_settle [of ?u] by (simp add: printc_def)
    also have "\<dots> = tty_put (attributeByte s) c (tty_of s)"
      using 5 unfolding tty_of_write [OF assms]
      by (simp add: tty_put_def colrow tty_column_def tty_newline_def)
    finally show ?thesis .
  next
    case 6
    then have "printc_char c s = s\<lparr>term_x := term_x s\<rparr>" by (auto simp: printc_char_def)
    with pos [of "term_x s"] 6 xy show ?thesis by (simp add: printc_def tty_put_def tty_column_def colrow [symmetric])
  qed
qed

text \<open>What a character leaves alone: the attribute, and all memory behind the visible page.\<close>

lemma settle_fields:
  assumes "term_y u \<le> 25" and "80 \<le> term_x u \<Longrightarrow> term_y u < 25"
  shows "on_screen (printc_settle u)" and "attributeByte (printc_settle u) = attributeByte u"
    and "\<not> visible i \<Longrightarrow> vram (printc_settle u) i = vram u i"
  using assms by (auto simp: printc_settle_def Let_def scroll_def video_setcursor_def video_scroll_def vram_scroll
      on_screen_def visible_def w32_simps)

lemma printc_frame:
  assumes "on_screen s"
  shows "on_screen (printc c s)" and "attributeByte (printc c s) = attributeByte s"
    and "\<not> visible i \<Longrightarrow> vram (printc c s) i = vram s i"
proof -
  let ?u = "printc_char c s"
  have xy: "term_x s < 80" "term_y s < 25" using assms by (simp_all add: on_screen_def)
  have u: "term_y ?u \<le> 25" "80 \<le> term_x ?u \<Longrightarrow> term_y ?u < 25" "attributeByte ?u = attributeByte s"
    using xy by (auto simp: printc_char_def video_printchar_def w32_simps split: if_splits)
  have v: "vram ?u i = vram s i" if "\<not> visible i"
    using xy that by (auto simp: printc_char_def video_printchar_def textmode_write_def visible_def)
  show "on_screen (printc c s)" "attributeByte (printc c s) = attributeByte s"
    using settle_fields [OF u(1,2)] u(3) by (simp_all add: printc_def)
  show "vram (printc c s) i = vram s i" if "\<not> visible i"
    using settle_fields(3) [OF u(1,2) that] v [OF that] by (simp add: printc_def)
qed

lemma print_frame:
  assumes "on_screen s"
  shows "on_screen (print cs s)" and "attributeByte (print cs s) = attributeByte s"
    and "\<not> visible i \<Longrightarrow> vram (print cs s) i = vram s i"
  using assms by (induction cs arbitrary: s) (auto simp: print_def printc_frame)

lemma print_refines:
  assumes "on_screen s"
  shows "tty_of (print cs s) = fold (tty_put (attributeByte s)) cs (tty_of s)"
  using assms
proof (induction cs arbitrary: s)
  case (Cons c cs)
  from Cons.IH [OF printc_frame(1) [OF Cons.prems]] show ?case
    by (simp add: print_def printc_refines [OF Cons.prems] printc_frame(2) [OF Cons.prems])
qed (simp add: print_def)

text \<open>The hardware cursor is where the next character goes.\<close>

definition cursor_at :: "(nat \<times> u8) list \<Rightarrow> nat \<Rightarrow> bool" where
  "cursor_at out n \<longleftrightarrow> drop (length out - 4) out =
     [(0x3D4, 14), (0x3D5, of_nat (n div 256)), (0x3D4, 15), (0x3D5, of_nat n)] \<and> n < 65536"

lemma cursor_setcursor:
  assumes "on_screen s"
  shows "cursor_at (crt_out (video_setcursor (s32 (term_x s)) (s32 (term_y s)) s)) (term_y s * 80 + term_x s)"
proof -
  define n where "n = term_y s * 80 + term_x s"
  have n: "n < 65536" and e: "s32 (term_y s) * 80 + s32 (term_x s) = int n"
    using assms by (auto simp: on_screen_def n_def)
  have "(ucast (drop_bit 8 (of_nat n :: u16)) :: u8) = of_nat (unat (drop_bit 8 (of_nat n :: u16)))"
    by (simp only: of_nat_unat)
  also have "unat (drop_bit 8 (of_nat n :: u16)) = n div 256"
    unfolding unat_drop_bit_eq using n by (simp add: drop_bit_eq_div take_bit_nat_eq_self unsigned_of_nat)
  finally have hi: "(ucast (drop_bit 8 (of_nat n :: u16)) :: u8) = of_nat (n div 256)" .
  have lo: "(ucast (of_nat n :: u16) :: u8) = of_nat n"
    using n by (simp add: unsigned_of_nat take_bit_nat_eq_self)
  show ?thesis unfolding n_def [symmetric] cursor_at_def video_setcursor_def textmode_setcursor_def e
    by (simp add: crt_outb_def hi lo n)
qed

lemma print_snoc: "print (cs @ [c]) s = printc c (print cs s)"
  by (simp add: print_def)

lemma print_cursor:
  assumes "on_screen s" and "cs \<noteq> []"
  shows "cursor_at (crt_out (print cs s)) (term_y (print cs s) * 80 + term_x (print cs s))"
proof -
  obtain ds d where ds: "cs = ds @ [d]" using assms(2) by (cases cs rule: rev_cases) auto
  obtain u where u: "print cs s = video_setcursor (s32 (term_x u)) (s32 (term_y u)) u"
    unfolding ds print_snoc printc_def printc_settle_def Let_def by blast
  then have "on_screen u" using print_frame(1) [OF assms(1), of cs] by (simp add: on_screen_def video_setcursor_def)
  from cursor_setcursor [OF this] show ?thesis unfolding u by (simp add: video_setcursor_def)
qed

section \<open>Messages\<close>

lemma title_text:
  assumes "0 \<notin> set title"
  shows "do_printf (str ''%s: '') [Ptr title] = Some (title @ str '': '')"
  using assms by (simp add: pf_fields)

lemma printf_console: "printf printc fmt args s = map_option (\<lambda>out. (length out, print out s)) (do_printf fmt args)"
  by (cases "do_printf fmt args") (simp_all add: printf_def vprintf_def print_def)

section \<open>Blitting\<close>

lemma blt_cells:
  assumes "i + n \<le> length (vt_data t)"
  shows "\<exists>s'. foldM (blt_cell t iy) [x..x + int n - 1] (i, s) = Some (i + n, s') \<and> attributeByte s' = attributeByte s \<and>
    (\<forall>j. vram s' j = (if iy * 80 + x \<le> j \<and> j < iy * 80 + x + int n
       then cell (attributeByte s) (vt_data t ! (i + nat (j - (iy * 80 + x)))) else vram s j))"
  using assms
proof (induction n)
  case (Suc n)
  then obtain u where u: "foldM (blt_cell t iy) [x..x + int n - 1] (i, s) = Some (i + n, u)" "attributeByte u = attributeByte s"
    "\<And>j. vram u j = (if iy * 80 + x \<le> j \<and> j < iy * 80 + x + int n
       then cell (attributeByte s) (vt_data t ! (i + nat (j - (iy * 80 + x)))) else vram s j)"
    by auto
  let ?s' = "video_printchar (x + int n) iy (vt_data t ! (i + n)) u"
  have "foldM (blt_cell t iy) [x..x + int (Suc n) - 1] (i, s) = Some (i + Suc n, ?s')"
    unfolding upto_snoc using u(1) Suc.prems by (simp add: foldM_append blt_cell_def)
  moreover have "attributeByte ?s' = attributeByte s" using u(2) by (simp add: video_printchar_def)
  moreover have "vram ?s' j = (if iy * 80 + x \<le> j \<and> j < iy * 80 + x + int (Suc n)
      then cell (attributeByte s) (vt_data t ! (i + nat (j - (iy * 80 + x)))) else vram s j)" for j
  proof (cases "j = iy * 80 + x + int n")
    case True
    then show ?thesis using u(2) by (simp add: video_printchar_def textmode_write_def algebra_simps)
  next
    case False
    then have "j < iy * 80 + x + int (Suc n) \<longleftrightarrow> j < iy * 80 + x + int n" by auto
    with False u(3) [of j] show ?thesis by (simp add: video_printchar_def textmode_write_def algebra_simps)
  qed
  ultimately show ?case by blast
qed auto

text \<open>The cells a virtual terminal covers when it is drawn at \<open>(x, y)\<close>, with its \<open>m\<close> top rows done.\<close>

definition drawn :: "vterm \<Rightarrow> int \<Rightarrow> int \<Rightarrow> nat \<Rightarrow> nat \<Rightarrow> console \<Rightarrow> console \<Rightarrow> bool" where
  "drawn t x y w m s s' \<longleftrightarrow> attributeByte s' = attributeByte s \<and>
     (\<forall>r < m. \<forall>c < w. vram s' ((y + int r) * 80 + x + int c) = cell (attributeByte s) (vt_data t ! (r * w + c))) \<and>
     (\<forall>j. (\<forall>r < m. \<forall>c < w. j \<noteq> (y + int r) * 80 + x + int c) \<longrightarrow> vram s' j = vram s j)"

lemma drawn_row:
  assumes "drawn t x y w m s u" and "w \<le> 80" and "attributeByte s' = attributeByte u"
    and "\<And>j. vram s' j = (if (y + int m) * 80 + x \<le> j \<and> j < (y + int m) * 80 + x + int w
       then cell (attributeByte u) (vt_data t ! (m * w + nat (j - ((y + int m) * 80 + x)))) else vram u j)"
  shows "drawn t x y w (Suc m) s s'"
proof -
  have a: "attributeByte u = attributeByte s" using assms(1) by (simp add: drawn_def)
  have "vram s' ((y + int r) * 80 + x + int c) = cell (attributeByte s) (vt_data t ! (r * w + c))"
    if "r < Suc m" "c < w" for r c
  proof (cases "r = m")
    case True
    then show ?thesis using that a by (simp add: assms(4))
  next
    case False
    with that have "int r + 1 \<le> int m" by auto
    then have "int r * 80 + 80 \<le> int m * 80" by linarith
    then have "\<not> (y + int m) * 80 + x \<le> (y + int r) * 80 + x + int c"
      using that assms(2) by (simp add: distrib_right)
    then show ?thesis using False that assms(1) by (simp add: assms(4) drawn_def)
  qed
  moreover have "vram s' j = vram s j" if j: "\<forall>r < Suc m. \<forall>c < w. j \<noteq> (y + int r) * 80 + x + int c" for j
  proof -
    have "\<not> ((y + int m) * 80 + x \<le> j \<and> j < (y + int m) * 80 + x + int w)"
    proof
      assume h: "(y + int m) * 80 + x \<le> j \<and> j < (y + int m) * 80 + x + int w"
      then have "nat (j - ((y + int m) * 80 + x)) < w" by auto
      moreover have "j = (y + int m) * 80 + x + int (nat (j - ((y + int m) * 80 + x)))" using h by simp
      ultimately show False using j by blast
    qed
    then have "vram s' j = vram u j" unfolding assms(4) by (rule if_not_P)
    also have "\<dots> = vram s j" using assms(1) j unfolding drawn_def by (meson less_Suc_eq)
    finally show ?thesis .
  qed
  ultimately show ?thesis using assms(3) a by (simp add: drawn_def)
qed

lemma blt_rows:
  assumes "vt_width t = int w" and "w \<le> 80" and "m * w \<le> length (vt_data t)"
  shows "\<exists>s'. foldM (blt_row t x) [y..y + int m - 1] (0, s) = Some (m * w, s') \<and> drawn t x y w m s s'"
  using assms(3)
proof (induction m)
  case 0
  show ?case by (simp add: drawn_def)
next
  case (Suc m)
  then obtain u where u: "foldM (blt_row t x) [y..y + int m - 1] (0, s) = Some (m * w, u)" "drawn t x y w m s u" by auto
  obtain s' where s': "foldM (blt_cell t (y + int m)) [x..x + int w - 1] (m * w, u) = Some (m * w + w, s')"
      "attributeByte s' = attributeByte u"
      "\<And>j. vram s' j = (if (y + int m) * 80 + x \<le> j \<and> j < (y + int m) * 80 + x + int w
         then cell (attributeByte u) (vt_data t ! (m * w + nat (j - ((y + int m) * 80 + x)))) else vram u j)"
    using blt_cells [of "m * w" w t "y + int m" x u] Suc.prems by auto
  have "foldM (blt_row t x) [y..y + int (Suc m) - 1] (0, s) = Some (Suc m * w, s')"
    unfolding upto_snoc using u(1) s'(1) assms(1) by (simp add: foldM_append blt_row_def add.commute)
  with drawn_row [OF u(2) assms(2) s'(2,3)] show ?case by blast
qed

section \<open>Properties\<close>

text \<open>
  Property C5. The terminal implements a 25 by 80 screen: printing a string from a position on the screen does what
  the contract says, row by row, with a scroll at the bottom, leaves the position on the screen and the hardware cursor
  at it, and never writes behind the visible page.
\<close>

theorem terminal_refines_tty:
  assumes "on_screen s"
  shows "tty_of (print cs s) = fold (tty_put (attributeByte s)) cs (tty_of s) \<and> on_screen (print cs s) \<and>
    (\<forall>i. visible i \<or> vram (print cs s) i = vram s i) \<and>
    (cs = [] \<or> cursor_at (crt_out (print cs s)) (term_y (print cs s) * 80 + term_x (print cs s)))"
  using print_refines [OF assms] print_frame [OF assms] print_cursor [OF assms] by blast

text \<open>The terminal of a machine that has just been switched on.\<close>

definition console0 :: console where
  "console0 = \<lparr>vram = (\<lambda>_. 0), attributeByte = defaultAttribute, term_x = 0, term_y = 0, klog_mask = 10, crt_out = []\<rparr>"

lemma console0_on_screen: "on_screen console0" "on_screen (console0\<lparr>term_y := 24, term_x := 79\<rparr>)"
  by (simp_all add: on_screen_def console0_def)

theorem terminal_refines_tty_witness:
  "tty_of (print (str ''A'') (console0\<lparr>term_y := 24, term_x := 79\<rparr>)) =
     tty_put defaultAttribute 65 (tty_of (console0\<lparr>term_y := 24, term_x := 79\<rparr>)) \<and>
   on_screen (print (str ''A'') (console0\<lparr>term_y := 24, term_x := 79\<rparr>))"
  using terminal_refines_tty [OF console0_on_screen(2), of "str ''A''"] by (simp add: console0_def str_def)

definition klog_header :: "int \<Rightarrow> cstring \<Rightarrow> cstring" where
  "klog_header mode title =
     (if mode = LOG_OK then str ''[OKAY]'' else if mode = LOG_FAIL then str ''[FAIL]'' else title @ str '': '')"

lemma row_index:
  assumes "(r :: nat) < h" and "c < w"
  shows "r * w + c < h * w"
proof -
  have "r * w + c < Suc r * w" using assms(2) by simp
  also have "\<dots> \<le> h * w" using assms(1) by (intro mult_le_mono1) simp
  finally show ?thesis .
qed

lemma klog_steps:
  assumes "mode \<le> klog_mask s" and "0 \<notin> set title" and "do_printf fmt args = Some out"
  shows "klog mode title fmt args s =
    Some (print out (video_resetattributetext (print (klog_header mode title) (video_setattributetext 0x0 0xE s))))"
proof -
  have "do_printf (str ''[OKAY]'') [] = Some (str ''[OKAY]'')" "do_printf (str ''[FAIL]'') [] = Some (str ''[FAIL]'')"
    using pf_loop_text [of _ "[]" "[]"] by (simp_all add: do_printf_def str_def)
  with assms title_text [OF assms(2)] show ?thesis
    by (simp add: klog_def printf_console klog_header_def printf_console [unfolded printf_def])
qed

text \<open>
  A log message that passes the mask appears as its title in yellow followed by the formatted text in
  white, and leaves the terminal on the screen and in the default colour; a message above the mask changes nothing.
\<close>

theorem klog_shows_message:
  assumes "on_screen s" and "0 \<notin> set title" and "do_printf fmt args = Some out"
  shows "if mode \<le> klog_mask s
    then \<exists>s'. klog mode title fmt args s = Some s' \<and> on_screen s' \<and> attributeByte s' = defaultAttribute \<and>
      tty_of s' = fold (tty_put 0x0F) out (fold (tty_put 0x0E) (klog_header mode title) (tty_of s))
    else klog mode title fmt args s = Some s"
proof -
  let ?s1 = "video_setattributetext 0x0 0xE s"
  let ?s3 = "video_resetattributetext (print (klog_header mode title) ?s1)"
  have s1: "on_screen ?s1" "attributeByte ?s1 = 0x0E" "tty_of ?s1 = tty_of s"
    using assms(1) by (simp_all add: video_setattributetext_def textmode_setcolor_def on_screen_def tty_of_def del: upt_Suc upt.simps)
  have s3: "on_screen ?s3" "attributeByte ?s3 = 0x0F" "tty_of ?s3 = tty_of (print (klog_header mode title) ?s1)"
    using print_frame(1) [OF s1(1)]
    by (simp_all add: video_resetattributetext_def textmode_resetcolor_def defaultAttribute_def on_screen_def tty_of_def
        del: upt_Suc upt.simps)
  show ?thesis
    using klog_steps [OF _ assms(2,3)] print_frame [OF s3(1)] print_refines [OF s3(1)] print_refines [OF s1(1)] s1 s3
    by (simp add: defaultAttribute_def klog_def)
qed

theorem klog_shows_message_witness:
  "\<exists>s'. klog 4 (str ''halt'') (str ''ok'') [] console0 = Some s' \<and>
     tty_of s' = fold (tty_put 0x0F) (str ''ok'') (fold (tty_put 0x0E) (klog_header 4 (str ''halt'')) (tty_of console0))"
proof -
  have "do_printf (str ''ok'') [] = Some (str ''ok'')"
    using pf_loop_text [of "str ''ok''" "[]" "[]"] by (simp add: do_printf_def str_def)
  moreover have "0 \<notin> set (str ''halt'')" by (simp add: str_def)
  ultimately show ?thesis
    using klog_shows_message [OF console0_on_screen(1), of "str ''halt''" "str ''ok''" "[]" _ 4] by (auto simp: console0_def)
qed

text \<open>
  A virtual terminal whose rows fit the screen is drawn at any position cell for cell: what was written
  at column \<open>c\<close> of row \<open>r\<close> is shown that much right of and below the position, and no other cell changes.
\<close>

theorem term_blt_shows:
  assumes "vt_width t = int w" and "vt_height t = int h" and "w \<le> 80" and "length (vt_data t) = h * w"
  shows "\<exists>s'. term_blt t x y s = Some s' \<and> attributeByte s' = attributeByte s \<and>
    (\<forall>r < h. \<forall>c < w. \<exists>ch. term_read (int c) (int r) t = Some ch \<and>
       vram s' ((y + int r) * 80 + x + int c) = cell (attributeByte s) ch) \<and>
    (\<forall>j. (\<forall>r < h. \<forall>c < w. j \<noteq> (y + int r) * 80 + x + int c) \<longrightarrow> vram s' j = vram s j)"
proof -
  obtain s' where s': "foldM (blt_row t x) [y..y + int h - 1] (0, s) = Some (h * w, s')" "drawn t x y w h s s'"
    using blt_rows [OF assms(1,3), of h x y s] assms(4) by auto
  have "term_blt t x y s = Some s'" using s'(1) assms(1,2) by (simp add: term_blt_def)
  moreover have "term_read (int c) (int r) t = Some (vt_data t ! (r * w + c))" if "r < h" "c < w" for r c
  proof -
    have "r * w + c < h * w" using row_index [OF that] .
    then show ?thesis using assms(1,4) by (simp add: term_read_def nat_add_distrib nat_mult_distrib mult.commute)
  qed
  ultimately show ?thesis using s'(2) by (auto simp: drawn_def)
qed

theorem term_blt_shows_witness:
  "\<exists>t s'. term_write 1 0 66 (term_create (\<lambda>_. 32) 2 1 0) = Some t \<and> term_blt t 10 3 console0 = Some s' \<and>
     vram s' 251 = cell defaultAttribute 66"
proof -
  define t where "t = \<lparr>vt_height = 1, vt_width = 2, vt_isInit = 1, vt_isPhysical = 0, vt_data = [32, 66 :: u8]\<rparr>"
  have w: "term_write 1 0 66 (term_create (\<lambda>_. 32) 2 1 0) = Some t"
    by (simp add: t_def term_write_def term_create_def upt_conv_Cons)
  have f: "vt_width t = int 2" "vt_height t = int 1" "(2 :: nat) \<le> 80" "length (vt_data t) = 1 * 2"
    by (simp_all add: t_def)
  from term_blt_shows [OF f, of 10 3 console0] obtain s' where "term_blt t 10 3 console0 = Some s'"
    "\<exists>c. term_read (int 1) (int 0) t = Some c \<and> vram s' ((3 + int 0) * 80 + 10 + int 1) = cell (attributeByte console0) c"
    by (metis less_numeral_extra(1) one_less_numeral_iff semiring_norm(76))
  with w show ?thesis by (auto simp: t_def term_read_def console0_def)
qed

text \<open>\<^verbatim>\<open>textmode_clear\<close> is one row short: the last row of the screen stays.\<close>

lemma textmode_clear_misses_last_row:
  "1920 \<le> j \<Longrightarrow> vram (textmode_clear s) j = vram s j" "0 \<le> j \<Longrightarrow> j < 1920 \<Longrightarrow> vram (textmode_clear s) j = 0"
  by (simp_all add: vram_clear)

end
