(* ===== verification/Ordered_Array.thy ===== *)
theory Ordered_Array
  imports Beryllium_Prelude "HOL-Library.Multiset"
begin

text \<open>
  The sorted array of \<^verbatim>\<open>src/kernel/arch/x86/lib/ordered_array.c\<close>. The cells the array owns are a list;
  an access behind them is undefined. The contents are the first \<open>oa_size\<close> cells. The comparison is a
  function pointer of the array, and its laws are the locale \<open>comparison\<close>.
\<close>

type_synonym item = u32

record ordered_array =
  oa_array :: "item list"
  oa_size :: nat
  oa_max_size :: nat
  oa_less_than :: "(item \<Rightarrow> item \<Rightarrow> bool) option"

definition standard_lessthan_predicate :: "item \<Rightarrow> item \<Rightarrow> bool" where
  "standard_lessthan_predicate a b = (a < b)"

definition create_ordered_array :: "nat \<Rightarrow> (item \<Rightarrow> item \<Rightarrow> bool) option \<Rightarrow> ordered_array" where
  "create_ordered_array max_size lt =
     \<lparr>oa_array = replicate (w32 (max_size * 4) div 4) 0, oa_size = 0, oa_max_size = max_size, oa_less_than = lt\<rparr>"

text \<open>\<open>cells\<close> is the memory from the given address to the end of its object.\<close>

definition place_ordered_array :: "item list \<Rightarrow> nat \<Rightarrow> (item \<Rightarrow> item \<Rightarrow> bool) option \<Rightarrow> ordered_array option" where
  "place_ordered_array cells max_size lt =
     (let k = w32 (max_size * 4) div 4
      in if k \<le> length cells
         then Some \<lparr>oa_array = replicate k 0 @ drop k cells, oa_size = 0, oa_max_size = max_size, oa_less_than = lt\<rparr>
         else None)"

section \<open>Insertion\<close>

text \<open>The first loop looks for the place of the item.\<close>

function insert_scan :: "(item \<Rightarrow> item \<Rightarrow> bool) \<Rightarrow> item \<Rightarrow> item list \<Rightarrow> nat \<Rightarrow> nat \<Rightarrow> nat option" where
  "insert_scan lt item arr n i =
     (if i < n
      then (if length arr \<le> i then None else if lt (arr ! i) item then insert_scan lt item arr n (i + 1) else Some i)
      else Some i)"
  by pat_completeness auto
termination
  by (relation "measure (\<lambda>(lt, item, arr, n, i). n - i)") auto

declare insert_scan.simps [simp del]

text \<open>The second loop moves the rest one cell up.\<close>

function shift_up :: "nat \<Rightarrow> nat \<Rightarrow> item \<Rightarrow> item list \<Rightarrow> item list option" where
  "shift_up n i tmp arr =
     (if i < n
      then (let i' = i + 1
            in if length arr \<le> i' then None else shift_up n i' (arr ! i') (arr[i' := tmp]))
      else Some arr)"
  by pat_completeness auto
termination
  by (relation "measure (\<lambda>(n, i, tmp, arr). n - i)") auto

declare shift_up.simps [simp del]

definition insert_ordered_array :: "item \<Rightarrow> ordered_array \<Rightarrow> ordered_array option" where
  "insert_ordered_array item a =
     (case oa_less_than a of
        None \<Rightarrow> Some a
      | Some lt \<Rightarrow> do {
          i \<leftarrow> insert_scan lt item (oa_array a) (oa_size a) 0;
          if i = oa_size a
          then (if length (oa_array a) \<le> i then None
                else Some (a\<lparr>oa_array := (oa_array a)[i := item], oa_size := oa_size a + 1\<rparr>))
          else do {
            arr \<leftarrow> shift_up (oa_size a) i (oa_array a ! i) ((oa_array a)[i := item]);
            Some (a\<lparr>oa_array := arr, oa_size := oa_size a + 1\<rparr>)
          }
        })"

section \<open>Lookup and removal\<close>

text \<open>An index behind the contents is reported, and then read all the same.\<close>

definition lookup_ordered_array :: "nat \<Rightarrow> ordered_array \<Rightarrow> item option" where
  "lookup_ordered_array i a = (if i < length (oa_array a) then Some (oa_array a ! i) else None)"

function shift_down_from :: "nat \<Rightarrow> nat \<Rightarrow> item list \<Rightarrow> item list option" where
  "shift_down_from n i arr =
     (if i < n then (if length arr \<le> i + 1 then None else shift_down_from n (i + 1) (arr[i := arr ! (i + 1)])) else Some arr)"
  by pat_completeness auto
termination
  by (relation "measure (\<lambda>(n, i, arr). n - i)") auto

declare shift_down_from.simps [simp del]

definition remove_ordered_array :: "nat \<Rightarrow> ordered_array \<Rightarrow> ordered_array option" where
  "remove_ordered_array i a = do {
     arr \<leftarrow> shift_down_from (oa_size a) i (oa_array a);
     Some (a\<lparr>oa_array := arr, oa_size := sub32 (oa_size a) 1\<rparr>)
   }"

definition contents :: "ordered_array \<Rightarrow> item list" where
  "contents a = take (oa_size a) (oa_array a)"

section \<open>The loops\<close>

lemma insert_scan_takeWhile:
  "n \<le> length arr \<Longrightarrow> i \<le> n \<Longrightarrow>
     insert_scan lt item arr n i = Some (i + length (takeWhile (\<lambda>x. lt x item) (drop i (take n arr))))"
proof (induction lt item arr n i rule: insert_scan.induct)
  case (1 lt item arr n i)
  show ?case
  proof (cases "i < n")
    case True
    then have "drop i (take n arr) = arr ! i # drop (i + 1) (take n arr)"
      using 1 Cons_nth_drop_Suc [of i "take n arr"] by simp
    with 1 True show ?thesis by (subst insert_scan.simps) auto
  next
    case False
    then show ?thesis using 1 by (subst insert_scan.simps) auto
  qed
qed

lemma shift_up_nth:
  "n < length arr \<Longrightarrow> \<exists>arr'. shift_up n i tmp arr = Some arr' \<and> length arr' = length arr \<and>
     (\<forall>j < length arr. arr' ! j = (if i < n \<and> j = i + 1 then tmp else if i + 1 < j \<and> j \<le> n then arr ! (j - 1) else arr ! j))"
proof (induction n i tmp arr rule: shift_up.induct)
  case (1 n i tmp arr)
  show ?case
  proof (cases "i < n")
    case True
    from 1(1) [OF True refl] 1(2) True obtain arr' where a: "shift_up n (i + 1) (arr ! (i + 1)) (arr[i + 1 := tmp]) = Some arr'"
        "length arr' = length arr"
        "\<forall>j < length arr. arr' ! j = (if i + 1 < n \<and> j = i + 1 + 1 then arr ! (i + 1)
           else if i + 1 + 1 < j \<and> j \<le> n then arr[i + 1 := tmp] ! (j - 1) else arr[i + 1 := tmp] ! j)"
      by auto
    have "shift_up n i tmp arr = Some arr'" using True 1(2) a(1) by (subst shift_up.simps) (simp add: Let_def)
    moreover have "arr' ! j = (if i < n \<and> j = i + 1 then tmp else if i + 1 < j \<and> j \<le> n then arr ! (j - 1) else arr ! j)"
      if "j < length arr" for j
      using a(3) that True 1(2) by (auto simp: nth_list_update)
    ultimately show ?thesis using a(2) by blast
  next
    case False
    then show ?thesis by (subst shift_up.simps) auto
  qed
qed

lemma shift_down_from_nth:
  "n < length arr \<Longrightarrow> \<exists>arr'. shift_down_from n i arr = Some arr' \<and> length arr' = length arr \<and>
     (\<forall>j < length arr. arr' ! j = (if i \<le> j \<and> j < n then arr ! (j + 1) else arr ! j))"
proof (induction n i arr rule: shift_down_from.induct)
  case (1 n i arr)
  show ?case
  proof (cases "i < n")
    case True
    with 1 obtain arr' where a: "shift_down_from n (i + 1) (arr[i := arr ! (i + 1)]) = Some arr'" "length arr' = length arr"
        "\<forall>j < length arr. arr' ! j = (if i + 1 \<le> j \<and> j < n then arr[i := arr ! (i + 1)] ! (j + 1) else arr[i := arr ! (i + 1)] ! j)"
      by auto
    have "shift_down_from n i arr = Some arr'" using True 1(2) a(1) by (subst shift_down_from.simps) simp
    moreover have "arr' ! j = (if i \<le> j \<and> j < n then arr ! (j + 1) else arr ! j)" if "j < length arr" for j
      using a(3) that True 1(2) by (auto simp: nth_list_update)
    ultimately show ?thesis using a(2) by blast
  next
    case False
    then show ?thesis by (subst shift_down_from.simps) auto
  qed
qed

lemma shift_up_insert:
  assumes "n < length arr" and "i < n"
  shows "\<exists>arr'. shift_up n i (arr ! i) (arr[i := item]) = Some arr' \<and> length arr' = length arr \<and>
    take (n + 1) arr' = take i (take n arr) @ item # drop i (take n arr)"
proof -
  obtain arr' where a': "shift_up n i (arr ! i) (arr[i := item]) = Some arr'" "length arr' = length arr"
    "\<And>j. j < length arr \<Longrightarrow> arr' ! j = (if j = i + 1 then arr ! i
       else if i + 1 < j \<and> j \<le> n then arr[i := item] ! (j - 1) else arr[i := item] ! j)"
    using shift_up_nth [of n "arr[i := item]" i "arr ! i"] assms by auto
  have "take (n + 1) arr' = take i (take n arr) @ item # drop i (take n arr)"
  proof (rule nth_equalityI)
    fix j
    assume "j < length (take (n + 1) arr')"
    then have j: "j < n + 1" using a'(2) assms by simp
    have "j < i \<or> j = i \<or> j = i + 1 \<or> i + 2 \<le> j" by linarith
    then consider "j < i" | "j = i" | "j = i + 1" | k where "j = i + 2 + k"
      using le_Suc_ex [of "i + 2" j] by blast
    then show "take (n + 1) arr' ! j = (take i (take n arr) @ item # drop i (take n arr)) ! j"
    proof cases
      case 4
      then show ?thesis using j assms by (simp add: a'(3) nth_append)
    qed (use j assms in \<open>simp_all add: a'(3) nth_append\<close>)
  qed (use assms a'(2) in simp)
  with a'(1,2) show ?thesis by blast
qed

text \<open>Room for one more item; every access of an insertion is then inside the array.\<close>

definition has_room :: "ordered_array \<Rightarrow> bool" where
  "has_room a \<longleftrightarrow> oa_size a < length (oa_array a)"

lemma insert_contents:
  assumes "has_room a" and "oa_less_than a = Some lt"
  shows "\<exists>a'. insert_ordered_array item a = Some a' \<and>
    contents a' = takeWhile (\<lambda>x. lt x item) (contents a) @ item # dropWhile (\<lambda>x. lt x item) (contents a) \<and>
    oa_less_than a' = Some lt \<and> oa_size a' = oa_size a + 1 \<and> length (oa_array a') = length (oa_array a)"
proof -
  let ?n = "oa_size a" and ?arr = "oa_array a"
  define i where "i = length (takeWhile (\<lambda>x. lt x item) (contents a))"
  have n: "?n < length ?arr" using assms(1) by (simp add: has_room_def)
  have cl: "length (contents a) = ?n" using n by (simp add: contents_def)
  have i: "i \<le> ?n" unfolding i_def cl [symmetric] by (rule length_takeWhile_le)
  have scan: "insert_scan lt item ?arr ?n 0 = Some i"
    using insert_scan_takeWhile [of ?n ?arr 0 lt item] n by (simp add: i_def contents_def)
  have split: "takeWhile (\<lambda>x. lt x item) (contents a) = take i (contents a)"
    "dropWhile (\<lambda>x. lt x item) (contents a) = drop i (contents a)"
    unfolding i_def by (rule takeWhile_eq_take, rule dropWhile_eq_drop)
  show ?thesis
  proof (cases "i = ?n")
    case True
    let ?a = "a\<lparr>oa_array := ?arr[?n := item], oa_size := ?n + 1\<rparr>"
    have "insert_ordered_array item a = Some ?a" using assms(2) scan True n by (simp add: insert_ordered_array_def)
    moreover have "contents ?a = contents a @ [item]"
      using n by (simp add: contents_def take_Suc_conv_app_nth)
    ultimately show ?thesis using assms(2) cl unfolding split True by simp
  next
    case False
    with i have lt: "i < ?n" by simp
    obtain arr' where a': "shift_up ?n i (?arr ! i) (?arr[i := item]) = Some arr'" "length arr' = length ?arr"
      "take (?n + 1) arr' = take i (contents a) @ item # drop i (contents a)"
      using shift_up_insert [OF n lt, of item] unfolding contents_def by blast
    let ?a = "a\<lparr>oa_array := arr', oa_size := ?n + 1\<rparr>"
    have "insert_ordered_array item a = Some ?a"
      using assms(2) scan False a'(1) by (simp add: insert_ordered_array_def)
    moreover have "contents ?a = take i (contents a) @ item # drop i (contents a)"
      unfolding contents_def [of ?a] using a'(3) by simp
    ultimately show ?thesis using assms(2) a'(2) unfolding split by simp
  qed
qed

lemma inserts_size:
  assumes "oa_less_than a = Some lt" and "oa_size a + length items \<le> length (oa_array a)"
    and "foldM insert_ordered_array items a = Some a'"
  shows "oa_size a' = oa_size a + length items \<and> length (oa_array a') = length (oa_array a)"
  using assms
proof (induction items arbitrary: a)
  case (Cons item items)
  then have "has_room a" by (simp add: has_room_def)
  from insert_contents [OF this Cons.prems(1), of item] obtain u where u: "insert_ordered_array item a = Some u"
    "oa_less_than u = Some lt" "oa_size u = oa_size a + 1" "length (oa_array u) = length (oa_array a)" by blast
  from Cons.IH [OF u(2)] u Cons.prems(2,3) show ?case by simp
qed simp

section \<open>The order\<close>

definition ordered_by :: "(item \<Rightarrow> item \<Rightarrow> bool) \<Rightarrow> item list \<Rightarrow> bool" where
  "ordered_by lt xs = sorted_wrt (\<lambda>x y. \<not> lt y x) xs"

text \<open>What an array relies on: its comparison is a strict weak order.\<close>

locale comparison =
  fixes lt :: "item \<Rightarrow> item \<Rightarrow> bool"
  assumes asym: "lt x y \<Longrightarrow> \<not> lt y x"
    and not_trans: "\<not> lt x y \<Longrightarrow> \<not> lt y z \<Longrightarrow> \<not> lt x z"
begin

lemma ordered_between:
  assumes "ordered_by lt (xs @ ys)" and "\<forall>x \<in> set xs. \<not> lt item x" and "\<forall>y \<in> set ys. \<not> lt y item"
  shows "ordered_by lt (xs @ item # ys)"
  using assms by (simp add: ordered_by_def sorted_wrt_append)

lemma ordered_insert:
  assumes "ordered_by lt xs"
  shows "ordered_by lt (takeWhile (\<lambda>x. lt x item) xs @ item # dropWhile (\<lambda>x. lt x item) xs)"
proof -
  let ?ts = "takeWhile (\<lambda>x. lt x item) xs" and ?ds = "dropWhile (\<lambda>x. lt x item) xs"
  have s: "ordered_by lt (?ts @ ?ds)" using assms by simp
  have "\<not> lt z item" if "z \<in> set ?ds" for z
  proof (cases ?ds)
    case (Cons y ys)
    then have y: "\<not> lt y item" using hd_dropWhile [of "\<lambda>x. lt x item" xs] by simp
    moreover have "z = y \<or> \<not> lt z y" using s that Cons by (auto simp: ordered_by_def sorted_wrt_append simp del: takeWhile_dropWhile_id)
    ultimately show ?thesis using not_trans by blast
  next
    case Nil
    with that show ?thesis by (metis empty_iff list.set(1))
  qed
  moreover have "\<not> lt item x" if "x \<in> set ?ts" for x using that asym set_takeWhileD by fastforce
  ultimately show ?thesis using ordered_between [OF s] by blast
qed

lemma inserts_ordered:
  assumes "oa_less_than a = Some lt" and "oa_size a + length items \<le> length (oa_array a)" and "ordered_by lt (contents a)"
  shows "\<exists>a'. foldM insert_ordered_array items a = Some a' \<and> ordered_by lt (contents a') \<and>
    mset (contents a') = mset (contents a) + mset items"
  using assms
proof (induction items arbitrary: a)
  case (Cons item items)
  then have "has_room a" by (simp add: has_room_def)
  from insert_contents [OF this Cons.prems(1), of item] obtain u where u: "insert_ordered_array item a = Some u"
    "contents u = takeWhile (\<lambda>x. lt x item) (contents a) @ item # dropWhile (\<lambda>x. lt x item) (contents a)"
    "oa_less_than u = Some lt" "oa_size u = oa_size a + 1" "length (oa_array u) = length (oa_array a)" by blast
  have "mset (contents u) = add_mset item (mset (takeWhile (\<lambda>x. lt x item) (contents a) @ dropWhile (\<lambda>x. lt x item) (contents a)))"
    unfolding u(2) by (simp del: takeWhile_dropWhile_id)
  then have m: "mset (contents u) = add_mset item (mset (contents a))" unfolding takeWhile_dropWhile_id .
  have "ordered_by lt (contents u)" unfolding u(2) by (rule ordered_insert [OF Cons.prems(3)])
  from Cons.IH [OF u(3) _ this] u(1,4,5) m Cons.prems(2) show ?case by auto
qed simp

end

interpretation standard: comparison standard_lessthan_predicate
  by unfold_locales (auto simp: standard_lessthan_predicate_def)

lemma ordered_standard: "ordered_by standard_lessthan_predicate xs = sorted xs"
  by (simp add: ordered_by_def standard_lessthan_predicate_def not_less)

lemma remove_contents:
  assumes "oa_size a < length (oa_array a)" and "i < oa_size a" and "oa_size a < 4294967296"
  shows "\<exists>a'. remove_ordered_array i a = Some a' \<and> contents a' = take i (contents a) @ drop (i + 1) (contents a)"
proof -
  let ?n = "oa_size a" and ?arr = "oa_array a"
  obtain arr' where a': "shift_down_from ?n i ?arr = Some arr'" "length arr' = length ?arr"
    "\<forall>j < length ?arr. arr' ! j = (if i \<le> j \<and> j < ?n then ?arr ! (j + 1) else ?arr ! j)"
    using shift_down_from_nth [OF assms(1)] by blast
  let ?a = "a\<lparr>oa_array := arr', oa_size := sub32 ?n 1\<rparr>"
  have "take (?n - 1) arr' = take i (take ?n ?arr) @ drop (i + 1) (take ?n ?arr)"
    by (rule nth_equalityI) (use assms a'(2,3) in \<open>auto simp: nth_append\<close>)
  moreover have "sub32 ?n 1 = ?n - 1" using assms by (simp add: w32_simps)
  ultimately have "contents ?a = take i (contents a) @ drop (i + 1) (contents a)" by (simp add: contents_def)
  then show ?thesis using a'(1) by (auto simp: remove_ordered_array_def)
qed

text \<open>A full array cannot be shifted without reading behind it.\<close>

lemma remove_full_overruns:
  assumes "i < oa_size a" and "oa_size a = length (oa_array a)"
  shows "remove_ordered_array i a = None"
proof -
  have "i < n \<Longrightarrow> n = length arr \<Longrightarrow> shift_down_from n i arr = None" for n arr
    by (induction n i arr rule: shift_down_from.induct) (subst shift_down_from.simps, auto)
  with assms show ?thesis by (simp add: remove_ordered_array_def)
qed

text \<open>An index behind the contents removes the last item instead of nothing.\<close>

lemma remove_out_of_range:
  assumes "oa_size a \<le> i"
  shows "remove_ordered_array i a = Some (a\<lparr>oa_size := sub32 (oa_size a) 1\<rparr>)"
proof -
  have "shift_down_from (oa_size a) i (oa_array a) = Some (oa_array a)" using assms by (subst shift_down_from.simps) simp
  then show ?thesis by (simp add: remove_ordered_array_def)
qed

section \<open>Properties\<close>

text \<open>
  Property C17. Inserting items one by one into a new array with the standard comparison returns, stays inside the
  array and leaves exactly the sorted list of the items, and removing by index takes out that item of the sorted list.
\<close>

theorem ordered_array_sorts:
  assumes "length items < max_size" and "max_size < 2 ^ 30"
  shows "\<exists>a. foldM insert_ordered_array items (create_ordered_array max_size (Some standard_lessthan_predicate)) = Some a \<and>
    contents a = sort items \<and>
    (\<forall>i < length items. \<exists>a'. remove_ordered_array i a = Some a' \<and>
       contents a' = take i (sort items) @ drop (i + 1) (sort items))"
proof -
  let ?a0 = "create_ordered_array max_size (Some standard_lessthan_predicate)"
  have 0: "oa_less_than ?a0 = Some standard_lessthan_predicate" "oa_size ?a0 = 0" "length (oa_array ?a0) = max_size"
    using assms(2) by (simp_all add: create_ordered_array_def w32_simps)
  then have "contents ?a0 = []" by (simp add: contents_def)
  with standard.inserts_ordered [OF 0(1), of items] 0 assms(1)
  obtain a where a: "foldM insert_ordered_array items ?a0 = Some a" "sorted (contents a)" "mset (contents a) = mset items"
    by (auto simp: ordered_standard)
  have c: "contents a = sort items" using a(2,3) by (intro properties_for_sort [symmetric]) simp_all
  have len: "length (oa_array a) = max_size \<and> oa_size a = length items"
    using inserts_size [OF 0(1) _ a(1)] 0 assms(1) by simp
  then show ?thesis using a(1) c remove_contents [of a] assms by auto
qed

theorem ordered_array_sorts_witness:
  "\<exists>a a'. foldM insert_ordered_array [30, 10, 20] (create_ordered_array 8 (Some standard_lessthan_predicate)) = Some a \<and>
     contents a = [10, 20, 30] \<and> remove_ordered_array 1 a = Some a' \<and> contents a' = [10, 30]"
proof -
  have s: "sort [30, 10, 20 :: u32] = [10, 20, 30]" by simp
  from ordered_array_sorts [of "[30, 10, 20]" 8] obtain a where
    "foldM insert_ordered_array [30, 10, 20] (create_ordered_array 8 (Some standard_lessthan_predicate)) = Some a"
    "contents a = [10, 20, 30]"
    "\<forall>i < 3. \<exists>a'. remove_ordered_array i a = Some a' \<and> contents a' = take i [10, 20, 30] @ drop (i + 1) [10, 20, 30]"
    unfolding s by auto
  moreover from this(3) obtain a' where "remove_ordered_array 1 a = Some a'" "contents a' = take 1 [10, 20, 30] @ drop (1 + 1) [10, 20, 30]"
    by (meson one_less_numeral_iff semiring_norm(77))
  ultimately show ?thesis by auto
qed

end
