(* ===== verification/Arm_Board.thy ===== *)
theory Arm_Board
  imports Timing
begin

text \<open>
  The Integrator/CP board: exception vectors and their handler (\<^verbatim>\<open>src/kernel/arch/arm/integrator-cp/init/arm4-xrq.c\<close>)
  and the interval timer (\<^verbatim>\<open>drivers/timer.c\<close>). Writes to device registers are recorded in order in
  \<open>mmio_out\<close>; what the handler reads from a device, and the instruction that raised a software
  interrupt, are arguments. The register saving entry code is assembly.
\<close>

unbundle bit_operations_syntax

abbreviation (input) ARM4_XRQ_RESET :: nat where "ARM4_XRQ_RESET \<equiv> 0"
abbreviation (input) ARM4_XRQ_UNDEF :: nat where "ARM4_XRQ_UNDEF \<equiv> 1"
abbreviation (input) ARM4_XRQ_SWINT :: nat where "ARM4_XRQ_SWINT \<equiv> 2"
abbreviation (input) ARM4_XRQ_ABRTP :: nat where "ARM4_XRQ_ABRTP \<equiv> 3"
abbreviation (input) ARM4_XRQ_ABRTD :: nat where "ARM4_XRQ_ABRTD \<equiv> 4"
abbreviation (input) ARM4_XRQ_IRQ :: nat where "ARM4_XRQ_IRQ \<equiv> 6"
abbreviation (input) ARM4_XRQ_FIQ :: nat where "ARM4_XRQ_FIQ \<equiv> 7"

record arm_board = ktime +
  mmio_out :: "(nat \<times> u32) list"
  vectors :: "nat \<Rightarrow> u32"
  cpsr :: u32

definition mmio_write :: "nat \<Rightarrow> u32 \<Rightarrow> arm_board \<Rightarrow> arm_board" where
  "mmio_write reg v s = s\<lparr>mmio_out := mmio_out s @ [(reg, v)]\<rparr>"

section \<open>The vector table\<close>

definition arm4_xrqinstall :: "nat \<Rightarrow> u32 \<Rightarrow> arm_board \<Rightarrow> arm_board" where
  "arm4_xrqinstall ndx a s =
     s\<lparr>vectors := (vectors s)(ndx := 0xEA000000 OR drop_bit 2 (a - 8 - 4 * of_nat ndx))\<rparr>"

definition arm4_cpsrget :: "arm_board \<Rightarrow> u32" where
  "arm4_cpsrget s = cpsr s"

definition arm4_cpsrset :: "u32 \<Rightarrow> arm_board \<Rightarrow> arm_board" where
  "arm4_cpsrset r s = s\<lparr>cpsr := r\<rparr>"

definition arm4_xrqenable_fiq :: "arm_board \<Rightarrow> arm_board" where
  "arm4_xrqenable_fiq s = arm4_cpsrset (arm4_cpsrget s AND NOT (push_bit 6 1)) s"

definition arm4_xrqenable_irq :: "arm_board \<Rightarrow> arm_board" where
  "arm4_xrqenable_irq s = arm4_cpsrset (arm4_cpsrget s AND NOT (push_bit 7 1)) s"

definition entry_order :: "nat list" where
  "entry_order = [ARM4_XRQ_RESET, ARM4_XRQ_UNDEF, ARM4_XRQ_SWINT, ARM4_XRQ_ABRTP, ARM4_XRQ_ABRTD, ARM4_XRQ_IRQ, ARM4_XRQ_FIQ]"

text \<open>\<open>entry n\<close> is the address of the entry code of exception \<open>n\<close>; the software interrupt at the end only logs.\<close>

definition arm4_xrqsetup :: "(nat \<Rightarrow> u32) \<Rightarrow> arm_board \<Rightarrow> arm_board" where
  "arm4_xrqsetup entry s =
     (let s1 = fold (\<lambda>n. arm4_xrqinstall n (entry n)) entry_order s
      in arm4_cpsrset (arm4_cpsrget s1 AND NOT (push_bit 7 1)) s1)"

section \<open>The handler and the timer\<close>

definition arm4_xrq_handler :: "nat \<Rightarrow> u32 \<Rightarrow> arm_board \<Rightarrow> arm_board option" where
  "arm4_xrq_handler ty irq_status s =
     (if ty = ARM4_XRQ_IRQ then
        (if irq_status AND 0x20 \<noteq> 0 then timer_recieveTick 2 (mmio_write (0x13000000 + 4 * 3) 1 s) else Some s)
      else if ty = ARM4_XRQ_SWINT then Some s
      else if ty \<noteq> ARM4_XRQ_IRQ \<and> ty \<noteq> ARM4_XRQ_FIQ \<and> ty \<noteq> ARM4_XRQ_SWINT then None
      else Some s)"

definition icp_timer_setup :: "arm_board \<Rightarrow> arm_board" where
  "icp_timer_setup s =
     timer_switchDevice 2
       (mmio_write (0x13000000 + 4 * 3) (NOT 0)
         (mmio_write (0x13000000 + 4 * 2) (0x80 OR 0x40 OR 0x02 OR 0x00 OR push_bit 5 1)
           (mmio_write (0x13000000 + 4 * 6) 40000
             (mmio_write (0x13000000 + 4 * 0) 0x1000
               (mmio_write (0x14000000 + 4 * 2) (push_bit 5 1 OR push_bit 6 1 OR push_bit 7 1) s)))))"

section \<open>What the processor does with a vector\<close>

text \<open>
  The instruction at \<open>pc\<close> is an unconditional branch when its top byte is \<open>0xEA\<close>; its target is the signed
  24 bit word offset from \<open>pc + 8\<close>.
\<close>

definition is_branch :: "u32 \<Rightarrow> bool" where
  "is_branch w \<longleftrightarrow> drop_bit 24 w = 0xEA"

definition branch_target :: "u32 \<Rightarrow> u32 \<Rightarrow> u32" where
  "branch_target pc w = pc + 8 + push_bit 2 (signed_take_bit 23 w)"

lemma vector_word:
  assumes "n < 2 ^ 23"
  shows "is_branch (0xEA000000 OR of_nat n)" and "signed_take_bit 23 (0xEA000000 OR of_nat n :: u32) = of_nat n"
proof -
  have small: "\<not> bit n k" if "23 \<le> k" for k
    using assms that by (metis bit_take_bit_iff leD take_bit_nat_eq_self)
  have hi: "\<not> bit (0xEA000000 :: u32) k" if "k < 24" for k
  proof -
    have e: "(0xEA000000 :: u32) = push_bit 24 0xEA" by (simp add: push_bit_eq_mult)
    show ?thesis unfolding e bit_push_bit_iff using that by simp
  qed
  show "is_branch (0xEA000000 OR of_nat n)"
    unfolding is_branch_def
  proof (rule bit_word_eqI)
    fix k
    assume "k < LENGTH(32)"
    have g: "bit (drop_bit 24 w) k = bit w (24 + k)" for w :: u32 by (simp add: bit_drop_bit_eq)
    have d: "drop_bit 24 (0xEA000000 :: u32) = 0xEA" by (simp add: drop_bit_eq_div)
    have "bit (0xEA000000 :: u32) (24 + k) = bit (0xEA :: u32) k" using g [of "0xEA000000"] unfolding d by (rule sym)
    then show "bit (drop_bit 24 (0xEA000000 OR of_nat n :: u32)) k = bit (0xEA :: u32) k"
      using small [of "24 + k"] by (simp add: bit_drop_bit_eq bit_or_iff bit_of_nat_iff)
  qed
  show "signed_take_bit 23 (0xEA000000 OR of_nat n :: u32) = of_nat n"
  proof (rule bit_word_eqI)
    fix k
    assume k: "k < LENGTH(32)"
    show "bit (signed_take_bit 23 (0xEA000000 OR of_nat n :: u32)) k = bit (of_nat n :: u32) k"
      using k small [of k] small [of 23] hi [of k] hi [of 23]
      by (cases "k \<le> 23") (auto simp: bit_signed_take_bit_iff bit_or_iff bit_of_nat_iff min_def)
  qed
qed

text \<open>The bound on a handler: within reach of a forward branch from the vector.\<close>

definition reachable_from :: "nat \<Rightarrow> nat \<Rightarrow> bool" where
  "reachable_from ndx a \<longleftrightarrow> 4 dvd a \<and> 8 + 4 * ndx \<le> a \<and> a < 8 + 4 * ndx + 2 ^ 25"

lemma installed_vector:
  assumes "reachable_from ndx a" and "ndx < 8"
  shows "is_branch (vectors (arm4_xrqinstall ndx (of_nat a) s) ndx)"
    and "branch_target (4 * of_nat ndx) (vectors (arm4_xrqinstall ndx (of_nat a) s) ndx) = of_nat a"
proof -
  define q where "q = (a - 8 - 4 * ndx) div 4"
  have d: "a = 8 + 4 * ndx + 4 * q"
  proof -
    obtain k where k: "a = 4 * k" using assms(1) by (auto simp: reachable_from_def)
    then have "a - 8 - 4 * ndx = 4 * (k - 2 - ndx)" by (simp add: diff_mult_distrib2)
    then have "4 * q = a - 8 - 4 * ndx" by (simp add: q_def)
    then show ?thesis using assms(1) by (simp add: reachable_from_def)
  qed
  have n: "q < 2 ^ 23" using assms(1) by (auto simp: reachable_from_def q_def)
  have w: "(of_nat a - 8 - 4 * of_nat ndx :: u32) = of_nat (4 * q)"
    by (subst d) simp
  have "drop_bit 2 (of_nat (4 * q) :: u32) = of_nat q"
  proof (rule word_unat_eq_iff [THEN iffD2])
    have "4 * q < 2 ^ 32" "q < 2 ^ 32" using n by simp_all
    then show "unat (drop_bit 2 (of_nat (4 * q) :: u32)) = unat (of_nat q :: u32)"
      unfolding unat_drop_bit_eq by (simp add: unsigned_of_nat take_bit_nat_eq_self drop_bit_eq_div del: of_nat_mult)
  qed
  then have v: "vectors (arm4_xrqinstall ndx (of_nat a) s) ndx = 0xEA000000 OR of_nat q"
    by (simp add: arm4_xrqinstall_def w del: of_nat_mult)
  show "is_branch (vectors (arm4_xrqinstall ndx (of_nat a) s) ndx)" unfolding v by (rule vector_word(1) [OF n])
  have "push_bit 2 (of_nat q :: u32) = of_nat (4 * q)" by (simp add: push_bit_eq_mult)
  then show "branch_target (4 * of_nat ndx) (vectors (arm4_xrqinstall ndx (of_nat a) s) ndx) = of_nat a"
    unfolding v branch_target_def vector_word(2) [OF n] by (subst d) simp
qed

lemma vectors_other: "n \<noteq> ndx \<Longrightarrow> vectors (arm4_xrqinstall ndx a s) n = vectors s n"
  by (simp add: arm4_xrqinstall_def)

lemma setup_vector:
  assumes "n \<in> set entry_order"
  shows "vectors (arm4_xrqsetup entry s) n = vectors (arm4_xrqinstall n (entry n) s) n"
  using assms by (auto simp: arm4_xrqsetup_def entry_order_def arm4_cpsrset_def arm4_xrqinstall_def Let_def)

section \<open>Ticks of the board\<close>

definition timer_irq :: "nat \<times> u32 \<Rightarrow> bool" where
  "timer_irq e \<longleftrightarrow> fst e = ARM4_XRQ_IRQ \<and> snd e AND 0x20 \<noteq> 0"

lemma board_more:
  "ktime.more s' = ktime.more s \<Longrightarrow> mmio_out s' = mmio_out s \<and> vectors s' = vectors s \<and> cpsr s' = cpsr s"
  by (cases s; cases s') simp

lemma handler_step:
  assumes "arm4_xrq_handler ty st s = Some s'" and "timer_device s = 2"
  shows "timer_hi s' = timer_hi s + of_bool (timer_irq (ty, st)) \<and> timer_device s' = 2 \<and>
    mmio_out s' = mmio_out s @ replicate (of_bool (timer_irq (ty, st))) (0x1300000C, 1) \<and> ty \<in> {2, 6, 7}"
proof (cases "timer_irq (ty, st)")
  case True
  let ?s = "mmio_write 0x1300000C 1 s"
  have "timer_recieveTick (timer_device ?s) ?s = Some s'"
    using True assms by (simp add: timer_irq_def arm4_xrq_handler_def mmio_write_def)
  from timer_recieveTick_clock [OF this] board_more [OF timer_recieveTick_more [OF this]] assms(2) True
  show ?thesis by (simp add: mmio_write_def timer_irq_def)
next
  case False
  then show ?thesis using assms by (auto simp: timer_irq_def arm4_xrq_handler_def split: if_splits)
qed

section \<open>Properties\<close>

text \<open>A board at power on.\<close>

definition board0 :: arm_board where
  "board0 = ktime.extend ktime0 \<lparr>mmio_out = [], vectors = (\<lambda>_. 0), cpsr = 0xD3\<rparr>"

lemma board0_booted: "booted 2 0 0 (icp_timer_setup (wd_init (timing_init board0)))"
proof -
  have "booted 0 0 0 (wd_init (timing_init board0))"
    by (rule booted_boot) (simp_all add: board0_def ktime.defs ktime0_def)
  then show ?thesis by (simp add: booted_def icp_timer_setup_def timer_switchDevice_def mmio_write_def)
qed

text \<open>
  Property C23. After the setup every installed exception vector is a branch whose target, as the processor computes
  it, is the entry code of that exception, when that code lies in the 32 megabytes above the table; interrupts are
  enabled.
\<close>

theorem arm_vectors_branch:
  assumes "n \<in> set entry_order" and "reachable_from n a" and "entry n = of_nat a"
  shows "is_branch (vectors (arm4_xrqsetup entry s) n) \<and>
    branch_target (4 * of_nat n) (vectors (arm4_xrqsetup entry s) n) = entry n \<and>
    \<not> bit (cpsr (arm4_xrqsetup entry s)) 7"
proof -
  have "n < 8" using assms(1) by (auto simp: entry_order_def)
  note v = installed_vector [OF assms(2) this, of s, folded assms(3), folded setup_vector [OF assms(1)]]
  have "\<not> bit (cpsr (arm4_xrqsetup entry s)) 7"
    by (simp add: arm4_xrqsetup_def arm4_cpsrset_def Let_def bit_simps)
  with v show ?thesis by blast
qed

theorem arm_vectors_branch_witness:
  "branch_target 24 (vectors (arm4_xrqsetup (\<lambda>n. 0x10000) board0) 6) = 0x10000"
  using arm_vectors_branch [of 6 "0x10000" "\<lambda>n. 0x10000" board0] by (simp add: entry_order_def reachable_from_def)

text \<open>
  Once the timer is set up, the clock of the board counts exactly the interrupts the timer raised among any
  exceptions that return, each of which is cleared at the timer once; only interrupts and software interrupts return.
\<close>

theorem arm_clock_counts:
  assumes "foldM (\<lambda>(ty, st). arm4_xrq_handler ty st) es (icp_timer_setup s) = Some s'"
  shows "timer_hi s' = timer_hi s + of_nat (length (filter timer_irq es)) \<and>
    mmio_out s' = mmio_out (icp_timer_setup s) @ replicate (length (filter timer_irq es)) (0x1300000C, 1) \<and>
    fst ` set es \<subseteq> {ARM4_XRQ_SWINT, ARM4_XRQ_IRQ, ARM4_XRQ_FIQ}"
proof -
  have "timer_hi v = timer_hi u + of_nat (length (filter timer_irq es)) \<and>
      mmio_out v = mmio_out u @ replicate (length (filter timer_irq es)) (0x1300000C, 1) \<and> fst ` set es \<subseteq> {2, 6, 7}"
    if "foldM (\<lambda>(ty, st). arm4_xrq_handler ty st) es u = Some v" "timer_device u = 2" for u v
    using that
  proof (induction es arbitrary: u)
    case (Cons e es)
    obtain ty st where e: "e = (ty, st)" by (cases e)
    obtain w where w: "arm4_xrq_handler ty st u = Some w" "foldM (\<lambda>(ty, st). arm4_xrq_handler ty st) es w = Some v"
      using Cons.prems(1) e by (auto split: Option.bind_splits)
    note st = handler_step [OF w(1) Cons.prems(2)]
    with Cons.IH [OF w(2)] e show ?case by auto
  qed simp
  from this [OF assms] show ?thesis by (simp add: icp_timer_setup_def timer_switchDevice_def mmio_write_def)
qed

theorem arm_clock_counts_witness:
  "\<exists>s'. foldM (\<lambda>(ty, st). arm4_xrq_handler ty st) [(2, 0), (6, 0x20), (7, 0)]
      (icp_timer_setup (wd_init (timing_init board0))) = Some s' \<and>
     timer_hi s' = timer_hi (wd_init (timing_init board0)) + 1"
proof -
  let ?s = "icp_timer_setup (wd_init (timing_init board0))"
  have "booted 2 0 0 (mmio_write 0x1300000C 1 ?s)" using board0_booted by (simp add: booted_def mmio_write_def)
  from booted_tick [OF this] obtain u where "timer_recieveTick 2 (mmio_write 0x1300000C 1 ?s) = Some u"
    by (auto split: if_splits)
  then have r: "foldM (\<lambda>(ty, st). arm4_xrq_handler ty st) [(2, 0), (6, 0x20), (7, 0)] ?s = Some u"
    by (simp add: arm4_xrq_handler_def)
  from arm_clock_counts [OF r] r show ?thesis by (auto simp: timer_irq_def)
qed

end
