(* ===== verification/Arm_Start.thy ===== *)
theory Arm_Start
  imports Arm_Board
begin

text \<open>
  The start of the two ARM boards, \<^verbatim>\<open>src/kernel/arch/arm/integrator-cp/integrator-cp-early.c\<close> and
  \<^verbatim>\<open>src/kernel/arch/arm/rpi/raspberry-pi-early.c\<close>: both wait for the first tick of the timer, give up after
  \<^verbatim>\<open>0xFFFFFF\<close> rounds, and enter the kernel otherwise. What happens between two rounds of the wait is a step
  of the board. The lines, the display and the memory they set up before are in \<open>Serial_Line\<close>, \<open>Graphics\<close> and
  \<open>Arm_Memory\<close>; \<open>Board_Output\<close> joins them to this part.
\<close>

section \<open>Waiting for the timer\<close>

text \<open>\<open>step i\<close> is what the board does before round \<open>i\<close> of the loop; the result tells whether the timer fired.\<close>

function wait_timer :: "(nat \<Rightarrow> 'a ktime_scheme \<Rightarrow> 'a ktime_scheme option) \<Rightarrow> nat \<Rightarrow> 'a ktime_scheme \<Rightarrow>
    (bool \<times> 'a ktime_scheme) option" where
  "wait_timer step i s = do {
     s1 \<leftarrow> step i s;
     if timer_getHi s1 \<noteq> 0 then Some (True, s1)
     else if 0xFFFFFF < i + 1 then Some (False, s1)
     else wait_timer step (i + 1) s1
   }"
  by pat_completeness auto
termination
  by (relation "measure (\<lambda>(step, i, s). 0x1000000 - i)") auto

declare wait_timer.simps [simp del]

section \<open>The two boards\<close>

text \<open>\<open>arrive i\<close> are the exceptions taken before round \<open>i\<close>, each with the status of the interrupt controller.\<close>

definition take_exceptions :: "(nat \<Rightarrow> (nat \<times> u32) list) \<Rightarrow> nat \<Rightarrow> arm_board \<Rightarrow> arm_board option" where
  "take_exceptions arrive i s = foldM (\<lambda>(ty, st). arm4_xrq_handler ty st) (arrive i) s"

text \<open>The timers and the watchdog are set up by \<^verbatim>\<open>kmain\<close> only.\<close>

definition arm_integrator_cp_early ::
    "(nat \<Rightarrow> u32) \<Rightarrow> (nat \<Rightarrow> (nat \<times> u32) list) \<Rightarrow> arm_board \<Rightarrow> (bool \<times> arm_board) option" where
  "arm_integrator_cp_early entry arrive s = do {
     s1 \<leftarrow> arm4_xrq_handler ARM4_XRQ_SWINT 0 (arm4_xrqsetup entry s);
     (ok, s2) \<leftarrow> wait_timer (take_exceptions arrive) 0 (icp_timer_setup s1);
     Some (if ok then (True, wd_init (timing_init s2)) else (False, s2))
   }"

text \<open>The calls that set up vectors and timer are commented out.\<close>

definition arm_raspberry_pi_early :: "'a ktime_scheme \<Rightarrow> (bool \<times> 'a ktime_scheme) option" where
  "arm_raspberry_pi_early s = do {
     (ok, s2) \<leftarrow> wait_timer (\<lambda>_. Some) 0 s;
     Some (if ok then (True, wd_init (timing_init s2)) else (False, s2))
   }"

section \<open>Ticks before the timers exist\<close>

definition no_timers :: "'a ktime_scheme \<Rightarrow> bool" where
  "no_timers s \<longleftrightarrow> handlers s = replicate timer_slots zeroed_timer"

lemma cyclic_tasks_idle:
  assumes "no_timers s"
  shows "cyclic_tasks tick s = Some s"
proof -
  have "foldM (cyclic_task tick) is s = Some s" if "set is \<subseteq> {..<timer_slots}" for "is"
    using that assms by (induction "is") (auto simp: cyclic_task_def no_timers_def zeroed_timer_def)
  then show ?thesis by (simp add: cyclic_tasks_def atLeast0LessThan)
qed

definition waiting :: "nat \<Rightarrow> arm_board \<Rightarrow> bool" where
  "waiting n s \<longleftrightarrow> no_timers s \<and> timer_device s = 2 \<and> timer_hi s = of_nat n"

abbreviation returns :: "nat \<times> u32 \<Rightarrow> bool" where
  "returns e \<equiv> fst e \<in> {ARM4_XRQ_SWINT, ARM4_XRQ_IRQ, ARM4_XRQ_FIQ}"

lemma exception_waiting:
  assumes "waiting n s" and "returns (ty, st)"
  shows "\<exists>s'. arm4_xrq_handler ty st s = Some s' \<and> waiting (n + of_bool (timer_irq (ty, st))) s'"
proof (cases "timer_irq (ty, st)")
  case True
  let ?u = "(mmio_write 0x1300000C 1 s)\<lparr>timer_hi := timer_hi s + 1\<rparr>"
  have idle: "cyclic_tasks t ?u = Some ?u" "cyclic_tasks t (?u\<lparr>timer_low := l\<rparr>) = Some (?u\<lparr>timer_low := l\<rparr>)" for t l
    using assms(1) by (auto intro!: cyclic_tasks_idle simp: waiting_def no_timers_def mmio_write_def)
  have "arm4_xrq_handler ty st s = timer_recieveTick 2 (mmio_write 0x1300000C 1 s)"
    using True by (simp add: arm4_xrq_handler_def timer_irq_def)
  moreover have "timer_device (mmio_write 0x1300000C 1 s) = 2" using assms(1) by (simp add: waiting_def mmio_write_def)
  ultimately show ?thesis using True assms(1) idle
    by (auto simp: timer_recieveTick_def Let_def waiting_def no_timers_def mmio_write_def)
next
  case False
  then show ?thesis using assms by (auto simp: arm4_xrq_handler_def timer_irq_def)
qed

lemma exceptions_waiting:
  assumes "waiting n s" and "list_all returns es"
  shows "\<exists>s'. foldM (\<lambda>(ty, st). arm4_xrq_handler ty st) es s = Some s' \<and> waiting (n + length (filter timer_irq es)) s'"
  using assms
proof (induction es arbitrary: n s)
  case (Cons e es)
  obtain ty st where e: "e = (ty, st)" by (cases e)
  obtain s1 where s1: "arm4_xrq_handler ty st s = Some s1" "waiting (n + of_bool (timer_irq (ty, st))) s1"
    using exception_waiting [OF Cons.prems(1)] Cons.prems(2) e by auto
  from Cons.IH [OF s1(2)] Cons.prems(2) s1(1) show ?case unfolding e by (auto split: if_splits)
qed auto

text \<open>The rounds without a tick, and the first one with ticks.\<close>

lemma wait_timer_stays:
  assumes "waiting 0 s" and "\<forall>j. list_all returns (arrive j)" and "i \<le> 0xFFFFFF"
    and "\<forall>j. i \<le> j \<and> j \<le> 0xFFFFFF \<longrightarrow> filter timer_irq (arrive j) = []"
  shows "\<exists>s'. wait_timer (take_exceptions arrive) i s = Some (False, s') \<and> timer_hi s' = 0"
  using assms
proof (induction "0xFFFFFF - i" arbitrary: i s rule: less_induct)
  case less
  obtain s1 where s1: "take_exceptions arrive i s = Some s1" "waiting 0 s1"
    using exceptions_waiting [OF less.prems(1), of "arrive i"] less.prems(2-4) by (auto simp: take_exceptions_def)
  show ?case
  proof (cases "i = 0xFFFFFF")
    case True
    with s1 show ?thesis by (subst wait_timer.simps) (simp add: timer_getHi_def waiting_def)
  next
    case False
    then have i: "0xFFFFFF - (i + 1) < 0xFFFFFF - i" "i + 1 \<le> 0xFFFFFF" using less.prems(3) by simp_all
    have "wait_timer (take_exceptions arrive) i s = wait_timer (take_exceptions arrive) (i + 1) s1"
      using s1 i(2) by (subst wait_timer.simps) (simp add: timer_getHi_def waiting_def)
    with less.hyps [OF i(1) s1(2) less.prems(2) i(2)] less.prems(4) show ?thesis by simp
  qed
qed

lemma wait_timer_fires:
  assumes "waiting 0 s" and "\<forall>j. list_all returns (arrive j)" and "i \<le> j" and "j \<le> 0xFFFFFF"
    and "\<forall>l. i \<le> l \<and> l < j \<longrightarrow> filter timer_irq (arrive l) = []"
    and "filter timer_irq (arrive j) = f" and "f \<noteq> []" and "length f < 4294967296"
  shows "\<exists>s'. wait_timer (take_exceptions arrive) i s = Some (True, s') \<and> timer_hi s' = of_nat (length f)"
  using assms(1,3,5)
proof (induction "j - i" arbitrary: i s rule: less_induct)
  case less
  obtain s1 where s1: "take_exceptions arrive i s = Some s1" "waiting (length (filter timer_irq (arrive i))) s1"
    using exceptions_waiting [OF less.prems(1), of "arrive i"] assms(2) by (auto simp: take_exceptions_def)
  show ?case
  proof (cases "i = j")
    case True
    have "(of_nat (length f) :: u32) \<noteq> 0"
    proof
      assume "(of_nat (length f) :: u32) = 0"
      then have "unat (of_nat (length f) :: u32) = 0" by simp
      then show False using assms(7,8) by (simp add: unat_of_nat)
    qed
    with True s1 assms(6) show ?thesis by (subst wait_timer.simps) (simp add: timer_getHi_def waiting_def)
  next
    case False
    then have i: "j - (i + 1) < j - i" "i + 1 \<le> j" "i + 1 \<le> 0xFFFFFF" using less.prems(2) assms(4) by simp_all
    have w: "waiting 0 s1" using s1(2) less.prems(2,3) False by simp
    have "wait_timer (take_exceptions arrive) i s = wait_timer (take_exceptions arrive) (i + 1) s1"
      using s1(1) w i(3) by (subst wait_timer.simps) (simp add: timer_getHi_def waiting_def)
    with less.hyps [OF i(1) w i(2)] less.prems(3) show ?thesis by simp
  qed
qed

section \<open>Properties\<close>

text \<open>
  The start of the Integrator/CP always returns from its wait: it enters the kernel, with the ticks so far
  on the clock, when the first timer interrupt comes within \<open>2\<^sup>2\<^sup>4\<close> rounds, and gives up without entering it
  when none does.
\<close>

theorem icp_start_waits:
  assumes "no_timers s" and "timer_hi s = 0" and "\<forall>j. list_all returns (arrive j)"
    and "\<forall>l < j. filter timer_irq (arrive l) = []" and "j \<le> 0x1000000"
    and "j < 0x1000000 \<longrightarrow> 0 < length (filter timer_irq (arrive j)) \<and> length (filter timer_irq (arrive j)) < 4294967296"
  shows "\<exists>s'. arm_integrator_cp_early entry arrive s = Some (j < 0x1000000, s') \<and>
    timer_hi s' = of_nat (if j < 0x1000000 then length (filter timer_irq (arrive j)) else 0)"
proof -
  let ?s = "icp_timer_setup (arm4_xrqsetup entry s)"
  have xs: "ktime.truncate (fold (\<lambda>n. arm4_xrqinstall n (entry n)) ns s) = ktime.truncate s" for ns
    by (induction ns arbitrary: s) (auto simp: arm4_xrqinstall_def ktime.truncate_def)
  have "ktime.truncate (arm4_xrqsetup entry s) = ktime.truncate s"
    using xs [of entry_order] by (simp add: arm4_xrqsetup_def arm4_cpsrset_def Let_def ktime.truncate_def)
  then have "handlers (arm4_xrqsetup entry s) = handlers s" "timer_hi (arm4_xrqsetup entry s) = timer_hi s"
    by (simp_all add: ktime.truncate_def)
  then have w: "waiting 0 ?s"
    using assms(1,2) by (simp add: waiting_def no_timers_def icp_timer_setup_def timer_switchDevice_def mmio_write_def)
  have sw: "arm4_xrq_handler ARM4_XRQ_SWINT 0 (arm4_xrqsetup entry s) = Some (arm4_xrqsetup entry s)"
    by (simp add: arm4_xrq_handler_def)
  have hi: "timer_hi (wd_init (timing_init u)) = timer_hi u" for u :: arm_board
    by (simp add: wd_init_def timing_init_def timing_register_timer_def Let_def)
  show ?thesis
  proof (cases "j < 0x1000000")
    case True
    then obtain s' where "wait_timer (take_exceptions arrive) 0 ?s = Some (True, s')"
      "timer_hi s' = of_nat (length (filter timer_irq (arrive j)))"
      using wait_timer_fires [OF w assms(3), of 0 j] assms(4,6) by auto
    with True sw hi show ?thesis by (simp add: arm_integrator_cp_early_def)
  next
    case False
    then obtain s' where "wait_timer (take_exceptions arrive) 0 ?s = Some (False, s')" "timer_hi s' = 0"
      using wait_timer_stays [OF w assms(3), of 0] assms(4,5) by auto
    with False sw show ?thesis by (simp add: arm_integrator_cp_early_def)
  qed
qed

theorem icp_start_waits_witness:
  "\<exists>s'. arm_integrator_cp_early (\<lambda>n. 0x10000) (\<lambda>j. if j = 1 then [(6, 0), (6, 0x20)] else [])
      (board0\<lparr>handlers := replicate timer_slots zeroed_timer\<rparr>) = Some (True, s') \<and> timer_hi s' = 1"
proof -
  let ?s = "board0\<lparr>handlers := replicate timer_slots zeroed_timer\<rparr>"
  let ?arrive = "\<lambda>j :: nat. if j = 1 then [(6, 0), (6, 0x20)] else []"
  have "no_timers ?s" "timer_hi ?s = 0" by (simp_all add: no_timers_def board0_def ktime.defs ktime0_def)
  moreover have "\<forall>j. list_all returns (?arrive j)" "\<forall>l < 1. filter timer_irq (?arrive l) = []" by auto
  moreover have "length (filter timer_irq (?arrive 1)) = 1" by (simp add: timer_irq_def)
  ultimately show ?thesis using icp_start_waits [of ?s ?arrive 1 "\<lambda>n. 0x10000"] by simp
qed

text \<open>The Raspberry Pi waits for a timer that nothing starts: it gives up and never enters the kernel.\<close>

theorem rpi_start_gives_up:
  assumes "timer_hi s = 0"
  shows "arm_raspberry_pi_early s = Some (False, s)"
proof -
  have "wait_timer (\<lambda>_. Some) i s = Some (False, s)" if "i \<le> 0xFFFFFF" for i
    using that
  proof (induction "0xFFFFFF - i" arbitrary: i rule: less_induct)
    case less
    show ?case
    proof (cases "i = 0xFFFFFF")
      case True
      with assms show ?thesis by (subst wait_timer.simps) (simp add: timer_getHi_def)
    next
      case False
      then have i: "0xFFFFFF - (i + 1) < 0xFFFFFF - i" "i + 1 \<le> 0xFFFFFF" using less.prems by simp_all
      have "wait_timer (\<lambda>_. Some) i s = wait_timer (\<lambda>_. Some) (i + 1) s"
        using assms i(2) by (subst wait_timer.simps) (simp add: timer_getHi_def)
      with less.hyps [OF i] show ?thesis by simp
    qed
  qed
  then show ?thesis by (simp add: arm_raspberry_pi_early_def)
qed

theorem rpi_start_gives_up_witness: "arm_raspberry_pi_early ktime0 = Some (False, ktime0)"
  by (rule rpi_start_gives_up) (simp add: ktime0_def)

end
