(* ===== verification/Serial_Line.thy ===== *)
theory Serial_Line
  imports Device_Manager
begin

text \<open>
  The serial lines: COM1 of the PC (\<^verbatim>\<open>src/kernel/arch/x86/drivers/serial.c\<close>), the UART of the Integrator/CP
  (\<^verbatim>\<open>arch/arm/integrator-cp/drivers/serial.c\<close>) and that of the Raspberry Pi (\<^verbatim>\<open>arch/arm/rpi/drivers/uart.c\<close>).
  The environment is two functions, the values the status and the data register give at each
  read; writes are recorded in order. A driver that polls a line that is never ready does not return.
\<close>

unbundle bit_operations_syntax

record serial_line =
  status_at :: "nat \<Rightarrow> u8"
  data_at :: "nat \<Rightarrow> u8"
  status_reads :: nat
  data_reads :: nat
  line_out :: "(nat \<times> u32) list"

definition line_write :: "nat \<Rightarrow> u32 \<Rightarrow> serial_line \<Rightarrow> serial_line" where
  "line_write port v s = s\<lparr>line_out := line_out s @ [(port, v)]\<rparr>"

definition read_status :: "serial_line \<Rightarrow> u8 \<times> serial_line" where
  "read_status s = (status_at s (status_reads s), s\<lparr>status_reads := status_reads s + 1\<rparr>)"

definition read_data :: "serial_line \<Rightarrow> u8 \<times> serial_line" where
  "read_data s = (data_at s (data_reads s), s\<lparr>data_reads := data_reads s + 1\<rparr>)"

text \<open>The polling loops: read the status until the bit is (\<open>b\<close>) or is not (\<open>\<not> b\<close>) set.\<close>

partial_function (option) poll :: "bool \<Rightarrow> u8 \<Rightarrow> serial_line \<Rightarrow> serial_line option" where
  "poll b m s = (let (v, s') = read_status s in if (v AND m \<noteq> 0) = b then Some s' else poll b m s')"

declare poll.simps [code]

section \<open>COM1\<close>

definition COM1 :: nat where
  "COM1 = 0x3f8"

definition com1_start :: "serial_line \<Rightarrow> u32 \<times> serial_line" where
  "com1_start s =
     (0, fold (\<lambda>(p, v). line_write p v)
       [(COM1 + 1, 0x00), (COM1 + 3, 0x80), (COM1 + 0, 0x03), (COM1 + 1, 0x00), (COM1 + 3, 0x03), (COM1 + 2, 0xC7),
        (COM1 + 4, 0x0B)] s)"

definition com1_received :: "serial_line \<Rightarrow> u8 \<times> serial_line" where
  "com1_received s = (let (v, s') = read_status s in (v AND 1, s'))"

definition com1_read :: "serial_line \<Rightarrow> (u8 \<times> serial_line) option" where
  "com1_read s = map_option read_data (poll True 1 s)"

definition com1_read_nowait :: "serial_line \<Rightarrow> u8 \<times> serial_line" where
  "com1_read_nowait s = (let (r, s') = com1_received s in if r = 1 then read_data s' else (0, s'))"

definition com1_is_transmit_empty :: "serial_line \<Rightarrow> u8 \<times> serial_line" where
  "com1_is_transmit_empty s = (let (v, s') = read_status s in (v AND 0x20, s'))"

definition com1_write :: "u8 \<Rightarrow> serial_line \<Rightarrow> serial_line option" where
  "com1_write a s = map_option (line_write COM1 (ucast a)) (poll True 0x20 s)"

definition com1_print :: "u8 list \<Rightarrow> serial_line \<Rightarrow> serial_line option" where
  "com1_print cs s = foldM com1_write cs s"

definition com1_init :: "addr \<Rightarrow> addr \<Rightarrow> addr \<Rightarrow> (addr \<rightharpoonup> device) \<times> serial_line \<Rightarrow>
    (u32 \<times> (addr \<rightharpoonup> device) \<times> serial_line) option" where
  "com1_init nm drv dev s = do {
     d \<leftarrow> fst s dev;
     device_start (\<lambda>_ w. Some (com1_start w)) dev
       ((fst s)(dev \<mapsto> d\<lparr>d_name := nm, d_type := 2, d_flags := 0, d_interface := 4, d_driver := drv\<rparr>), snd s)
   }"

section \<open>The UARTs of the boards\<close>

text \<open>Both drivers send a carriage return after a line feed; \<open>dr\<close> is the address of the data register.\<close>

definition uart_put :: "nat \<Rightarrow> u8 \<Rightarrow> serial_line \<Rightarrow> serial_line option" where
  "uart_put dr c s = map_option (line_write dr (ucast c)) (poll False 0x20 s)"

definition uart_write :: "nat \<Rightarrow> u8 \<Rightarrow> serial_line \<Rightarrow> serial_line option" where
  "uart_write dr c s = do { s1 \<leftarrow> uart_put dr c s; if c = 10 then uart_put dr 13 s1 else Some s1 }"

definition icp_serial_write :: "u8 \<Rightarrow> serial_line \<Rightarrow> serial_line option" where
  "icp_serial_write c s = uart_write 0x16000000 c s"

definition icp_serial_writes :: "u8 list \<Rightarrow> serial_line \<Rightarrow> serial_line option" where
  "icp_serial_writes cs s = foldM icp_serial_write cs s"

definition icp_serial_read :: "serial_line \<Rightarrow> u8 \<times> serial_line" where
  "icp_serial_read s = (let (v, s') = read_status s in if v AND 0x10 = 0 then read_data s' else (0, s'))"

definition icp_serial_init :: "serial_line \<Rightarrow> serial_line" where
  "icp_serial_init s = snd (icp_serial_read s)"

definition rpi_serial_write :: "u8 \<Rightarrow> serial_line \<Rightarrow> serial_line option" where
  "rpi_serial_write c s = uart_write 0x20201000 c s"

definition rpi_serial_writes :: "u8 list \<Rightarrow> serial_line \<Rightarrow> serial_line option" where
  "rpi_serial_writes cs s = foldM rpi_serial_write cs s"

definition rpi_serial_init :: "serial_line \<Rightarrow> serial_line" where
  "rpi_serial_init s = fold (\<lambda>(r, v). line_write r v)
     [(0x20201030, 0), (0x20200094, 0), (0x20200098, push_bit 14 1 OR push_bit 15 1), (0x20200098, 0),
      (0x20201044, 0x7ff), (0x20201024, 1), (0x20201028, 40),
      (0x2020102C, push_bit 4 1 OR push_bit 5 1 OR push_bit 6 1),
      (0x20201038, push_bit 1 1 OR push_bit 4 1 OR push_bit 5 1 OR push_bit 6 1 OR push_bit 7 1 OR push_bit 8 1 OR
         push_bit 9 1 OR push_bit 10 1),
      (0x20201030, push_bit 0 1 OR push_bit 8 1 OR push_bit 9 1)] s"

section \<open>Polling\<close>

text \<open>The line gives the awaited status again and again, or never again.\<close>

definition live_line :: "bool \<Rightarrow> u8 \<Rightarrow> serial_line \<Rightarrow> bool" where
  "live_line b m s \<longleftrightarrow> (\<forall>n. \<exists>k \<ge> n. (status_at s k AND m \<noteq> 0) = b)"

definition dead_line :: "bool \<Rightarrow> u8 \<Rightarrow> serial_line \<Rightarrow> bool" where
  "dead_line b m s \<longleftrightarrow> (\<forall>k \<ge> status_reads s. (status_at s k AND m \<noteq> 0) \<noteq> b)"

lemma poll_returns:
  assumes "(status_at s (status_reads s + d) AND m \<noteq> 0) = b"
  shows "\<exists>n. poll b m s = Some (s\<lparr>status_reads := n\<rparr>)"
  using assms
proof (induction d arbitrary: s)
  case 0
  then show ?case by (subst poll.simps) (auto simp: read_status_def)
next
  case (Suc d)
  let ?s' = "s\<lparr>status_reads := status_reads s + 1\<rparr>"
  show ?case
  proof (cases "(status_at s (status_reads s) AND m \<noteq> 0) = b")
    case True
    then show ?thesis by (subst poll.simps) (auto simp: read_status_def)
  next
    case False
    then have "poll b m s = poll b m ?s'" by (subst poll.simps) (simp add: read_status_def)
    with Suc.IH [of ?s'] Suc.prems show ?thesis by simp
  qed
qed

lemma poll_live:
  assumes "live_line b m s"
  shows "\<exists>n. poll b m s = Some (s\<lparr>status_reads := n\<rparr>)"
proof -
  obtain k where k: "status_reads s \<le> k" "(status_at s k AND m \<noteq> 0) = b" using assms unfolding live_line_def by blast
  then have "(status_at s (status_reads s + (k - status_reads s)) AND m \<noteq> 0) = b" by simp
  then show ?thesis by (rule poll_returns)
qed

lemma poll_Some:
  assumes "poll b m s = Some s'"
  shows "\<not> dead_line b m s"
proof (rule poll.raw_induct [where P = "\<lambda>b m s s'. \<not> dead_line b m s", OF _ assms])
  fix p b m s s'
  assume ih: "\<And>b m s s'. p b m s = Some s' \<Longrightarrow> \<not> dead_line b m s"
    and r: "(let (v, s') = read_status s in if (v AND m \<noteq> 0) = b then Some s' else p b m s') = Some s'"
  show "\<not> dead_line b m s"
  proof (cases "(status_at s (status_reads s) AND m \<noteq> 0) = b")
    case True
    then show ?thesis by (auto simp: dead_line_def)
  next
    case False
    with r have "p b m (s\<lparr>status_reads := status_reads s + 1\<rparr>) = Some s'" by (simp add: read_status_def)
    from ih [OF this] show ?thesis by (force simp: dead_line_def)
  qed
qed

lemma poll_dead: "dead_line b m s \<Longrightarrow> poll b m s = None"
  using poll_Some by (cases "poll b m s") auto

section \<open>Sending\<close>

text \<open>What a sender sends for each character, and the shape of its step on a live line.\<close>

definition sends :: "(u8 \<Rightarrow> serial_line \<Rightarrow> serial_line option) \<Rightarrow> (u8 \<Rightarrow> (nat \<times> u32) list) \<Rightarrow> bool \<Rightarrow> u8 \<Rightarrow> bool" where
  "sends send f b m \<longleftrightarrow> (\<forall>c s. live_line b m s \<longrightarrow>
     (\<exists>n. send c s = Some (s\<lparr>status_reads := n, line_out := line_out s @ f c\<rparr>)))"

lemma sends_all:
  assumes "sends send f b m" and "live_line b m s"
  shows "\<exists>s'. foldM send cs s = Some s' \<and> line_out s' = line_out s @ concat (map f cs) \<and> live_line b m s'"
  using assms(2)
proof (induction cs arbitrary: s)
  case (Cons c cs)
  then obtain n where n: "send c s = Some (s\<lparr>status_reads := n, line_out := line_out s @ f c\<rparr>)"
    using assms(1) unfolding sends_def by blast
  have "live_line b m (s\<lparr>status_reads := n, line_out := line_out s @ f c\<rparr>)"
    using Cons.prems by (simp add: live_line_def)
  from Cons.IH [OF this] n show ?case by auto
qed simp

lemma sends_com1: "sends com1_write (\<lambda>c. [(COM1, ucast c)]) True 0x20"
  unfolding sends_def
proof (intro allI impI)
  fix c s
  assume "live_line True 0x20 s"
  from poll_live [OF this] obtain n where "poll True 0x20 s = Some (s\<lparr>status_reads := n\<rparr>)" by blast
  then have "com1_write c s = Some (s\<lparr>status_reads := n, line_out := line_out s @ [(COM1, ucast c)]\<rparr>)"
    by (simp add: com1_write_def line_write_def)
  then show "\<exists>n. com1_write c s = Some (s\<lparr>status_reads := n, line_out := line_out s @ [(COM1, ucast c)]\<rparr>)" ..
qed

definition crlf :: "nat \<Rightarrow> u8 \<Rightarrow> (nat \<times> u32) list" where
  "crlf dr c = (if c = 10 then [(dr, 10), (dr, 13)] else [(dr, ucast c)])"

lemma uart_put_live:
  assumes "live_line False 0x20 s"
  shows "\<exists>n. uart_put dr c s = Some (s\<lparr>status_reads := n, line_out := line_out s @ [(dr, ucast c)]\<rparr>)"
proof -
  from poll_live [OF assms] obtain n where "poll False 0x20 s = Some (s\<lparr>status_reads := n\<rparr>)" by blast
  then have "uart_put dr c s = Some (s\<lparr>status_reads := n, line_out := line_out s @ [(dr, ucast c)]\<rparr>)"
    by (simp add: uart_put_def line_write_def)
  then show ?thesis ..
qed

lemma sends_uart: "sends (uart_write dr) (crlf dr) False 0x20"
  unfolding sends_def
proof (intro allI impI)
  fix c s
  assume l: "live_line False 0x20 s"
  then obtain n where n: "uart_put dr c s = Some (s\<lparr>status_reads := n, line_out := line_out s @ [(dr, ucast c)]\<rparr>)"
    using uart_put_live by blast
  let ?s = "s\<lparr>status_reads := n, line_out := line_out s @ [(dr, ucast c)]\<rparr>"
  have "live_line False 0x20 ?s" using l by (simp add: live_line_def)
  from uart_put_live [OF this, of dr 13] n
  show "\<exists>n. uart_write dr c s = Some (s\<lparr>status_reads := n, line_out := line_out s @ crlf dr c\<rparr>)"
    by (auto simp: uart_write_def crlf_def)
qed

section \<open>Properties\<close>

text \<open>
  On a line whose transmitter becomes empty again and again, \<^verbatim>\<open>serial_print\<close> returns and sends exactly the
  characters of its string in order; on a line that is dead from now on it does not return, whatever the first character.
\<close>

theorem serial_print_sends:
  "(live_line True 0x20 s \<longrightarrow>
      (\<exists>s'. com1_print cs s = Some s' \<and> line_out s' = line_out s @ map (\<lambda>c. (COM1, ucast c)) cs)) \<and>
   (dead_line True 0x20 s \<longrightarrow> com1_print (c # cs) s = None)"
proof -
  have "concat (map (\<lambda>c. [(COM1, ucast c)]) cs) = map (\<lambda>c. (COM1, ucast c)) cs" by (induction cs) auto
  with sends_all [OF sends_com1, where s = s and cs = cs] poll_dead [of True "0x20" s] show ?thesis
    by (auto simp: com1_print_def com1_write_def)
qed

text \<open>A line that is always ready, and one that never is.\<close>

definition ready_line :: serial_line where
  "ready_line = \<lparr>status_at = (\<lambda>_. 0x20), data_at = (\<lambda>_. 0), status_reads = 0, data_reads = 0, line_out = []\<rparr>"

theorem serial_print_sends_witness:
  "(\<exists>s'. com1_print [104, 105] ready_line = Some s' \<and> line_out s' = [(0x3F8, 104), (0x3F8, 105)]) \<and>
   com1_print [104, 105] (ready_line\<lparr>status_at := \<lambda>_. 0\<rparr>) = None"
proof -
  have "live_line True 0x20 ready_line" "dead_line True 0x20 (ready_line\<lparr>status_at := \<lambda>_. 0\<rparr>)"
    by (auto simp: live_line_def dead_line_def ready_line_def)
  with serial_print_sends [of ready_line "[104, 105]" 0] serial_print_sends [of "ready_line\<lparr>status_at := \<lambda>_. 0\<rparr>" "[105]" 104]
  show ?thesis by (auto simp: ready_line_def COM1_def)
qed

text \<open>The UARTs of the boards send their string with a carriage return after each line feed.\<close>

lemma uart_strings_sent:
  assumes "live_line False 0x20 s"
  shows "\<exists>s'. icp_serial_writes cs s = Some s' \<and> line_out s' = line_out s @ concat (map (crlf 0x16000000) cs)"
    and "\<exists>s'. rpi_serial_writes cs s = Some s' \<and> line_out s' = line_out s @ concat (map (crlf 0x20201000) cs)"
proof -
  have e: "icp_serial_write = uart_write 0x16000000" "rpi_serial_write = uart_write 0x20201000"
    by (auto simp: fun_eq_iff icp_serial_write_def rpi_serial_write_def)
  show "\<exists>s'. icp_serial_writes cs s = Some s' \<and> line_out s' = line_out s @ concat (map (crlf 0x16000000) cs)"
    unfolding icp_serial_writes_def e using sends_all [OF sends_uart [of "0x16000000"] assms, where cs = cs] by blast
  show "\<exists>s'. rpi_serial_writes cs s = Some s' \<and> line_out s' = line_out s @ concat (map (crlf 0x20201000) cs)"
    unfolding rpi_serial_writes_def e using sends_all [OF sends_uart [of "0x20201000"] assms, where cs = cs] by blast
qed

end
