(* ===== verification/Device_Listing.thy ===== *)
theory Device_Listing
  imports Device_Manager Printf
begin

text \<open>
  The listing of the device tree, \<^verbatim>\<open>device_tree_enumerate\<close> of \<^verbatim>\<open>src/kernel/device.c\<close>: the walk over the tree of
  \<open>Kernel_Tree\<close>, with each line formatted by \<open>Printf\<close>. The result is the text that is printed.
\<close>

section \<open>The listing\<close>

definition interface_name :: "device \<Rightarrow> cstring" where
  "interface_name d =
     (if d_interface d = 0 then str ''KERN'' else if d_interface d = 1 then str ''PCI'' else if d_interface d = 2 then str ''USB''
      else if d_interface d = 3 then str ''ACPI'' else if d_interface d = 4 then str ''IO'' else str ''UNKN'')"

definition type_name :: "device \<Rightarrow> cstring" where
  "type_name d =
     (if d_type d = 0 then str ''NS'' else if d_type d = 1 then str ''BUS'' else if d_type d = 2 then str ''HW''
      else if d_type d = 3 then str ''VK'' else str ''??'')"

definition c_text :: "mem \<Rightarrow> addr \<Rightarrow> cstring option" where
  "c_text m p = map_option (\<lambda>n. map (\<lambda>i. m (p + i)) [0..<n]) (strlen m p)"

definition dev_line :: "'h devs \<Rightarrow> nat \<Rightarrow> addr \<Rightarrow> u8 list option" where
  "dev_line s height dnode = do {
     text \<leftarrow> (if dnode = NULL then Some []
             else do {
               d \<leftarrow> devices s dnode;
               a \<leftarrow> do_printf (str ''%3s|'') [Ptr (type_name d)];
               nm \<leftarrow> c_text (dmem s) (d_name d);
               b \<leftarrow> do_printf (str ''%s (%s)'') [Ptr nm, Ptr (interface_name d)];
               Some (a @ concat (replicate height (str '' '')) @ b)
             });
     Some (text @ [10])
   }"

text \<open>The children of a node are walked along their list, starting at the cell \<open>item\<close>.\<close>

partial_function (option) enumerate_in :: "'h devs \<Rightarrow> nat \<Rightarrow> addr \<Rightarrow> u8 list option" where
  "enumerate_in s height item =
     (if item = NULL then Some []
      else do {
        c \<leftarrow> nodes (dheap s) item;
        a \<leftarrow> (if n_value c = NULL then Some []
              else do {
                n \<leftarrow> tnodes (dheap s) (n_value c);
                h \<leftarrow> dev_line s height (t_value n);
                l \<leftarrow> lists (dheap s) (t_children n);
                r \<leftarrow> enumerate_in s (w32 (height + 4)) (l_head l);
                Some (h @ r)
              });
        b \<leftarrow> enumerate_in s height (n_next c);
        Some (a @ b)
      })"

definition device_tree_enumerate :: "addr \<Rightarrow> nat \<Rightarrow> 'h devs \<Rightarrow> u8 list option" where
  "device_tree_enumerate node height s =
     (if node = NULL then Some []
      else do {
        n \<leftarrow> tnodes (dheap s) node;
        h \<leftarrow> dev_line s height (t_value n);
        l \<leftarrow> lists (dheap s) (t_children n);
        r \<leftarrow> enumerate_in s (w32 (height + 4)) (l_head l);
        Some (h @ r)
      })"

section \<open>What a listing shows\<close>

text \<open>The nodes in preorder, each with its indentation.\<close>

fun outline :: "nat \<Rightarrow> tr list \<Rightarrow> (nat \<times> addr) list" where
  "outline h [] = []"
| "outline h (TNode c p v l ks # ts) = (h, v) # outline (w32 (h + 4)) ks @ outline h ts"

definition named_device :: "'h devs \<Rightarrow> addr \<Rightarrow> device \<Rightarrow> cstring \<Rightarrow> bool" where
  "named_device s v d nm \<longleftrightarrow> v \<noteq> NULL \<and> devices s v = Some d \<and> cstr (dmem s) (d_name d) nm"

definition line_text :: "nat \<Rightarrow> device \<Rightarrow> cstring \<Rightarrow> u8 list" where
  "line_text h d nm =
     replicate (3 - length (type_name d)) 32 @ type_name d @ str ''|'' @ replicate h 32 @ nm @ str '' ('' @ interface_name d @
     str '')'' @ [10]"

lemma c_text_cstr:
  assumes "cstr m p nm"
  shows "c_text m p = Some nm"
proof -
  have "map (\<lambda>i. m (p + i)) [0..<length nm] = nm" using assms by (intro nth_equalityI) (auto simp: cstr_iff)
  then show ?thesis by (simp add: c_text_def strlen_cstr [OF assms])
qed

lemma type_field: "do_printf (str ''%3s|'') [Ptr (type_name d)] =
    Some (replicate (3 - length (type_name d)) 32 @ type_name d @ str ''|'')"
proof -
  let ?t = "type_name d" and ?st = "pstate0\<lparr>p_state := 4, p_wd := 3\<rparr>"
  have z: "0 \<notin> set ?t" "length ?t \<le> 3" by (auto simp: type_name_def str_def)
  have e: "emit ?st ?t = replicate (3 - length ?t) 32 @ ?t"
    using takeWhile_nonzero [OF z(1)] z(2) by (simp add: emit_def emit2_def pstate0_def Let_def del: takeWhile_eq_all_conv)
  have f: "str ''%3s|'' = ch CHR ''%'' # str ''3s|''" "str ''s|'' = ch CHR ''s'' # str ''|''" by (simp_all add: str_def)
  have 1: "pf_step (ch CHR ''%'') (str ''3s|'') pstate0 [Ptr ?t] =
      Some ([], str ''s|'', pstate0\<lparr>p_state := 2, p_wd := 3\<rparr>, [Ptr ?t])"
    by (simp add: pf_step_def state1_def state2_def pstate0_def str_def w32_def)
  have 2: "pf_step (ch CHR ''s'') (str ''|'') (pstate0\<lparr>p_state := 2, p_wd := 3\<rparr>) [Ptr ?t] =
      Some (emit ?st ?t, str ''|'', pstate0, [])"
    by (simp add: pf_step_def state2_def state3_def state4_def conversion_def pstate0_def str_def)
  have 3: "pf_loop (str ''|'') pstate0 [] = Some (str ''|'')"
    using pf_loop_text [of "str ''|''" "[]" "[]"] by (simp add: str_def)
  show ?thesis unfolding do_printf_def f pf_loop_step [OF 1] pf_loop_step [OF 2] 3 e by simp
qed

lemma name_field:
  assumes "0 \<notin> set nm"
  shows "do_printf (str ''%s (%s)'') [Ptr nm, Ptr (interface_name d)] = Some (nm @ str '' ('' @ interface_name d @ str '')'')"
proof -
  have "0 \<notin> set (interface_name d)" by (auto simp: interface_name_def str_def)
  with assms show ?thesis by (simp add: pf_fields)
qed

lemma dev_line_text:
  assumes "named_device s v d nm"
  shows "dev_line s h v = Some (line_text h d nm)"
proof -
  have n: "0 \<notin> set nm" using assms by (auto simp: named_device_def cstr_iff in_set_conv_nth)
  have "concat (replicate h (str '' '')) = replicate h 32" by (induction h) (simp_all add: str_def)
  then show ?thesis
    using assms c_text_cstr [of "dmem s" "d_name d" nm]
    by (simp add: dev_line_def named_device_def type_field name_field [OF n] line_text_def)
qed

text \<open>\<open>look\<close> gives the device and the name of each value in the tree.\<close>

lemma enumerate_in_forest:
  assumes "dll (nodes (dheap s)) q (kcells ts) NULL" and "trep (dheap s) par ts"
    and "\<forall>(k, v) \<in> set (outline h ts). named_device s v (fst (look v)) (snd (look v))"
  shows "enumerate_in s h (first (kcells ts) NULL) =
    Some (concat (map (\<lambda>(k, v). line_text k (fst (look v)) (snd (look v))) (outline h ts)))"
  using assms
proof (induction h ts arbitrary: q par rule: outline.induct)
  case (1 h)
  then show ?case by (simp add: enumerate_in.simps)
next
  case (2 h c p w l ks ts)
  have ks: "enumerate_in s (w32 (h + 4)) (first (kcells ks) NULL) =
      Some (concat (map (\<lambda>(k, v). line_text k (fst (look v)) (snd (look v))) (outline (w32 (h + 4)) ks)))"
    using "2.IH"(1) [of NULL p] "2.prems" by (simp add: list_rep_def)
  have ts: "enumerate_in s h (first (kcells ts) NULL) =
      Some (concat (map (\<lambda>(k, v). line_text k (fst (look v)) (snd (look v))) (outline h ts)))"
    using "2.IH"(2) "2.prems" by auto
  have "dev_line s h w = Some (line_text h (fst (look w)) (snd (look w)))" using "2.prems"(3) by (simp add: dev_line_text)
  then show ?case using "2.prems" ks ts by (subst enumerate_in.simps) (auto simp: list_rep_def)
qed

section \<open>Properties\<close>

text \<open>
  Property C38. The listing of a device tree returns and shows every device once, in preorder: its type right-aligned in three
  columns, four more spaces of indentation for each level (counted in 32 bits), its name and its interface.
\<close>

theorem device_listing_preorder:
  assumes "trep (dheap s) par [t]" and "\<forall>(k, v) \<in> set (outline h [t]). named_device s v (fst (look v)) (snd (look v))"
  shows "device_tree_enumerate (ptr t) h s =
    Some (concat (map (\<lambda>(k, v). line_text k (fst (look v)) (snd (look v))) (outline h [t])))"
proof -
  obtain c p v l ks where t: "t = TNode c p v l ks" by (cases t) auto
  have "enumerate_in s (w32 (h + 4)) (first (kcells ks) NULL) =
      Some (concat (map (\<lambda>(k, v). line_text k (fst (look v)) (snd (look v))) (outline (w32 (h + 4)) ks)))"
    using assms unfolding t by (intro enumerate_in_forest [of _ NULL ks p]) (simp_all add: list_rep_def)
  moreover have "dev_line s h v = Some (line_text h (fst (look v)) (snd (look v)))"
    using assms(2) unfolding t by (simp add: dev_line_text)
  ultimately show ?thesis using assms(1) unfolding t by (auto simp: device_tree_enumerate_def list_rep_def)
qed

definition listing_example :: "unit devs" where
  "listing_example =
     \<lparr>dheap = \<lparr>nodes = [20 \<mapsto> \<lparr>n_next = 0, n_prev = 0, n_value = 11\<rparr>],
        lists = [30 \<mapsto> \<lparr>l_head = 20, l_tail = 20, l_length = 1\<rparr>, 31 \<mapsto> \<lparr>l_head = 0, l_tail = 0, l_length = 0\<rparr>], lmem = (),
        tnodes = [10 \<mapsto> \<lparr>t_value = 8, t_children = 30, t_parent = 0\<rparr>, 11 \<mapsto> \<lparr>t_value = 9, t_children = 31, t_parent = 10\<rparr>],
        trees = Map.empty\<rparr>,
      devices = [8 \<mapsto> \<lparr>d_name = 1, d_id = 0, d_type = 0, d_flags = 0, d_permissions = 0, d_interface = 0, d_status = 0,
          d_mutex = 0, d_driver = 0\<rparr>,
        9 \<mapsto> \<lparr>d_name = 4, d_id = 0, d_type = 2, d_flags = 0, d_permissions = 0, d_interface = 4, d_status = 0, d_mutex = 0,
          d_driver = 0\<rparr>],
      dmem = (\<lambda>a. 0)(1 := 114, 4 := 107), device_tree = 40, dev_root = 8, kernel_ns = 0, inserted_statically = False\<rparr>"

theorem device_listing_preorder_witness:
  "device_tree_enumerate 10 0 listing_example = Some (str '' NS|r (KERN)'' @ [10] @ str '' HW|    k (IO)'' @ [10])"
proof -
  let ?look = "\<lambda>v. (the (devices listing_example v), if v = 8 then [114] else [107])"
  let ?t = "TNode 0 10 8 30 [TNode 20 11 9 31 []]"
  have "trep (dheap listing_example) 0 [?t]" by (simp add: listing_example_def list_rep_def)
  moreover have "\<forall>(k, v) \<in> set (outline 0 [?t]). named_device listing_example v (fst (?look v)) (snd (?look v))"
    by (simp add: listing_example_def named_device_def cstr_iff)
  moreover have "outline 0 [?t] = [(0, 8), (4, 9)]" by (simp add: w32_def)
  moreover have "line_text 0 (fst (?look 8)) (snd (?look 8)) = str '' NS|r (KERN)'' @ [10]"
    by (simp add: listing_example_def line_text_def type_name_def interface_name_def str_def)
  moreover have "replicate 4 (32 :: u8) = [32, 32, 32, 32]" by code_simp
  then have "line_text 4 (fst (?look 9)) (snd (?look 9)) = str '' HW|    k (IO)'' @ [10]"
    by (simp add: listing_example_def line_text_def type_name_def interface_name_def str_def)
  ultimately show ?thesis using device_listing_preorder [of listing_example 0 ?t 0 ?look] by simp
qed

end
