(* ===== verification/Fault_Report.thy ===== *)
theory Fault_Report
  imports Console Interrupts
begin

text \<open>
  What the PC shows before it stops: the report of an exception (\<^verbatim>\<open>fault_handler\<close> of
  \<^verbatim>\<open>src/kernel/arch/x86/low/isr.c\<close>), the page fault handler (\<^verbatim>\<open>paging.c\<close>), and \<^verbatim>\<open>panic\<close>, \<^verbatim>\<open>halt\<close> and
  \<^verbatim>\<open>halt_regs\<close> of \<^verbatim>\<open>src/kernel/error.c\<close>. None of them returns (\<open>Interrupts\<close> has the exception as a call that
  does not); the definitions here give the console at the moment the processor stops.
\<close>

unbundle bit_operations_syntax

section \<open>The registers and the names of the exceptions\<close>

record regs =
  r_gs :: u32
  r_fs :: u32
  r_es :: u32
  r_ds :: u32
  r_edi :: u32
  r_esi :: u32
  r_ebp :: u32
  r_useless_value :: u32
  r_ebx :: u32
  r_edx :: u32
  r_ecx :: u32
  r_eax :: u32
  r_int_no :: u32
  r_err_code :: u32
  r_eip :: u32
  r_cs :: u32
  r_eflags :: u32
  r_useresp :: u32
  r_ss :: u32

definition exception_messages :: "cstring list" where
  "exception_messages =
     [str ''Division By Zero'', str ''Debug'', str ''Non Maskable Interrupt'', str ''Breakpoint'', str ''Into Detected Overflow'',
      str ''Out of Bounds'', str ''Invalid Opcode'', str ''No Coprocessor'', str ''Double Fault'',
      str ''Coprocessor Segment Overrun'', str ''Bad TSS'', str ''Segment Not Present'', str ''Stack Fault'',
      str ''General Protection Fault'', str ''Page Fault'', str ''Unknown Interrupt'', str ''Coprocessor Fault'',
      str ''Alignment Check'', str ''Machine Check'', str ''Reserved'', str ''Reserved'', str ''Reserved'', str ''Reserved'',
      str ''Reserved'', str ''Reserved'', str ''Reserved'', str ''Reserved'', str ''Reserved'', str ''Reserved'', str ''Reserved'',
      str ''Reserved'', str ''Reserved'']"

section \<open>The reports\<close>

text \<open>\<open>cr2\<close> is the faulting address. The tests of single bits are not brought to 0 and 1, except the first.\<close>

definition paging_fault :: "u32 \<Rightarrow> regs \<Rightarrow> console \<Rightarrow> console option" where
  "paging_fault cr2 r s = do {
     s1 \<leftarrow> klog 1 (str ''PF'') (str ''Page fault!'' @ [10]) [] s;
     let present = (if r_err_code r AND 0x1 = 0 then 1 else 0);
     klog 1 (str ''PF'') (str ''Addr:0x%X. present %d rw %d us %d res %d id %d'' @ [10])
       [Num cr2, Num present, Num (r_err_code r AND 0x2), Num (r_err_code r AND 0x4), Num (r_err_code r AND 0x8),
        Num (r_err_code r AND 0x10)] s1
   }"

text \<open>Of the handlers of an exception only the one of vector 14 is called, when \<^verbatim>\<open>paging_init\<close> has registered it.\<close>

definition fault_report :: "(nat \<Rightarrow> irq_fn option) \<Rightarrow> u32 \<Rightarrow> regs \<Rightarrow> console \<Rightarrow> console option" where
  "fault_report hs cr2 r s =
     (if r_int_no r < 32 then do {
        s1 \<leftarrow> (if r_int_no r = 14 \<and> hs 14 = Some Paging_fault then paging_fault cr2 r s else Some s);
        klog 0 (str ''SYS'') (str ''Encountered interrupt %d (%s)!'' @ [10])
          [Num (r_int_no r), Ptr (exception_messages ! unat (r_int_no r))] s1
      } else Some s)"

definition halt :: "console \<Rightarrow> console option" where
  "halt s = klog 4 (str ''halt'') (str ''Halting!'' @ [10]) [] s"

text \<open>The reason is the format of the message.\<close>

definition panic :: "cstring \<Rightarrow> console \<Rightarrow> console option" where
  "panic reason s = do {
     s1 \<leftarrow> klog 0 (str ''panic'') reason [] s;
     halt s1
   }"

definition halt_regs :: "regs \<Rightarrow> console \<Rightarrow> console option" where
  "halt_regs r s = do {
     s0 \<leftarrow> klog 4 (str ''halt'') (str ''Halting!'' @ [10]) [] s;
     (n, s1) \<leftarrow> printf printc (str ''Registers:'' @ [10]) [] s0;
     (n, s2) \<leftarrow> printf printc (str ''| eax 0x%X; ebx 0x%X; ecx 0x%X; edx 0x%X'' @ [10])
       [Num (r_eax r), Num (r_ebx r), Num (r_ecx r), Num (r_edx r)] s1;
     (n, s3) \<leftarrow> printf printc (str ''| ??? 0x%X; ebp 0x%X; err 0x%X; efl 0x%X'' @ [10])
       [Num (r_useless_value r), Num (r_ebp r), Num (r_err_code r), Num (r_eflags r)] s2;
     (n, s4) \<leftarrow> printf printc (str ''| usp 0x%X; eip 0x%X; esi 0x%X; edi 0x%X'' @ [10])
       [Num (r_useresp r), Num (r_ebp r), Num (r_esi r), Num (r_edi r)] s3;
     (n, s5) \<leftarrow> printf printc (str ''| cs 0x%X; ds 0x%X; es 0x%X; fs 0x%X'' @ [10])
       [Num (r_cs r), Num (r_ds r), Num (r_es r), Num (r_fs r)] s4;
     (n, s6) \<leftarrow> printf printc (str ''| gs  0x%X'' @ [10]) [Num (r_gs r)] s5;
     halt s6
   }"

section \<open>What appears\<close>

text \<open>A message on the screen: its title in yellow, its text in white.\<close>

definition shown :: "cstring \<times> u8 list \<Rightarrow> tty \<Rightarrow> tty" where
  "shown msg t = fold (tty_put 0x0F) (snd msg) (fold (tty_put 0x0E) (fst msg @ str '': '') t)"

definition hex_text :: "u32 \<Rightarrow> u8 list" where
  "hex_text w = str ''0x'' @ show_radix True Hex (unat w)"

definition fault_messages :: "bool \<Rightarrow> u32 \<Rightarrow> regs \<Rightarrow> (cstring \<times> u8 list) list" where
  "fault_messages paging cr2 r =
     (if r_int_no r = 14 \<and> paging
      then [(str ''PF'', str ''Page fault!'' @ [10]),
            (str ''PF'', str ''Addr:'' @ hex_text cr2 @ str ''. present '' @ decimal_text (if r_err_code r AND 0x1 = 0 then 1 else 0) @
              str '' rw '' @ decimal_text (r_err_code r AND 0x2) @ str '' us '' @ decimal_text (r_err_code r AND 0x4) @
              str '' res '' @ decimal_text (r_err_code r AND 0x8) @ str '' id '' @ decimal_text (r_err_code r AND 0x10) @ [10])]
      else []) @
     [(str ''SYS'', str ''Encountered interrupt '' @ decimal_text (r_int_no r) @ str '' ('' @
        exception_messages ! unat (r_int_no r) @ str '')!'' @ [10])]"

lemma mask_basic:
  "klog_mask (textmode_scroll a b s) = klog_mask s" "klog_mask (textmode_write x y c s) = klog_mask s"
  "klog_mask (textmode_setcursor x y s) = klog_mask s"
  by (simp_all add: textmode_scroll_def textmode_write_def textmode_setcursor_def crt_outb_def Let_def)

lemma print_mask: "klog_mask (print cs s) = klog_mask s"
proof -
  have "klog_mask (printc c t) = klog_mask t" for c t
    by (simp add: printc_def printc_char_def printc_settle_def scroll_def mask_basic video_scroll_def video_printchar_def
        video_setcursor_def Let_def)
  then show ?thesis by (induction cs arbitrary: s) (simp_all add: print_def)
qed

lemma klog_shown:
  assumes "on_screen s" and "0 \<notin> set title" and "do_printf fmt args = Some out" and "mode \<le> klog_mask s" and "mode < 5"
  shows "\<exists>s'. klog mode title fmt args s = Some s' \<and> on_screen s' \<and> klog_mask s' = klog_mask s \<and>
    tty_of s' = shown (title, out) (tty_of s)"
proof -
  obtain s' where s': "klog mode title fmt args s = Some s'" "on_screen s'"
    "tty_of s' = fold (tty_put 0x0F) out (fold (tty_put 0x0E) (klog_header mode title) (tty_of s))"
    using klog_shows_message [OF assms(1-3), of mode] assms(4) by auto
  moreover have "klog_mask s' = klog_mask s"
    using s'(1) klog_steps [OF assms(4,2,3)]
    by (auto simp: print_mask video_resetattributetext_def video_setattributetext_def textmode_resetcolor_def textmode_setcolor_def)
  moreover have "klog_header mode title = title @ str '': ''" using assms(5) by (simp add: klog_header_def)
  ultimately show ?thesis by (simp add: shown_def)
qed

lemma page_fault_text:
  "do_printf (str ''Page fault!'' @ [10]) [] = Some (str ''Page fault!'' @ [10])"
  "do_printf (str ''Addr:0x%X. present %d rw %d us %d res %d id %d'' @ [10]) [Num a, Num p, Num w, Num u, Num v, Num i] =
    Some (str ''Addr:'' @ hex_text a @ str ''. present '' @ decimal_text p @ str '' rw '' @ decimal_text w @
      str '' us '' @ decimal_text u @ str '' res '' @ decimal_text v @ str '' id '' @ decimal_text i @ [10])"
  by (simp_all add: pf_fields hex_text_def)

lemma interrupt_text:
  assumes "0 \<notin> set name"
  shows "do_printf (str ''Encountered interrupt %d (%s)!'' @ [10]) [Num n, Ptr name] =
    Some (str ''Encountered interrupt '' @ decimal_text n @ str '' ('' @ name @ str '')!'' @ [10])"
  using assms by (simp add: pf_fields)

lemma exception_name: "n < 32 \<Longrightarrow> 0 \<notin> set (exception_messages ! n)"
proof -
  assume "n < 32"
  then have "exception_messages ! n \<in> set exception_messages" by (intro nth_mem) (simp add: exception_messages_def)
  moreover have "\<forall>w \<in> set exception_messages. 0 \<notin> set w" by (simp add: exception_messages_def str_def)
  ultimately show ?thesis by blast
qed

section \<open>Properties\<close>

text \<open>
  Property C33. An exception is reported on the screen before the processor stops: the number and the name of the exception, and for
  a page fault, once paging is set up, first the address in hexadecimal and the bits of the error code; nothing else changes on the
  screen, whatever its state and the position of the cursor.
\<close>

theorem fault_report_shows:
  assumes "on_screen s" and "1 \<le> klog_mask s" and "r_int_no r < 32"
  shows "\<exists>s'. fault_report hs cr2 r s = Some s' \<and> on_screen s' \<and>
    tty_of s' = fold shown (fault_messages (hs 14 = Some Paging_fault) cr2 r) (tty_of s)"
proof -
  have pf: "0 \<notin> set (str ''PF'')" "0 \<notin> set (str ''SYS'')" by (simp_all add: str_def)
  have "unat (r_int_no r) < 32" using assms(3) by (simp add: word_less_nat_alt)
  note name = exception_name [OF this]
  have last: "\<exists>s'. klog 0 (str ''SYS'') (str ''Encountered interrupt %d (%s)!'' @ [10])
      [Num (r_int_no r), Ptr (exception_messages ! unat (r_int_no r))] t = Some s' \<and> on_screen s' \<and>
      tty_of s' = fold shown (fault_messages False cr2 r) (tty_of t)"
    if "on_screen t" "1 \<le> klog_mask t" for t
    using klog_shown [OF that(1) pf(2) interrupt_text [OF name], of 0 "r_int_no r"] that(2) by (auto simp: fault_messages_def)
  show ?thesis
  proof (cases "r_int_no r = 14 \<and> hs 14 = Some Paging_fault")
    case True
    obtain s1 where s1: "klog 1 (str ''PF'') (str ''Page fault!'' @ [10]) [] s = Some s1" "on_screen s1" "1 \<le> klog_mask s1"
      "tty_of s1 = shown (str ''PF'', str ''Page fault!'' @ [10]) (tty_of s)"
      using klog_shown [OF assms(1) pf(1) page_fault_text(1), of 1] assms(2) by auto
    obtain s2 where s2: "paging_fault cr2 r s = Some s2" "on_screen s2" "1 \<le> klog_mask s2"
      "tty_of s2 = fold shown (take 2 (fault_messages True cr2 r)) (tty_of s)"
      using klog_shown [OF s1(2) pf(1) page_fault_text(2) [of cr2 "if r_err_code r AND 0x1 = 0 then 1 else 0"
          "r_err_code r AND 0x2" "r_err_code r AND 0x4" "r_err_code r AND 0x8" "r_err_code r AND 0x10"], of 1] s1 True
      by (auto simp: paging_fault_def Let_def fault_messages_def simp del: if_split)
    from last [OF s2(2,3)] s2 True assms(3) show ?thesis
      by (auto simp: fault_report_def fault_messages_def)
  next
    case False
    with last [OF assms(1,2)] assms(3) show ?thesis by (auto simp: fault_report_def fault_messages_def)
  qed
qed

definition page_regs :: regs where
  "page_regs = \<lparr>r_gs = 0x10, r_fs = 0x10, r_es = 0x10, r_ds = 0x10, r_edi = 0, r_esi = 0, r_ebp = 0, r_useless_value = 0, r_ebx = 0,
     r_edx = 0, r_ecx = 0, r_eax = 7, r_int_no = 14, r_err_code = 2, r_eip = 0x100000, r_cs = 8, r_eflags = 0x202, r_useresp = 0,
     r_ss = 0x10\<rparr>"

theorem fault_report_shows_witness:
  "\<exists>s'. fault_report [14 \<mapsto> Paging_fault] 0xB8000 page_regs console0 = Some s' \<and> on_screen s' \<and>
     tty_of s' = fold shown (fault_messages True 0xB8000 page_regs) (tty_of console0)"
  using fault_report_shows [OF console0_on_screen(1), of page_regs "[14 \<mapsto> Paging_fault]" "0xB8000"]
  by (simp add: page_regs_def console0_def)

text \<open>The dump of the registers shows the frame pointer where it announces the instruction pointer.\<close>

theorem halt_regs_without_eip: "halt_regs (r\<lparr>r_eip := x\<rparr>) s = halt_regs r s"
  by (simp add: halt_regs_def)

end
