(* ===== verification/Vfs_Listing.thy ===== *)
theory Vfs_Listing
  imports Vfs Printf
begin

text \<open>
  The listing of the mount tree, \<^verbatim>\<open>vfs_print_tree_node\<close> of \<^verbatim>\<open>src/kernel/vfs.c\<close>, on the tree of \<open>Vfs\<close>. The listing
  prints the addresses of the mounted nodes, which the model does not have: \<open>at\<close> gives the address of the node of an
  entry. The result is the text that is printed.
\<close>

section \<open>The listing\<close>

fun vfs_print_tree_node :: "(vtree \<Rightarrow> u32) \<Rightarrow> nat \<Rightarrow> vtree \<Rightarrow> u8 list option" where
  "vfs_print_tree_node at height (VEntry name file kids) = do {
     text \<leftarrow> (case file of
        Some n \<Rightarrow> do_printf (str ''%s -> 0x%x (%s)'') [Ptr name, Num (at (VEntry name file kids)), Ptr (v_name n)]
      | None \<Rightarrow> do_printf (str ''%s -> (no file data)'') [Ptr name]);
     rest \<leftarrow> those (map (vfs_print_tree_node at (w32 (height + 4))) kids);
     Some (concat (replicate height (str '' '')) @ text @ [10] @ concat rest)
   }"

section \<open>What it shows\<close>

definition entry_line :: "(vtree \<Rightarrow> u32) \<Rightarrow> nat \<Rightarrow> vtree \<Rightarrow> u8 list" where
  "entry_line at h t = replicate h 32 @ e_name t @
     (case e_file t of
        Some n \<Rightarrow> str '' -> 0x'' @ show_radix False Hex (unat (at t)) @ str '' ('' @ v_name n @ str '')''
      | None \<Rightarrow> str '' -> (no file data)'') @ [10]"

fun listing :: "(vtree \<Rightarrow> u32) \<Rightarrow> nat \<Rightarrow> vtree \<Rightarrow> u8 list" where
  "listing at h (VEntry name file kids) = entry_line at h (VEntry name file kids) @ concat (map (listing at (w32 (h + 4))) kids)"

text \<open>Names hold no zero byte.\<close>

fun c_named :: "vtree \<Rightarrow> bool" where
  "c_named (VEntry name file kids) \<longleftrightarrow> 0 \<notin> set name \<and> (\<forall>n. file = Some n \<longrightarrow> 0 \<notin> set (v_name n)) \<and> (\<forall>k \<in> set kids. c_named k)"

lemma hex_lower_field:
  "pf_loop (37 # 120 # fs) pstate0 (Num w # args) = map_option (\<lambda>rest. show_radix False Hex (unat w) @ rest) (pf_loop fs pstate0 args)"
proof (rule pf_loop_step)
  show "pf_step 37 (120 # fs) pstate0 (Num w # args) = Some (show_radix False Hex (unat w), fs, pstate0, args)"
    using emit_plain [OF num_digits_nonzero, of _ False Hex "unat w"]
    by (simp add: pf_step_def state1_def state2_def state3_def state4_def pstate0_def conversion_def do_num_def num_digits_show)
qed

lemma those_Some: "(\<And>x. x \<in> set xs \<Longrightarrow> f x = Some (g x)) \<Longrightarrow> those (map f xs) = Some (map g xs)"
  by (induction xs) auto

section \<open>Properties\<close>

text \<open>The listing of a mount tree returns and shows every entry once, above its children, with their indentation.\<close>

theorem vfs_listing_complete: "c_named t \<Longrightarrow> vfs_print_tree_node at h t = Some (listing at h t)"
proof (induction t arbitrary: h rule: c_named.induct)
  case (1 name node kids)
  have kids: "those (map (vfs_print_tree_node at (w32 (h + 4))) kids) = Some (map (listing at (w32 (h + 4))) kids)"
    using "1.IH" "1.prems" by (intro those_Some) simp
  have "concat (replicate h (str '' '')) = replicate h 32" by (induction h) (simp_all add: str_def)
  with kids "1.prems" show ?case
    by (cases node) (simp_all add: entry_line_def pf_fields hex_lower_field)
qed

theorem vfs_listing_complete_witness:
  "vfs_print_tree_node (\<lambda>_. 0x10) 0 (VEntry (str ''a'') None []) = Some (listing (\<lambda>_. 0x10) 0 (VEntry (str ''a'') None []))"
  by (rule vfs_listing_complete) (simp add: str_def)

end
