(* ===== verification/Interleaving.thy ===== *)
theory Interleaving
  imports Beryllium_Prelude
begin

text \<open>
  Statements under interrupts. A routine of the main program is a step function on configurations that hold the state
  and the place in the routine; between two statements an interrupt may be taken, if the configuration lets it. What
  such runs have to do with sequences of whole calls and whole interrupts is stated once, as the contract
  \<open>interruptible\<close>, and proved for each routine by its interpretation.
\<close>

section \<open>Runs\<close>

datatype ('k, 'x) event = Intr 'k | Ret 'x

text \<open>
  \<open>irun next intr returned c0 es c\<close>: from \<open>c0\<close> to \<open>c\<close> with the events \<open>es\<close>, the interrupts taken and the values the
  calls have returned to their caller, in order of time.
\<close>

inductive irun :: "('c \<Rightarrow> 'c option) \<Rightarrow> ('k \<Rightarrow> 'c \<Rightarrow> 'c option) \<Rightarrow> ('c \<Rightarrow> 'x list) \<Rightarrow> 'c \<Rightarrow> ('k, 'x) event list \<Rightarrow> 'c \<Rightarrow> bool"
  for stmt intr returned c0 where
  irun_start: "irun stmt intr returned c0 [] c0"
| irun_statement:
    "irun stmt intr returned c0 es c \<Longrightarrow> stmt c = Some c' \<Longrightarrow> irun stmt intr returned c0 (es @ map Ret (returned c)) c'"
| irun_interrupt:
    "irun stmt intr returned c0 es c \<Longrightarrow> intr k c = Some c' \<Longrightarrow> irun stmt intr returned c0 (es @ [Intr k]) c'"

lemma irun_trans:
  assumes "irun stmt intr returned c1 es2 c2" and "irun stmt intr returned c0 es1 c1"
  shows "irun stmt intr returned c0 (es1 @ es2) c2"
  using assms
proof (induction rule: irun.induct)
  case (irun_statement es c c')
  have "irun stmt intr returned c0 ((es1 @ es) @ map Ret (returned c)) c'"
    using irun_statement.IH [OF irun_statement.prems] irun_statement.hyps(2) by (rule irun.irun_statement)
  then show ?case by simp
next
  case (irun_interrupt es c k c')
  have "irun stmt intr returned c0 ((es1 @ es) @ [Intr k]) c'"
    using irun_interrupt.IH [OF irun_interrupt.prems] irun_interrupt.hyps(2) by (rule irun.irun_interrupt)
  then show ?case by simp
qed simp

lemma irun_next:
  "irun stmt intr returned c0 es c \<Longrightarrow> stmt c = Some c' \<Longrightarrow> returned c = xs \<Longrightarrow> irun stmt intr returned c0 (es @ map Ret xs) c'"
  by (drule (1) irun_statement) simp

lemmas irun_silent = irun_next [where xs = "[]", simplified]

section \<open>Histories\<close>

text \<open>The interrupts and the returned values of a sequence of events.\<close>

primrec intrs :: "('k, 'x) event list \<Rightarrow> 'k list" where
  "intrs [] = []"
| "intrs (e # es) = (case e of Intr k \<Rightarrow> k # intrs es | Ret x \<Rightarrow> intrs es)"

primrec rets :: "('k, 'x) event list \<Rightarrow> 'x list" where
  "rets [] = []"
| "rets (e # es) = (case e of Intr k \<Rightarrow> rets es | Ret x \<Rightarrow> x # rets es)"

lemma intrs_rets_append [simp]: "intrs (es @ fs) = intrs es @ intrs fs" "rets (es @ fs) = rets es @ rets fs"
  by (induction es) (auto split: event.split)

lemma intrs_rets_map [simp]: "intrs (map Ret xs) = []" "rets (map Ret xs) = xs"
  by (induction xs) auto

text \<open>A sequential history: each interrupt is handled as a whole, each call is made as a whole and returns what the history says.\<close>

primrec history :: "('s \<Rightarrow> ('x \<times> 's) option) \<Rightarrow> ('k \<Rightarrow> 's \<Rightarrow> 's option) \<Rightarrow> ('k, 'x) event list \<Rightarrow> 's \<Rightarrow> 's option" where
  "history call handle [] s = Some s"
| "history call handle (e # es) s =
     (case e of
        Intr k \<Rightarrow> Option.bind (handle k s) (history call handle es)
      | Ret x \<Rightarrow> do { (y, s1) \<leftarrow> call s; if y = x then history call handle es s1 else None })"

lemma history_append:
  "history call handle (es @ fs) s = Option.bind (history call handle es s) (history call handle fs)"
  by (induction es arbitrary: s) (auto split: event.split Option.bind_split)

section \<open>The contract of a routine\<close>

text \<open>
  \<open>inside s c\<close>: the configuration is somewhere in the routine and \<open>s\<close> is the state after the whole calls and interrupts
  so far. A statement either leaves \<open>s\<close> alone or is the one that makes the call happen; an interrupt that can be taken
  happens to \<open>s\<close>. \<open>due\<close> are the values of calls that have happened but not yet returned.
\<close>

locale interruptible =
  fixes stmt :: "'c \<Rightarrow> 'c option" and intr :: "'k \<Rightarrow> 'c \<Rightarrow> 'c option" and returned :: "'c \<Rightarrow> 'x list" and due :: "'c \<Rightarrow> 'x list"
    and call :: "'s \<Rightarrow> ('x \<times> 's) option" and handle :: "'k \<Rightarrow> 's \<Rightarrow> 's option" and inside :: "'s \<Rightarrow> 'c \<Rightarrow> bool"
  assumes statement: "inside s c \<Longrightarrow> stmt c = Some c' \<Longrightarrow>
      due c = returned c @ due c' \<and> inside s c' \<or>
      (\<exists>x s'. due c @ [x] = returned c @ due c' \<and> call s = Some (x, s') \<and> inside s' c')"
    and interrupt: "inside s c \<Longrightarrow> intr k c = Some c' \<Longrightarrow> due c' = due c \<and> (\<exists>s'. handle k s = Some s' \<and> inside s' c')"
begin

lemma linear:
  assumes "irun stmt intr returned c0 es c" and "inside s0 c0" and "due c0 = []"
  shows "\<exists>h s. intrs h = intrs es \<and> rets h = rets es @ due c \<and> history call handle h s0 = Some s \<and> inside s c"
  using assms(1)
proof induction
  case irun_start
  show ?case by (rule exI [of _ "[]"]) (use assms(2,3) in simp)
next
  case (irun_statement es c c')
  then obtain h s where h: "intrs h = intrs es" "rets h = rets es @ due c" "history call handle h s0 = Some s" "inside s c"
    by blast
  from statement [OF h(4) irun_statement.hyps(2)] show ?case
  proof
    assume "due c = returned c @ due c' \<and> inside s c'"
    with h show ?thesis by (intro exI [of _ h] exI [of _ s]) simp
  next
    assume "\<exists>x s'. due c @ [x] = returned c @ due c' \<and> call s = Some (x, s') \<and> inside s' c'"
    then obtain x s' where x: "due c @ [x] = returned c @ due c'" "call s = Some (x, s')" "inside s' c'" by blast
    with h show ?thesis by (intro exI [of _ "h @ [Ret x]"] exI [of _ s']) (simp add: history_append)
  qed
next
  case (irun_interrupt es c k c')
  then obtain h s where h: "intrs h = intrs es" "rets h = rets es @ due c" "history call handle h s0 = Some s" "inside s c"
    by blast
  from interrupt [OF h(4) irun_interrupt.hyps(2)] obtain s' where "due c' = due c" "handle k s = Some s'" "inside s' c'" by blast
  with h show ?case by (intro exI [of _ "h @ [Intr k]"] exI [of _ s']) (simp add: history_append)
qed

end

text \<open>A routine whose calls happen where they return: the history is the sequence of events itself.\<close>

locale interruptible_prompt = interruptible +
  assumes prompt: "due c = []"
begin

lemma in_order:
  assumes "irun stmt intr returned c0 es c" and "inside s0 c0"
  shows "\<exists>s. history call handle es s0 = Some s \<and> inside s c"
  using assms(1)
proof induction
  case (irun_statement es c c')
  then obtain s where s: "history call handle es s0 = Some s" "inside s c" by blast
  from statement [OF s(2) irun_statement.hyps(2)] show ?case
  proof
    assume "due c = returned c @ due c' \<and> inside s c'"
    then show ?thesis using s(1) prompt [of c] prompt [of c'] by simp
  next
    assume "\<exists>x s'. due c @ [x] = returned c @ due c' \<and> call s = Some (x, s') \<and> inside s' c'"
    then obtain x s' where x: "[x] = returned c" "call s = Some (x, s')" "inside s' c'" by (auto simp: prompt)
    from x(1) [symmetric] x(2,3) show ?thesis using s(1) by (simp add: history_append)
  qed
next
  case (irun_interrupt es c k c')
  then obtain s where s: "history call handle es s0 = Some s" "inside s c" by blast
  from interrupt [OF s(2) irun_interrupt.hyps(2)] s(1) show ?case by (auto simp: history_append)
qed (use assms(2) in simp)

end

end
