(* ===== verification/Keyboard_Interrupts.thy ===== *)
theory Keyboard_Interrupts
  imports Keyboard Interleaving
begin

text \<open>
  \<^verbatim>\<open>kb_read\<close> statement by statement, with the keyboard interrupt between any two of them while interrupts
  are enabled. The buffer and its index are shared; \<^verbatim>\<open>cli\<close> and \<^verbatim>\<open>sti\<close> protect the shift but not the
  test that precedes it. By the contract of \<open>Interleaving\<close> a run of calls and interrupts does what some
  sequence of whole calls and whole interrupts does, which is the view of \<open>Keyboard\<close>.
\<close>

section \<open>The statements of \<open>kb_read\<close>\<close>

text \<open>The statement about to be executed; \<open>KbReturn\<close> carries the value the call returns.\<close>

datatype kb_pc =
  KbTest | KbEmpty | KbCli | KbLock | KbTake | KbClear | KbShift nat | KbDec | KbUnlock | KbSti | KbReturn u8

record kb_cpu =
  kb_vars :: kb
  interrupts_on :: bool
  kb_at :: kb_pc
  kb_to_send :: u8

text \<open>One statement. After the return the caller, which polls the keyboard, calls again.\<close>

definition kb_next :: "u8 \<Rightarrow> kb_cpu \<Rightarrow> kb_cpu option" where
  "kb_next beyond c =
     (let s = kb_vars c
      in case kb_at c of
           KbTest \<Rightarrow> Some (c\<lparr>kb_at := (if buffer s ! 0 = 0 then KbEmpty else KbCli)\<rparr>)
         | KbEmpty \<Rightarrow> do { mutex_unlock (kbio_mutex s); Some (c\<lparr>kb_at := KbReturn 0\<rparr>) }
         | KbCli \<Rightarrow> Some (c\<lparr>interrupts_on := False, kb_at := KbLock\<rparr>)
         | KbLock \<Rightarrow> do { mutex_lock (kbio_mutex s); Some (c\<lparr>kb_at := KbTake\<rparr>) }
         | KbTake \<Rightarrow> Some (c\<lparr>kb_to_send := buffer s ! 0, kb_at := KbClear\<rparr>)
         | KbClear \<Rightarrow> Some (c\<lparr>kb_vars := s\<lparr>buffer := (buffer s)[0 := 0]\<rparr>, kb_at := KbShift 0\<rparr>)
         | KbShift i \<Rightarrow>
             if i < 0xFF
             then Some (c\<lparr>kb_vars := s\<lparr>buffer := (buffer s)[i := (if i + 1 < length (buffer s) then buffer s ! (i + 1) else beyond)]\<rparr>,
                          kb_at := KbShift (i + 1)\<rparr>)
             else Some (c\<lparr>kb_at := KbDec\<rparr>)
         | KbDec \<Rightarrow> Some (c\<lparr>kb_vars := s\<lparr>buffer_i := sub32 (buffer_i s) 1\<rparr>, kb_at := KbUnlock\<rparr>)
         | KbUnlock \<Rightarrow> do { mutex_unlock (kbio_mutex s); Some (c\<lparr>kb_at := KbSti\<rparr>) }
         | KbSti \<Rightarrow> Some (c\<lparr>interrupts_on := True, kb_at := KbReturn (kb_to_send c)\<rparr>)
         | KbReturn x \<Rightarrow> Some (c\<lparr>kb_at := KbTest\<rparr>))"

text \<open>The value handed to the caller by a statement, if it is a return.\<close>

definition kb_returned :: "kb_cpu \<Rightarrow> u8 list" where
  "kb_returned c = (case kb_at c of KbReturn x \<Rightarrow> [x] | _ \<Rightarrow> [])"

text \<open>
  The keyboard interrupt with scan code \<open>k\<close>: the interrupt gate keeps interrupts off inside the handler, so that
  it runs as a whole, but it only starts when they are enabled.
\<close>

definition kb_arrive :: "(u8 \<Rightarrow> u8) \<Rightarrow> u8 \<Rightarrow> kb_cpu \<Rightarrow> kb_cpu option" where
  "kb_arrive oob k c = (if interrupts_on c then Some (c\<lparr>kb_vars := kb_handler oob k (kb_vars c)\<rparr>) else None)"

text \<open>Runs of the polling caller, and sequences of whole reads and whole interrupts.\<close>

definition kb_run :: "(u8 \<Rightarrow> u8) \<Rightarrow> u8 \<Rightarrow> kb_cpu \<Rightarrow> (u8, u8) event list \<Rightarrow> kb_cpu \<Rightarrow> bool" where
  "kb_run oob beyond = irun (kb_next beyond) (kb_arrive oob) kb_returned"

abbreviation kb_history :: "(u8 \<Rightarrow> u8) \<Rightarrow> u8 \<Rightarrow> (u8, u8) event list \<Rightarrow> kb \<Rightarrow> kb option" where
  "kb_history oob beyond \<equiv> history (kb_read beyond) (\<lambda>k s. Some (kb_handler oob k s))"

section \<open>The buffer between interrupts\<close>

text \<open>Behind the index the buffer holds zeros, and the mutex is the null pointer it starts as.\<close>

definition kb_wf :: "kb \<Rightarrow> bool" where
  "kb_wf s \<longleftrightarrow> length (buffer s) = 0xFF \<and> buffer_i s \<le> 0xFF \<and> kbio_mutex s = NULL \<and>
     (\<forall>j < 0xFF. buffer_i s \<le> j \<longrightarrow> buffer s ! j = 0)"

lemma kb_wf_head: "kb_wf s \<Longrightarrow> buffer s ! 0 \<noteq> 0 \<Longrightarrow> 0 < buffer_i s"
  by (metis gr0I kb_wf_def le0 zero_less_numeral)

lemma kb_wf_flags [simp]:
  "kb_wf (s\<lparr>kb_shift := b\<rparr>) = kb_wf s" "kb_wf (s\<lparr>kb_extended := b\<rparr>) = kb_wf s" "kb_wf (s\<lparr>kb_ctl := b\<rparr>) = kb_wf s"
  by (simp_all add: kb_wf_def)

lemma kb_wf_store: "kb_wf s \<Longrightarrow> kb_wf (kb_store x s)"
  by (auto simp: kb_wf_def kb_store_def nth_list_update)

lemma kb_wf_handler: "kb_wf s \<Longrightarrow> kb_wf (kb_handler oob k s)"
  by (simp add: kb_handler_def kb_wf_store)

lemma kb_wf_read:
  assumes "kb_wf s" and "kb_read 0 s = Some (x, s')"
  shows "kb_wf s'"
proof (cases "buffer s ! 0 = 0")
  case False
  with assms have i: "0 < buffer_i s" by (simp add: kb_wf_head)
  have b: "length (buffer s) = 0xFF" "buffer_i s \<le> 0xFF" using assms(1) by (auto simp: kb_wf_def)
  have "s' = s\<lparr>buffer := tl (buffer s) @ [0], buffer_i := buffer_i s - 1\<rparr>"
    using False assms i b by (cases "buffer s") (auto simp: kb_read_def Let_def shift_down_eq kb_wf_def w32_simps)
  then show ?thesis using assms(1) i by (auto simp: kb_wf_def nth_append nth_tl)
qed (use assms in \<open>auto simp: kb_read_def\<close>)

text \<open>A key pressed between the test and \<^verbatim>\<open>cli\<close> leaves the head of the buffer alone.\<close>

lemma kb_handler_head:
  assumes "kb_wf s" and "buffer s ! 0 \<noteq> 0"
  shows "buffer (kb_handler oob k s) ! 0 = buffer s ! 0"
  using kb_wf_head [OF assms] by (auto simp: kb_handler_def kb_store_def)

lemma kb_wf_start: "buffer_i s = 0 \<Longrightarrow> kbio_mutex s = NULL \<Longrightarrow> kb_wf (snd (kb_start s))"
  by (simp add: kb_start_def kb_wf_def)

section \<open>Locations\<close>

text \<open>
  What holds at each statement, \<open>s\<close> being the state after the whole calls and interrupts so far: up to
  \<^verbatim>\<open>cli\<close> and after \<^verbatim>\<open>sti\<close> it is the state itself, between them the state the shift started from.
\<close>

definition kb_shifting :: "nat \<Rightarrow> kb \<Rightarrow> kb" where
  "kb_shifting i s = s\<lparr>buffer := fold (\<lambda>i b. b[i := (if i + 1 < length b then b ! (i + 1) else 0)]) [0..<i] ((buffer s)[0 := 0])\<rparr>"

definition kb_inside :: "kb \<Rightarrow> kb_cpu \<Rightarrow> bool" where
  "kb_inside s c \<longleftrightarrow>
     (case kb_at c of
        KbTest \<Rightarrow> interrupts_on c \<and> kb_vars c = s
      | KbEmpty \<Rightarrow> interrupts_on c \<and> kb_vars c = s
      | KbReturn x \<Rightarrow> interrupts_on c \<and> kb_vars c = s
      | KbCli \<Rightarrow> interrupts_on c \<and> kb_vars c = s \<and> buffer s ! 0 \<noteq> 0
      | KbLock \<Rightarrow> \<not> interrupts_on c \<and> kb_vars c = s \<and> buffer s ! 0 \<noteq> 0
      | KbTake \<Rightarrow> \<not> interrupts_on c \<and> kb_vars c = s \<and> buffer s ! 0 \<noteq> 0
      | pc \<Rightarrow> \<not> interrupts_on c \<and> buffer s ! 0 \<noteq> 0 \<and> kb_to_send c = buffer s ! 0 \<and>
          (case pc of
             KbShift i \<Rightarrow> i \<le> 0xFF \<and> kb_vars c = kb_shifting i s
           | KbDec \<Rightarrow> kb_vars c = kb_shifting 0xFF s
           | KbClear \<Rightarrow> kb_vars c = s
           | _ \<Rightarrow> kb_vars c = (kb_shifting 0xFF s)\<lparr>buffer_i := sub32 (buffer_i s) 1\<rparr>))"

text \<open>The bytes whose reading is complete but whose return is still to come.\<close>

definition kb_pending :: "kb_cpu \<Rightarrow> u8 list" where
  "kb_pending c = (case kb_at c of KbEmpty \<Rightarrow> [0] | KbReturn x \<Rightarrow> [x] | _ \<Rightarrow> [])"

lemma kb_read_shifting:
  assumes "buffer s ! 0 \<noteq> 0" and "kbio_mutex s = NULL"
  shows "kb_read 0 s = Some (buffer s ! 0, (kb_shifting 0xFF s)\<lparr>buffer_i := sub32 (buffer_i s) 1\<rparr>)"
  using assms by (simp add: kb_read_def kb_shifting_def shift_down_def Let_def)

lemma kb_read_nothing: "buffer s ! 0 = 0 \<Longrightarrow> kb_read 0 s = Some (0, s)"
  by (simp add: kb_read_def)

lemma kb_shifting_step:
  "(let t = kb_shifting i s in t\<lparr>buffer := (buffer t)[i := (if i + 1 < length (buffer t) then buffer t ! (i + 1) else 0)]\<rparr>) = kb_shifting (Suc i) s"
  by (simp add: kb_shifting_def Let_def)

lemma kb_shifting_sel [simp]: "buffer_i (kb_shifting i s) = buffer_i s" "kbio_mutex (kb_shifting i s) = kbio_mutex s"
  by (simp_all add: kb_shifting_def)


lemmas kb_locations = kb_next_def kb_inside_def kb_pending_def kb_returned_def

lemma kb_inside_statement:
  assumes "kb_inside s c" and "kb_wf s" and "kb_next 0 c = Some c'"
  shows "kb_pending c = kb_returned c @ kb_pending c' \<and> kb_inside s c' \<or>
    (\<exists>x s'. kb_pending c @ [x] = kb_returned c @ kb_pending c' \<and> kb_read 0 s = Some (x, s') \<and> kb_inside s' c')"
proof -
  have m: "kbio_mutex s = NULL" using assms(2) by (simp add: kb_wf_def)
  show ?thesis
  proof (cases "kb_at c")
    case KbTest
    then show ?thesis using assms kb_read_nothing [of s] by (cases "buffer s ! 0 = 0") (auto simp: kb_locations)
  next
    case KbSti
    have b: "buffer s ! 0 \<noteq> 0" using assms(1) KbSti by (simp add: kb_inside_def)
    show ?thesis using assms KbSti kb_read_shifting [OF b m] by (auto simp: kb_locations)
  next
    case (KbShift i)
    then show ?thesis using assms kb_shifting_step [of i s] by (auto simp: kb_locations Let_def le_less_Suc_eq split: if_splits)
  next
    case KbClear
    then show ?thesis using assms by (auto simp: kb_locations kb_shifting_def)
  next
    case KbLock
    then show ?thesis using assms m by (auto simp: kb_locations)
  qed (use assms in \<open>auto simp: kb_locations\<close>)
qed

lemma kb_inside_interrupt:
  assumes "kb_inside s c" and "kb_wf s" and "interrupts_on c"
  shows "kb_inside (kb_handler oob k s) (c\<lparr>kb_vars := kb_handler oob k (kb_vars c)\<rparr>)"
  using assms kb_handler_head [OF assms(2), of oob k] by (cases "kb_at c") (auto simp: kb_inside_def)

interpretation kb_reading: interruptible "kb_next 0" "kb_arrive oob" kb_returned kb_pending "kb_read 0"
  "\<lambda>k s. Some (kb_handler oob k s)" "\<lambda>s c. kb_wf s \<and> kb_inside s c" for oob
proof
  fix s c c'
  assume "kb_wf s \<and> kb_inside s c" "kb_next 0 c = Some c'"
  then show "kb_pending c = kb_returned c @ kb_pending c' \<and> kb_wf s \<and> kb_inside s c' \<or>
      (\<exists>x s'. kb_pending c @ [x] = kb_returned c @ kb_pending c' \<and> kb_read 0 s = Some (x, s') \<and> kb_wf s' \<and> kb_inside s' c')"
    using kb_inside_statement [of s c c'] kb_wf_read by blast
next
  fix s c k c'
  assume a: "kb_wf s \<and> kb_inside s c" "kb_arrive oob k c = Some c'"
  then have "interrupts_on c" "c' = c\<lparr>kb_vars := kb_handler oob k (kb_vars c)\<rparr>"
    by (auto simp: kb_arrive_def split: if_splits)
  with a kb_inside_interrupt [of s c oob k] kb_wf_handler
  show "kb_pending c' = kb_pending c \<and> (\<exists>s'. Some (kb_handler oob k s) = Some s' \<and> kb_wf s' \<and> kb_inside s' c')"
    by (simp add: kb_pending_def)
qed

lemma kb_run_inside:
  assumes "kb_run oob 0 c0 es c" and "kb_at c0 = KbTest" and "interrupts_on c0" and "kb_wf (kb_vars c0)"
  shows "\<exists>h s. intrs h = intrs es \<and> rets h = rets es @ kb_pending c \<and> kb_history oob 0 h (kb_vars c0) = Some s \<and> kb_wf s \<and> kb_inside s c"
  by (rule kb_reading.linear [OF assms(1) [unfolded kb_run_def]]) (use assms(2-4) in \<open>simp_all add: kb_inside_def kb_pending_def\<close>)

section \<open>A call that is not interrupted\<close>

lemma kb_run_start: "kb_run oob beyond c [] c"
  by (simp add: kb_run_def irun_start)

lemma kb_run_silent:
  "kb_run oob beyond c0 es c \<Longrightarrow> kb_next beyond c = Some c' \<Longrightarrow> kb_returned c = [] \<Longrightarrow> kb_run oob beyond c0 es c'"
  unfolding kb_run_def by (rule irun_silent)

lemma kb_run_return:
  "kb_run oob beyond c0 es c \<Longrightarrow> kb_next beyond c = Some c' \<Longrightarrow> kb_returned c = [x] \<Longrightarrow> kb_run oob beyond c0 (es @ [Ret x]) c'"
  unfolding kb_run_def by (drule (2) irun_next) simp

lemmas kb_statement = kb_next_def kb_returned_def

lemma kb_run_shift:
  assumes "kb_run oob 0 c0 es c" and "kb_at c = KbShift 0" and "kb_vars c = kb_shifting 0 s" and "n \<le> 0xFF"
  shows "kb_run oob 0 c0 es (c\<lparr>kb_vars := kb_shifting n s, kb_at := KbShift n\<rparr>)"
  using assms(4)
proof (induction n)
  case 0
  have "c\<lparr>kb_vars := kb_shifting 0 s, kb_at := KbShift 0\<rparr> = c" using assms(2,3) by simp
  then show ?case using assms(1) by simp
next
  case (Suc n)
  let ?c = "c\<lparr>kb_vars := kb_shifting n s, kb_at := KbShift n\<rparr>"
  have "kb_next 0 ?c = Some (c\<lparr>kb_vars := kb_shifting (Suc n) s, kb_at := KbShift (Suc n)\<rparr>)"
    using Suc.prems kb_shifting_step [of n s] by (simp add: kb_next_def Let_def)
  from kb_run_silent [OF Suc.IH this] Suc.prems show ?case by (simp add: kb_returned_def)
qed

lemma kb_run_read_empty:
  assumes "kb_at c = KbTest" and "buffer (kb_vars c) ! 0 = 0"
  shows "kb_run oob 0 c [Ret 0] c"
proof -
  have "kb_run oob 0 c [] (c\<lparr>kb_at := KbEmpty\<rparr>)"
    by (rule kb_run_silent [OF kb_run_start]) (use assms in \<open>simp_all add: kb_statement Let_def\<close>)
  then have "kb_run oob 0 c [] (c\<lparr>kb_at := KbReturn 0\<rparr>)"
    by (rule kb_run_silent) (simp_all add: kb_statement Let_def)
  then have r: "kb_run oob 0 c [Ret 0] (c\<lparr>kb_at := KbTest\<rparr>)"
    by (rule kb_run_return [where es = "[]", simplified]) (simp_all add: kb_statement Let_def)
  have eq: "c\<lparr>kb_at := KbTest\<rparr> = c" using assms(1) by simp
  show ?thesis using r [unfolded eq] .
qed

lemma kb_run_read_char:
  assumes "kb_at c = KbTest" and "interrupts_on c" and "kb_vars c = s" and b: "buffer s ! 0 \<noteq> 0" "kbio_mutex s = NULL"
    and x: "x = buffer s ! 0" "s' = (kb_shifting 0xFF s)\<lparr>buffer_i := sub32 (buffer_i s) 1\<rparr>"
  shows "kb_run oob 0 c [Ret x] (c\<lparr>kb_vars := s', kb_to_send := x\<rparr>)"
proof -
  have "kb_run oob 0 c [] (c\<lparr>kb_at := KbCli\<rparr>)"
    by (rule kb_run_silent [OF kb_run_start]) (use assms b in \<open>simp_all add: kb_statement Let_def assms(3)\<close>)
  then have "kb_run oob 0 c [] (c\<lparr>kb_at := KbLock, interrupts_on := False\<rparr>)"
    by (rule kb_run_silent) (simp_all add: kb_statement Let_def)
  then have "kb_run oob 0 c [] (c\<lparr>kb_at := KbTake, interrupts_on := False\<rparr>)"
    by (rule kb_run_silent) (use b in \<open>simp_all add: kb_statement Let_def assms(3)\<close>)
  then have "kb_run oob 0 c [] (c\<lparr>kb_at := KbClear, interrupts_on := False, kb_to_send := x\<rparr>)"
    by (rule kb_run_silent) (use x in \<open>simp_all add: kb_statement Let_def assms(3)\<close>)
  then have "kb_run oob 0 c [] (c\<lparr>interrupts_on := False, kb_to_send := x, kb_vars := kb_shifting 0 s, kb_at := KbShift 0\<rparr>)"
    by (rule kb_run_silent) (simp_all add: kb_statement Let_def assms(3) kb_shifting_def)
  from kb_run_shift [OF this, where s = s and n = "0xFF"]
  have "kb_run oob 0 c [] (c\<lparr>interrupts_on := False, kb_to_send := x, kb_vars := kb_shifting 0xFF s, kb_at := KbShift 0xFF\<rparr>)"
    by simp
  then have "kb_run oob 0 c [] (c\<lparr>kb_vars := kb_shifting 0xFF s, kb_at := KbDec, interrupts_on := False, kb_to_send := x\<rparr>)"
    by (rule kb_run_silent) (simp_all add: kb_statement Let_def)
  then have "kb_run oob 0 c [] (c\<lparr>kb_vars := s', kb_at := KbUnlock, interrupts_on := False, kb_to_send := x\<rparr>)"
    by (rule kb_run_silent) (use x in \<open>simp_all add: kb_statement Let_def\<close>)
  then have "kb_run oob 0 c [] (c\<lparr>kb_vars := s', kb_at := KbSti, interrupts_on := False, kb_to_send := x\<rparr>)"
    by (rule kb_run_silent) (simp_all add: kb_statement Let_def)
  then have "kb_run oob 0 c [] (c\<lparr>kb_vars := s', kb_at := KbReturn x, kb_to_send := x\<rparr>)"
    by (rule kb_run_silent) (use assms(2) in \<open>simp_all add: kb_statement Let_def\<close>)
  then have r: "kb_run oob 0 c [Ret x] (c\<lparr>kb_vars := s', kb_at := KbTest, kb_to_send := x\<rparr>)"
    by (rule kb_run_return [where es = "[]", simplified]) (simp_all add: kb_statement Let_def)
  have eq: "c\<lparr>kb_vars := s', kb_at := KbTest, kb_to_send := x\<rparr> = c\<lparr>kb_vars := s', kb_to_send := x\<rparr>" using assms(1) by simp
  show ?thesis using r [unfolded eq] .
qed

lemma kb_run_read:
  assumes "kb_at c = KbTest" and "interrupts_on c" and "kb_read 0 (kb_vars c) = Some (x, s')" and "kbio_mutex (kb_vars c) = NULL"
  shows "\<exists>t. kb_run oob 0 c [Ret x] (c\<lparr>kb_vars := s', kb_to_send := t\<rparr>)"
proof (cases "buffer (kb_vars c) ! 0 = 0")
  case True
  have eq: "c = c\<lparr>kb_vars := s', kb_to_send := kb_to_send c\<rparr>" "x = 0" using True assms(3) by (simp_all add: kb_read_nothing)
  show ?thesis using kb_run_read_empty [OF assms(1) True, of oob] eq by metis
next
  case False
  then show ?thesis using kb_run_read_char [OF assms(1,2) refl] kb_read_shifting [OF False] assms(3,4) by auto
qed

lemma kb_run_drain:
  assumes "kb_at c = KbTest" and "interrupts_on c" and "holds cs (buffer (kb_vars c)) (buffer_i (kb_vars c))" and "kbio_mutex (kb_vars c) = NULL"
  shows "\<exists>c'. kb_run oob 0 c (map Ret (cs @ [0])) c'"
  using assms
proof (induction cs arbitrary: c)
  case Nil
  then have "kb_read 0 (kb_vars c) = Some (0, kb_vars c)" using keyboard.get_empty by blast
  from kb_run_read [OF Nil.prems(1,2) this Nil.prems(4)] show ?case by auto
next
  case (Cons x cs)
  then obtain s' where s': "kb_read 0 (kb_vars c) = Some (x, s')" "holds cs (buffer s') (buffer_i s')" "kbio_mutex s' = NULL"
    using keyboard.get_ok [of x cs "kb_vars c"] by auto
  from kb_run_read [OF Cons.prems(1,2) s'(1) Cons.prems(4)] obtain t where
    r: "kb_run oob 0 c [Ret x] (c\<lparr>kb_vars := s', kb_to_send := t\<rparr>)" by blast
  from Cons.IH [of "c\<lparr>kb_vars := s', kb_to_send := t\<rparr>"] s' Cons.prems obtain c' where
    "kb_run oob 0 (c\<lparr>kb_vars := s', kb_to_send := t\<rparr>) (map Ret (cs @ [0])) c'" by auto
  from irun_trans [OF this [unfolded kb_run_def] r [unfolded kb_run_def]] show ?case by (auto simp: kb_run_def)
qed

section \<open>Properties\<close>

text \<open>
  Property C7. Reading the keyboard is atomic although only part of it is protected: whatever keys arrive
  between whichever statements of whichever calls, the keys handled, the bytes returned and the state
  reached are those of a sequence of whole calls and whole interrupts. The byte behind the buffer, which the
  shift copies into its last entry, is taken to be zero.
\<close>

theorem kb_read_atomic:
  assumes "kb_run oob 0 c es c'" and "kb_at c = KbTest" and "interrupts_on c" and "kb_wf (kb_vars c)" and "kb_at c' = KbTest"
  shows "\<exists>h. intrs h = intrs es \<and> rets h = rets es \<and> kb_history oob 0 h (kb_vars c) = Some (kb_vars c') \<and> kb_wf (kb_vars c')"
proof -
  from kb_run_inside [OF assms(1-4)] obtain h s where
    "intrs h = intrs es" "rets h = rets es @ kb_pending c'" "kb_history oob 0 h (kb_vars c) = Some s" "kb_wf s" "kb_inside s c'"
    by blast
  with assms(5) show ?thesis by (auto simp: kb_pending_def kb_inside_def)
qed

lemma holds_wf: "holds cs (buffer s) (buffer_i s) \<Longrightarrow> kbio_mutex s = NULL \<Longrightarrow> kb_wf s"
  by (auto simp: holds_def kb_wf_def nth_append)

lemma kb_read_flags: "kb_read b s = Some (x, s1) \<Longrightarrow> kb_extended s1 = kb_extended s \<and> layout s1 = layout s"
  by (auto simp: kb_read_def Let_def layout_def split: if_splits Option.bind_splits)

text \<open>A history of plain keys and reads is a first in, first out queue.\<close>

lemma kb_history_fifo:
  assumes "kb_history oob 0 h s = Some s'" and "holds cs (buffer s) (buffer_i s)" and "kbio_mutex s = NULL"
    and "\<not> kb_extended s" and "list_all (\<lambda>k. k < 0x80 \<and> k \<noteq> 0x2A \<and> layout s ! unat k \<noteq> 0) (intrs h)"
    and "length cs + length (intrs h) \<le> 0xFF"
  shows "\<exists>rest. holds rest (buffer s') (buffer_i s') \<and>
    filter (\<lambda>x. x \<noteq> 0) (rets h) @ rest = cs @ map (\<lambda>k. layout s ! unat k) (intrs h)"
  using assms
proof (induction h arbitrary: s cs)
  case (Cons e h)
  note IH = Cons.IH and prems = Cons.prems
  show ?case
  proof (cases e)
    case (Intr k)
    let ?s = "kb_store (layout s ! unat k) s"
    have k: "kb_handler oob k s = ?s" using prems Intr by (intro kb_handler_key) auto
    have "holds (cs @ [layout s ! unat k]) (buffer ?s) (buffer_i ?s)" "kbio_mutex ?s = NULL"
      using keyboard.put_ok [of cs s "layout s ! unat k"] prems Intr by auto
    with IH [of ?s "cs @ [layout s ! unat k]"] prems Intr k show ?thesis by auto
  next
    case (Ret x)
    show ?thesis
    proof (cases cs)
      case Nil
      then have "kb_read 0 s = Some (0, s)" using keyboard.get_empty prems by blast
      with IH [of s "[]"] prems Ret Nil show ?thesis by (auto split: if_splits)
    next
      case (Cons d ds)
      then obtain s1 where s1: "kb_read 0 s = Some (d, s1)" "holds ds (buffer s1) (buffer_i s1)" "kbio_mutex s1 = NULL"
        using keyboard.get_ok [of d ds s] prems by auto
      have x: "x = d" "d \<noteq> 0" "kb_history oob 0 h s1 = Some s'"
        using prems(1,2) s1(1) Ret Cons by (auto simp: holds_def split: if_splits)
      with IH [of s1 ds] prems s1 kb_read_flags [OF s1(1)] Ret Cons show ?thesis by auto
    qed
  qed
qed simp

text \<open>
  Property C25. What is typed is what is read, whenever the interrupts come between the statements of \<^verbatim>\<open>kb_read\<close>: the
  bytes it has returned, up to its zeros for an empty buffer, are the first of the characters \<open>cs\<close> in the buffer at the start and those
  typed since, and polling on returns exactly the others and then reports an empty buffer. The keys are those with a character:
  press codes below \<open>0x80\<close> other than the shift key whose entry in the layout is not zero (a key with the entry zero blocks the
  queue, \<open>keyboard_blocked_by_dead_key\<close>), and no extended code is pending. Together with \<open>cs\<close> they are at most the 255 the
  buffer has room for, and the byte behind the buffer, which the shift reads, is zero, as the padding of the array is.
\<close>

theorem keyboard_interleaved_fifo:
  assumes "kb_run oob 0 c es c'" and "kb_at c = KbTest" and "interrupts_on c" and "kb_at c' = KbTest"
    and "holds cs (buffer (kb_vars c)) (buffer_i (kb_vars c))" and "kbio_mutex (kb_vars c) = NULL" and "\<not> kb_extended (kb_vars c)"
    and "list_all (\<lambda>k. k < 0x80 \<and> k \<noteq> 0x2A \<and> layout (kb_vars c) ! unat k \<noteq> 0) (intrs es)" and "length cs + length (intrs es) \<le> 0xFF"
  shows "\<exists>rest c''. filter (\<lambda>x. x \<noteq> 0) (rets es) @ rest = cs @ map (\<lambda>k. layout (kb_vars c) ! unat k) (intrs es) \<and>
    kb_run oob 0 c' (map Ret (rest @ [0])) c''"
proof -
  from kb_run_inside [OF assms(1-3) holds_wf [OF assms(5,6)]] assms(4) obtain h where h: "intrs h = intrs es" "rets h = rets es"
    "kb_history oob 0 h (kb_vars c) = Some (kb_vars c')" "kb_wf (kb_vars c')" "interrupts_on c'"
    by (auto simp: kb_pending_def kb_inside_def)
  from kb_history_fifo [OF h(3) assms(5-7)] assms(8,9) h(1,2) obtain rest where rest: "holds rest (buffer (kb_vars c')) (buffer_i (kb_vars c'))"
    "filter (\<lambda>x. x \<noteq> 0) (rets es) @ rest = cs @ map (\<lambda>k. layout (kb_vars c) ! unat k) (intrs es)"
    by auto
  from kb_run_drain [OF assms(4) h(5) rest(1)] h(4) rest(2) show ?thesis by (auto simp: kb_wf_def)
qed

text \<open>A run for the witnesses: a key is pressed inside a call that has already found the buffer empty.\<close>

definition late_key :: kb_cpu where
  "late_key = \<lparr>kb_vars = \<lparr>buffer = replicate 0xFF 0, buffer_i = 0, kb_shift = False, kb_caps = False, kb_alt = False,
     kb_ctl = False, kb_extended = False, kbio_mutex = 0, irq1_handler = True\<rparr>, interrupts_on = True, kb_at = KbTest, kb_to_send = 0\<rparr>"

lemma late_key_run:
  "kb_run oob 0 late_key [Intr 0x23, Ret 0] (late_key\<lparr>kb_vars := kb_handler oob 0x23 (kb_vars late_key)\<rparr>)"
proof -
  let ?k = "\<lambda>c. c\<lparr>kb_vars := kb_handler oob 0x23 (kb_vars c)\<rparr>"
  have "kb_run oob 0 late_key [] (late_key\<lparr>kb_at := KbEmpty\<rparr>)"
    by (rule kb_run_silent [OF kb_run_start]) (simp_all add: kb_statement Let_def late_key_def)
  from irun_interrupt [OF this [unfolded kb_run_def], of "0x23"]
  have "kb_run oob 0 late_key [Intr 0x23] (?k (late_key\<lparr>kb_at := KbEmpty\<rparr>))" by (simp add: kb_run_def kb_arrive_def late_key_def)
  then have "kb_run oob 0 late_key [Intr 0x23] (?k (late_key\<lparr>kb_at := KbReturn 0\<rparr>))"
    by (rule kb_run_silent) (simp_all add: kb_statement Let_def)
  then have "kb_run oob 0 late_key ([Intr 0x23] @ [Ret 0]) (?k (late_key\<lparr>kb_at := KbTest\<rparr>))"
    by (rule kb_run_return) (simp_all add: kb_statement Let_def)
  then show ?thesis by (simp add: late_key_def)
qed

lemma late_key_facts:
  "kb_at late_key = KbTest" "interrupts_on late_key" "holds [] (buffer (kb_vars late_key)) (buffer_i (kb_vars late_key))"
  "kbio_mutex (kb_vars late_key) = NULL" "\<not> kb_extended (kb_vars late_key)" "layout (kb_vars late_key) = kbdus" "kbdus ! 35 = 104"
  by (simp_all add: late_key_def holds_def layout_def) code_simp

theorem kb_read_atomic_witness:
  "\<exists>h. intrs h = [0x23] \<and> rets h = [0] \<and>
     kb_history (\<lambda>_. 0) 0 h (kb_vars late_key) = Some (kb_handler (\<lambda>_. 0) 0x23 (kb_vars late_key))"
  using kb_read_atomic [OF late_key_run [of "\<lambda>_. 0"] late_key_facts(1,2) holds_wf [OF late_key_facts(3,4)]] late_key_facts(1)
  by simp blast

theorem keyboard_interleaved_fifo_witness:
  "\<exists>c''. kb_run (\<lambda>_. 0) 0 (late_key\<lparr>kb_vars := kb_handler (\<lambda>_. 0) 0x23 (kb_vars late_key)\<rparr>) (map Ret [104, 0]) c''"
  using keyboard_interleaved_fifo [OF late_key_run [of "\<lambda>_. 0"] late_key_facts(1,2) _ late_key_facts(3-5)] late_key_facts
  by simp

end
