(* ===== verification/Printf_Fields.thy ===== *)
theory Printf_Fields
  imports Printf
begin

text \<open>
  What a format string means. A format is read as a list of directives: a plain character, a percent
  sign, or a field with its flags, width, modifiers and conversion. \<open>render\<close> says what a directive prints, without
  reference to the scanner, and the theorem of this theory is that \<^verbatim>\<open>do_printf\<close> prints it.
\<close>

section \<open>Directives\<close>

datatype pconv = ConvX | Convx | Convp | Convn | Convd | Convi | Convu | Convo | Convc | Convs

datatype pmod = ModF | ModN | Modl | Modh

datatype directive = Lit u8 | Percent | Field bool bool nat "pmod list" pconv

fun conv_char :: "pconv \<Rightarrow> u8" where
  "conv_char ConvX = 88"
| "conv_char Convx = 120"
| "conv_char Convp = 112"
| "conv_char Convn = 110"
| "conv_char Convd = 100"
| "conv_char Convi = 105"
| "conv_char Convu = 117"
| "conv_char Convo = 111"
| "conv_char Convc = 99"
| "conv_char Convs = 115"

fun mod_char :: "pmod \<Rightarrow> u8" where
  "mod_char ModF = 70"
| "mod_char ModN = 78"
| "mod_char Modl = 108"
| "mod_char Modh = 104"

text \<open>The text of a directive; a width of zero is not written. Widths are below \<open>2\<^sup>3\<^sup>2\<close>.\<close>

fun unparse1 :: "directive \<Rightarrow> cstring" where
  "unparse1 (Lit c) = [c]"
| "unparse1 Percent = [37, 37]"
| "unparse1 (Field l z w ms cv) =
     37 # (if l then [45] else []) @ (if z then [48] else []) @ (if w = 0 then [] else show_radix False Dec w) @
     map mod_char ms @ [conv_char cv]"

definition unparse :: "directive list \<Rightarrow> cstring" where
  "unparse ds = concat (map unparse1 ds)"

fun wf_directive :: "directive \<Rightarrow> bool" where
  "wf_directive (Lit c) = (c \<noteq> 0 \<and> c \<noteq> 37)"
| "wf_directive Percent = True"
| "wf_directive (Field l z w ms cv) = (w < 2 ^ 32)"

section \<open>Meaning\<close>

text \<open>
  Text in a field: on the left with spaces behind, on the right with zeros between sign and text, or on the
  right with spaces in front of the sign.
\<close>

definition justify :: "bool \<Rightarrow> bool \<Rightarrow> nat \<Rightarrow> bool \<Rightarrow> u8 list \<Rightarrow> u8 list" where
  "justify l z w neg body =
     (let sign = (if neg then [45] else []); n = w - (length sign + length body)
      in if l then sign @ body @ replicate n 32
         else if z then sign @ replicate n 48 @ body
         else replicate n 32 @ sign @ body)"

text \<open>The sign and the text of an argument; characters and strings are never padded with zeros.\<close>

fun meaning :: "pconv \<Rightarrow> parg \<Rightarrow> (bool \<times> u8 list) option" where
  "meaning Convd (Num x) = Some (sint x < 0, show_radix False Dec (nat \<bar>sint x\<bar>))"
| "meaning Convi (Num x) = Some (sint x < 0, show_radix False Dec (nat \<bar>sint x\<bar>))"
| "meaning Convu (Num x) = Some (False, show_radix False Dec (unat x))"
| "meaning Convo (Num x) = Some (False, show_radix False Oct (unat x))"
| "meaning ConvX (Num x) = Some (False, show_radix True Hex (unat x))"
| "meaning Convx (Num x) = Some (False, show_radix False Hex (unat x))"
| "meaning Convp (Num x) = Some (False, show_radix False Hex (unat x))"
| "meaning Convn (Num x) = Some (False, show_radix False Hex (unat x))"
| "meaning Convc (Num x) = (if ucast x = (0 :: u8) then None else Some (False, [ucast x]))"
| "meaning Convs (Ptr s) = (if 0 \<in> set s then None else Some (False, s))"
| "meaning _ _ = None"

fun render :: "directive list \<Rightarrow> parg list \<Rightarrow> u8 list option" where
  "render [] args = Some []"
| "render (Lit c # ds) args = map_option (\<lambda>out. c # out) (render ds args)"
| "render (Percent # ds) args = map_option (\<lambda>out. 37 # out) (render ds args)"
| "render (Field l z w ms cv # ds) (a # args) = do {
     (neg, body) \<leftarrow> meaning cv a;
     out \<leftarrow> render ds args;
     Some (justify l (z \<and> cv \<noteq> Convc \<and> cv \<noteq> Convs) w neg body @ out)
   }"
| "render (Field l z w ms cv # ds) [] = None"

section \<open>The scanner, state by state\<close>

lemmas pf_states = pf_step_def state1_def state2_def state3_def

lemma pf_percent:
  "pf_loop (37 # 37 # fs) pstate0 args = map_option (\<lambda>out. 37 # out) (pf_loop fs pstate0 args)"
proof -
  have "pf_step 37 (37 # fs) pstate0 args = Some ([37], fs, pstate0, args)"
    by (simp add: pf_step_def state1_def pstate0_def)
  from pf_loop_step [OF this] show ?thesis by simp
qed

text \<open>Each lemma moves one character further or one state on.\<close>

lemma pf_silent:
  "pf_step c fs st args = Some ([], fs', st', args') \<Longrightarrow> pf_loop (c # fs) st args = pf_loop fs' st' args'"
  by (simp add: pf_loop_step option.map_ident)

lemma pf_same_step:
  "pf_step c fs st args = pf_step d gs st' args \<Longrightarrow> pf_loop (c # fs) st args = pf_loop (d # gs) st' args"
  by (subst (1 2) pf_loop.simps) simp

lemma pf_loop_flag_left:
  "pf_loop (37 # 45 # fs) pstate0 args = pf_loop fs (pstate0\<lparr>p_state := 1, p_lj := True\<rparr>) args"
  by (rule pf_silent) (simp add: pf_states pstate0_def)

lemma pf_loop_begin:
  "d \<notin> {37, 45} \<Longrightarrow> pf_loop (37 # d # fs) pstate0 args = pf_loop (d # fs) (pstate0\<lparr>p_state := 1\<rparr>) args"
  by (rule pf_same_step) (simp add: pf_step_def pstate0_def)

lemma pf_loop_flag_zero:
  "p_state st = 1 \<Longrightarrow> pf_loop (48 # d # fs) st args = pf_loop (d # fs) (st\<lparr>p_state := 2, p_lz := True\<rparr>) args"
  by (rule pf_same_step) (simp add: pf_step_def state1_def)

lemma pf_loop_flags_end:
  "p_state st = 1 \<Longrightarrow> c \<notin> {37, 45, 48} \<Longrightarrow> pf_loop (c # fs) st args = pf_loop (c # fs) (st\<lparr>p_state := 2\<rparr>) args"
  by (rule pf_same_step) (simp add: pf_step_def state1_def)

lemma pf_loop_digit:
  "p_state st = 2 \<Longrightarrow> 48 \<le> c \<Longrightarrow> c \<le> 57 \<Longrightarrow>
   pf_loop (c # fs) st args = pf_loop fs (st\<lparr>p_wd := w32 (10 * p_wd st + unat (c - 48))\<rparr>) args"
  by (rule pf_silent) (simp add: pf_step_def state2_def)

lemma pf_loop_width_end:
  "p_state st = 2 \<Longrightarrow> \<not> (48 \<le> c \<and> c \<le> 57) \<Longrightarrow> pf_loop (c # fs) st args = pf_loop (c # fs) (st\<lparr>p_state := 3\<rparr>) args"
  by (rule pf_same_step) (auto simp: pf_step_def state2_def)

fun with_modifier :: "pmod \<Rightarrow> pstate \<Rightarrow> pstate" where
  "with_modifier ModF st = st\<lparr>p_fp := True\<rparr>"
| "with_modifier ModN st = st"
| "with_modifier Modl st = st\<lparr>p_32 := True\<rparr>"
| "with_modifier Modh st = st\<lparr>p_16 := True\<rparr>"

lemma with_modifier_sel [simp]:
  "p_state (with_modifier m st) = p_state st" "p_lj (with_modifier m st) = p_lj st" "p_lz (with_modifier m st) = p_lz st"
  "p_wd (with_modifier m st) = p_wd st" "p_ws (with_modifier m st) = p_ws st" "p_ca (with_modifier m st) = p_ca st"
  "p_sg (with_modifier m st) = p_sg st"
  by (cases m; simp)+

lemma pf_loop_modifier:
  "p_state st = 3 \<Longrightarrow> pf_loop (mod_char m # fs) st args = pf_loop fs (with_modifier m st) args"
  by (rule pf_silent) (cases m; simp add: pf_step_def state3_def)

lemma pf_loop_modifiers_end:
  "p_state st = 3 \<Longrightarrow> c \<notin> {70, 78, 108, 104} \<Longrightarrow> pf_loop (c # fs) st args = pf_loop (c # fs) (st\<lparr>p_state := 4\<rparr>) args"
  by (rule pf_same_step) (simp add: pf_step_def state3_def)

lemma pf_loop_conversion:
  "p_state st = 4 \<Longrightarrow> conversion c st args = Some (out, args') \<Longrightarrow>
   pf_loop (c # fs) st args = map_option (\<lambda>rest. out @ rest) (pf_loop fs pstate0 args')"
  by (rule pf_loop_step) (simp add: pf_step_def state4_def)


section \<open>Runs of one kind of character\<close>

lemma pf_loop_modifiers:
  "p_state st = 3 \<Longrightarrow> pf_loop (map mod_char ms @ fs) st args = pf_loop fs (fold with_modifier ms st) args"
  by (induction ms arbitrary: st) (simp_all add: pf_loop_modifier)

lemma fold_modifier_sel [simp]:
  "p_state (fold with_modifier ms st) = p_state st" "p_lj (fold with_modifier ms st) = p_lj st"
  "p_lz (fold with_modifier ms st) = p_lz st" "p_wd (fold with_modifier ms st) = p_wd st"
  "p_ws (fold with_modifier ms st) = p_ws st" "p_ca (fold with_modifier ms st) = p_ca st" "p_sg (fold with_modifier ms st) = p_sg st"
  by (induction ms arbitrary: st) simp_all

lemma decimal_grows: "v \<le> foldl (\<lambda>v c. v * 10 + digit_val c) v ds"
proof (induction ds arbitrary: v)
  case (Cons d ds)
  show ?case using Cons.IH [of "v * 10 + digit_val d"] by simp
qed simp

lemma pf_loop_digits:
  assumes "p_state st = 2" and "list_all (\<lambda>c. 48 \<le> c \<and> c \<le> 57) ds"
    and "foldl (\<lambda>v c. v * 10 + digit_val c) (p_wd st) ds < 2 ^ 32"
  shows "pf_loop (ds @ fs) st args = pf_loop fs (st\<lparr>p_wd := foldl (\<lambda>v c. v * 10 + digit_val c) (p_wd st) ds\<rparr>) args"
  using assms
proof (induction ds arbitrary: st)
  case (Cons d ds)
  have v: "unat (d - 48) = digit_val d" using Cons.prems(2) by (simp add: digit_val_def unat_sub)
  have "p_wd st * 10 + digit_val d < 2 ^ 32"
    using Cons.prems(3) decimal_grows [of "p_wd st * 10 + digit_val d" ds] by simp
  then have "pf_loop (d # ds @ fs) st args = pf_loop (ds @ fs) (st\<lparr>p_wd := p_wd st * 10 + digit_val d\<rparr>) args"
    using Cons.prems(1,2) by (simp add: pf_loop_digit v w32_simps mult.commute)
  with Cons.IH [of "st\<lparr>p_wd := p_wd st * 10 + digit_val d\<rparr>"] Cons.prems show ?case by simp
qed simp

lemma show_decimal_digits: "list_all (\<lambda>c. 48 \<le> c \<and> c \<le> 57) (show_radix False Dec n)"
proof (induction n rule: less_induct)
  case (less n)
  have d: "list_all (\<lambda>k. 48 \<le> digit_char False k \<and> digit_char False k \<le> 57) [0..<10]" by code_simp
  have "48 \<le> digit_char False k \<and> digit_char False k \<le> 57" if "k < 10" for k using d that by (simp add: list_all_iff)
  with less show ?case by (simp add: show_radix.simps [of False Dec n])
qed

lemma show_decimal_head: "n \<noteq> 0 \<Longrightarrow> hd (show_radix False Dec n) \<noteq> 48 \<and> show_radix False Dec n \<noteq> []"
proof (induction n rule: less_induct)
  case (less n)
  have d: "list_all (\<lambda>k. digit_char False k \<noteq> 48) [1..<10]" by code_simp
  have "digit_char False n \<noteq> 48" if "n < 10" using d that less.prems by (simp add: list_all_iff)
  moreover have "hd (show_radix False Dec (n div 10)) \<noteq> 48 \<and> show_radix False Dec (n div 10) \<noteq> []" if "10 \<le> n"
    using that by (intro less.IH) auto
  ultimately show ?case by (simp add: show_radix.simps [of False Dec n])
qed

lemma read_decimal: "foldl (\<lambda>v c. v * 10 + digit_val c) 0 (show_radix False Dec n) = n"
  using read_show_radix [of Dec False n] by (simp add: read_radix_def)

section \<open>Conversions\<close>

lemma emit_justify:
  assumes "0 \<notin> set body"
  shows "emit st body = justify (p_lj st) (p_lz st) (p_wd st) (p_ws st) body"
  using takeWhile_nonzero [OF assms] by (auto simp: emit_def emit2_def justify_def Let_def simp del: takeWhile_eq_all_conv)

lemma emit2_char: "x \<noteq> 0 \<Longrightarrow> \<not> p_ws st \<Longrightarrow> \<not> p_lz st \<Longrightarrow> emit2 st 1 [x] = justify (p_lj st) False (p_wd st) False [x]"
  by (auto simp: emit2_def justify_def Let_def)

lemma do_num_justify:
  assumes "\<not> p_ws st"
  shows "do_num r st (Num x # args) =
    Some (justify (p_lj st) (p_lz st) (p_wd st) (p_sg st \<and> sint x < 0)
      (show_radix (p_ca st) r (if p_sg st \<and> sint x < 0 then nat (- sint x) else unat x)), args)"
  using assms emit_justify [OF num_digits_nonzero] by (auto simp: do_num_def num_digits_show unat_uminus)

lemma conversion_meaning:
  assumes "meaning cv a = Some (neg, body)" and "\<not> p_ws st" and "\<not> p_ca st" and "\<not> p_sg st"
  shows "conversion (conv_char cv) st (a # args) =
    Some (justify (p_lj st) (p_lz st \<and> cv \<noteq> Convc \<and> cv \<noteq> Convs) (p_wd st) neg body, args)"
proof (cases a)
  case (Num x)
  then show ?thesis
    using assms do_num_justify [of st] do_num_justify [of "st\<lparr>p_ca := True\<rparr>"] do_num_justify [of "st\<lparr>p_sg := True\<rparr>"]
      unat_sint_nonneg [of x] emit2_char [of "ucast x" "st\<lparr>p_lz := False\<rparr>"]
    by (cases cv) (auto simp: conversion_def split: if_splits)
next
  case (Ptr w)
  then show ?thesis using assms emit_justify [of w "st\<lparr>p_lz := False\<rparr>"] by (cases cv) (auto simp: conversion_def split: if_splits)
qed

lemma conv_char_range: "conv_char cv \<notin> {37, 45, 48, 70, 78, 108, 104}" "\<not> (48 \<le> conv_char cv \<and> conv_char cv \<le> 57)"
  by (cases cv; simp)+

lemma mod_char_range: "mod_char m \<notin> {37, 45, 48}" "\<not> (48 \<le> mod_char m \<and> mod_char m \<le> 57)"
  by (cases m; simp)+

section \<open>A whole field\<close>

lemma pf_loop_after_width:
  assumes "p_state st = 2" and "\<not> p_ws st" and "\<not> p_ca st" and "\<not> p_sg st" and "meaning cv a = Some (neg, body)"
  shows "pf_loop (map mod_char ms @ conv_char cv # fs) st (a # args) =
    map_option (\<lambda>rest. justify (p_lj st) (p_lz st \<and> cv \<noteq> Convc \<and> cv \<noteq> Convs) (p_wd st) neg body @ rest) (pf_loop fs pstate0 args)"
proof -
  let ?st = "fold with_modifier ms (st\<lparr>p_state := 3\<rparr>)"
  have "pf_loop (map mod_char ms @ conv_char cv # fs) st (a # args) = pf_loop (map mod_char ms @ conv_char cv # fs) (st\<lparr>p_state := 3\<rparr>) (a # args)"
    using assms(1) by (cases ms) (simp_all add: pf_loop_width_end conv_char_range mod_char_range del: not_less)
  also have "\<dots> = pf_loop (conv_char cv # fs) ?st (a # args)" by (simp add: pf_loop_modifiers)
  also have "\<dots> = pf_loop (conv_char cv # fs) (?st\<lparr>p_state := 4\<rparr>) (a # args)"
    using conv_char_range(1) [of cv] by (intro pf_loop_modifiers_end) auto
  also have "\<dots> = map_option (\<lambda>rest. justify (p_lj st) (p_lz st \<and> cv \<noteq> Convc \<and> cv \<noteq> Convs) (p_wd st) neg body @ rest) (pf_loop fs pstate0 args)"
    using conversion_meaning [OF assms(5), of "?st\<lparr>p_state := 4\<rparr>" args] assms(2-4) by (intro pf_loop_conversion) simp_all
  finally show ?thesis .
qed

lemma pf_loop_width:
  assumes "p_state st = 2" and "p_wd st = 0" and "w < 2 ^ 32"
  shows "pf_loop ((if w = 0 then [] else show_radix False Dec w) @ fs) st args = pf_loop fs (st\<lparr>p_wd := w\<rparr>) args"
proof (cases "w = 0")
  case True
  then have "st\<lparr>p_wd := w\<rparr> = st" using assms(2) by simp
  with True show ?thesis by simp
next
  case False
  then show ?thesis
    using pf_loop_digits [OF assms(1) show_decimal_digits [of w], of fs args] assms(2,3) read_decimal [of w] by simp
qed


lemma pf_loop_flags:
  assumes "d \<notin> {37, 45, 48}"
  shows "pf_loop (37 # (if l then [45] else []) @ (if z then [48] else []) @ d # fs) pstate0 args =
    pf_loop (d # fs) (pstate0\<lparr>p_state := 2, p_lj := l, p_lz := z\<rparr>) args"
proof -
  have "pf_loop (37 # (if l then [45] else []) @ (if z then [48] else []) @ d # fs) pstate0 args =
      pf_loop ((if z then [48] else []) @ d # fs) (pstate0\<lparr>p_state := 1, p_lj := l\<rparr>) args"
    using assms by (auto simp: pf_loop_flag_left pf_loop_begin) (simp add: pstate0_def)+
  also have "\<dots> = pf_loop (d # fs) (pstate0\<lparr>p_state := 2, p_lj := l, p_lz := z\<rparr>) args"
    using assms by (auto simp: pf_loop_flag_zero pf_loop_flags_end) (simp add: pstate0_def)+
  finally show ?thesis .
qed

lemma field_head:
  obtains d ds where "(if w = 0 then [] else show_radix False Dec w) @ map mod_char ms @ conv_char cv # fs = d # ds" and "d \<notin> {37, 45, 48}"
proof (cases "w = 0")
  case True
  then show ?thesis using that conv_char_range(1) [of cv] mod_char_range(1) by (cases ms) auto
next
  case False
  then obtain e es where e: "show_radix False Dec w = e # es" using show_decimal_head [of w] by (cases "show_radix False Dec w") auto
  then have "e \<notin> {37, 45, 48}" using show_decimal_head [OF False] show_decimal_digits [of w] by auto
  with that e False show ?thesis by simp
qed

lemma pf_loop_field:
  assumes "meaning cv a = Some (neg, body)" and "w < 2 ^ 32"
  shows "pf_loop (unparse1 (Field l z w ms cv) @ fs) pstate0 (a # args) =
    map_option (\<lambda>rest. justify l (z \<and> cv \<noteq> Convc \<and> cv \<noteq> Convs) w neg body @ rest) (pf_loop fs pstate0 args)"
proof -
  let ?st = "pstate0\<lparr>p_state := 2, p_lj := l, p_lz := z\<rparr>"
  obtain d ds where d: "(if w = 0 then [] else show_radix False Dec w) @ map mod_char ms @ conv_char cv # fs = d # ds" "d \<notin> {37, 45, 48}"
    by (rule field_head)
  have "pf_loop (unparse1 (Field l z w ms cv) @ fs) pstate0 (a # args) = pf_loop (d # ds) ?st (a # args)"
    using pf_loop_flags [OF d(2), of l z ds "a # args"] by (simp flip: d(1))
  also have "\<dots> = pf_loop (map mod_char ms @ conv_char cv # fs) (?st\<lparr>p_wd := w\<rparr>) (a # args)"
    unfolding d(1) [symmetric] by (rule pf_loop_width) (use assms(2) in \<open>simp_all add: pstate0_def\<close>)
  also have "\<dots> = map_option (\<lambda>rest. justify l (z \<and> cv \<noteq> Convc \<and> cv \<noteq> Convs) w neg body @ rest) (pf_loop fs pstate0 args)"
    using pf_loop_after_width [OF _ _ _ _ assms(1), of "?st\<lparr>p_wd := w\<rparr>" ms fs args] by (simp add: pstate0_def)
  finally show ?thesis .
qed

lemma pf_loop_render:
  assumes "render ds args = Some out" and "list_all wf_directive ds"
  shows "pf_loop (unparse ds) pstate0 args = Some out"
  using assms
proof (induction ds args arbitrary: out rule: render.induct)
  case (4 l z w ms cv ds a args)
  then obtain neg body out' where m: "meaning cv a = Some (neg, body)" and r: "render ds args = Some out'"
    and out: "out = justify l (z \<and> cv \<noteq> Convc \<and> cv \<noteq> Convs) w neg body @ out'"
    by (auto split: Option.bind_splits)
  have "pf_loop (unparse ds) pstate0 args = Some out'" using "4.IH" [OF m refl r] "4.prems" by simp
  then show ?case using pf_loop_field [OF m, of w l z ms "unparse ds" args] "4.prems"(2) out by (simp add: unparse_def)
qed (auto simp: unparse_def pf_percent pf_char)

section \<open>Properties\<close>

text \<open>
  Property C9. Every format means what it says: for any sequence of plain characters, percent signs and fields with any
  combination of flags, width, modifiers and conversion, \<^verbatim>\<open>do_printf\<close> prints the rendering of the directives with
  their arguments taken in order.
\<close>

theorem printf_renders:
  assumes "render ds args = Some out" and "list_all wf_directive ds"
  shows "do_printf (unparse ds) args = Some out"
  using pf_loop_render [OF assms] by (simp add: do_printf_def)

theorem printf_renders_witness:
  "do_printf (str ''[%-05d|%08X]'') [Num (- 42), Num 0xBEEF] = Some (str ''[-42  |0000BEEF]'')"
proof -
  let ?ds = "[Lit 91, Field True True 5 [] Convd, Lit 124, Field False True 8 [] ConvX, Lit 93]"
  have n: "show_radix False Dec 5 = [53]" "show_radix False Dec 8 = [56]" "show_radix False Dec 42 = [52, 50]"
    by (simp_all add: digit_char_def show_radix.simps [of False Dec 5] show_radix.simps [of False Dec 8]
        show_radix.simps [of False Dec 42] show_radix.simps [of False Dec 4])
  have h: "show_radix True Hex 0xBEEF = [66, 69, 69, 70]"
    by (simp add: digit_char_def show_radix.simps [of True Hex "0xBEEF"] show_radix.simps [of True Hex "0xBEE"]
        show_radix.simps [of True Hex "0xBE"] show_radix.simps [of True Hex "0xB"])
  have r: "replicate 2 (32 :: u8) = [32, 32]" "replicate 4 (48 :: u8) = [48, 48, 48, 48]" by (simp_all add: eval_nat_numeral)
  have i: "sint (- 42 :: u32) = - 42" by simp
  have u: "unparse ?ds = str ''[%-05d|%08X]''" by (simp add: unparse_def n h str_def)
  have "render ?ds [Num (- 42), Num 0xBEEF] = Some (str ''[-42  |0000BEEF]'')"
    by (simp add: n h i r justify_def str_def Let_def)
  from printf_renders [OF this] show ?thesis by (simp add: u)
qed

end
