(* ===== verification/Board_Output.thy ===== *)
theory Board_Output
  imports Console Graphics Serial_Line Printf_Fields Arm_Start Arm_Memory
begin

text \<open>
  Output on a whole board: \<^verbatim>\<open>printf\<close> feeds the screen and, in a build with \<^verbatim>\<open>LOG_SERIAL\<close>, the serial
  line (\<^verbatim>\<open>src/kernel/printf.c\<close>); the banner of the serial line (\<^verbatim>\<open>init/common.c\<close>); and the start of the
  Integrator/CP with its line, display, clock and memory in one state (\<^verbatim>\<open>integrator-cp-early.c\<close>). The compile time
  switches are a record. Which \<^verbatim>\<open>serial_write\<close> and which screen a kernel has is decided when it is
  linked: both are arguments.
\<close>

section \<open>The front ends of the formatter\<close>

record build =
  enable_serial :: bool
  log_serial :: bool

definition vprintf_help :: "build \<Rightarrow> (u8 \<Rightarrow> 'd \<Rightarrow> 'd option) \<Rightarrow> (u8 \<Rightarrow> serial_line \<Rightarrow> serial_line option) \<Rightarrow>
    u8 \<Rightarrow> 'd \<times> serial_line \<Rightarrow> ('d \<times> serial_line) option" where
  "vprintf_help cfg putc serial_write c s = do {
     d \<leftarrow> putc c (fst s);
     l \<leftarrow> (if log_serial cfg \<and> enable_serial cfg then serial_write c (snd s) else Some (snd s));
     Some (d, l)
   }"

definition vprintf_at_help :: "(u8 \<Rightarrow> 'd \<Rightarrow> 'd option) \<Rightarrow> u8 \<Rightarrow> 'd \<Rightarrow> 'd option" where
  "vprintf_at_help putc c d = putc c d"

definition vprintf_serial_help :: "build \<Rightarrow> (u8 \<Rightarrow> serial_line \<Rightarrow> serial_line option) \<Rightarrow> u8 \<Rightarrow> serial_line \<Rightarrow> serial_line option" where
  "vprintf_serial_help cfg serial_write c l = (if enable_serial cfg then serial_write c l else Some l)"

text \<open>The formatter calls its helper for each byte; the helpers' own results are not used.\<close>

definition do_printf_to :: "(u8 \<Rightarrow> 's \<Rightarrow> 's option) \<Rightarrow> cstring \<Rightarrow> parg list \<Rightarrow> 's \<Rightarrow> (nat \<times> 's) option" where
  "do_printf_to fn fmt args s = do { out \<leftarrow> do_printf fmt args; s' \<leftarrow> foldM fn out s; Some (length out, s') }"

definition board_printf :: "build \<Rightarrow> (u8 \<Rightarrow> 'd \<Rightarrow> 'd option) \<Rightarrow> (u8 \<Rightarrow> serial_line \<Rightarrow> serial_line option) \<Rightarrow>
    cstring \<Rightarrow> parg list \<Rightarrow> 'd \<times> serial_line \<Rightarrow> (nat \<times> 'd \<times> serial_line) option" where
  "board_printf cfg putc serial_write fmt args s = do_printf_to (vprintf_help cfg putc serial_write) fmt args s"

definition vprintf_at :: "(u8 \<Rightarrow> 'd \<Rightarrow> 'd option) \<Rightarrow> cstring \<Rightarrow> parg list \<Rightarrow> 'd \<Rightarrow> (nat \<times> 'd) option" where
  "vprintf_at putc fmt args d = do_printf_to (vprintf_at_help putc) fmt args d"

definition vprintf_serial :: "build \<Rightarrow> (u8 \<Rightarrow> serial_line \<Rightarrow> serial_line option) \<Rightarrow> cstring \<Rightarrow> parg list \<Rightarrow> serial_line \<Rightarrow>
    (nat \<times> serial_line) option" where
  "vprintf_serial cfg serial_write fmt args l = do_printf_to (vprintf_serial_help cfg serial_write) fmt args l"

section \<open>The banner of the serial line\<close>

text \<open>The calls of \<^verbatim>\<open>serial_printf\<close>; the architecture and the date and time of the build are texts of the compiler.\<close>

definition serial_header_calls :: "cstring \<Rightarrow> cstring \<Rightarrow> cstring \<Rightarrow> cstring \<Rightarrow> cstring \<Rightarrow> (cstring \<times> parg list) list" where
  "serial_header_calls arch date time board revision =
     replicate 8 (str ''----------'', []) @ [([10], []),
      (str ''Beryllium2 Kernel Version %s-%s:%s %s'' @ [10], [Ptr (str ''0.0.0.5''), Ptr (str ''debug''), Ptr date, Ptr time]),
      (str ''Output Device: Serial'' @ [10], []),
      (str ''Architecture: %s (%s)'' @ [10], [Ptr arch, Ptr board]),
      (str ''Processor: %s'' @ [10], [Ptr revision])] @
     replicate 8 (str ''----------'', []) @ [([10], [])]"

definition serial_print_header :: "build \<Rightarrow> (u8 \<Rightarrow> serial_line \<Rightarrow> serial_line option) \<Rightarrow> cstring \<Rightarrow> cstring \<Rightarrow> cstring \<Rightarrow>
    cstring \<Rightarrow> cstring \<Rightarrow> serial_line \<Rightarrow> serial_line option" where
  "serial_print_header cfg serial_write arch date time board revision l =
     foldM (\<lambda>(fmt, args) l. map_option snd (vprintf_serial cfg serial_write fmt args l))
       (serial_header_calls arch date time board revision) l"

section \<open>What the front ends send\<close>








section \<open>Screen and line together\<close>

lemma board_printf_both:
  assumes "sends send f b m" and "live_line b m l" and "log_serial cfg" and "enable_serial cfg"
  shows "\<exists>l'. foldM (vprintf_help cfg (\<lambda>c s. Some (printc c s)) send) out (con, l) = Some (print out con, l') \<and>
    line_out l' = line_out l @ concat (map f out) \<and> live_line b m l'"
  using assms(2)
proof (induction out arbitrary: con l)
  case (Cons c out)
  obtain n where n: "send c l = Some (l\<lparr>status_reads := n, line_out := line_out l @ f c\<rparr>)"
    using assms(1) Cons.prems unfolding sends_def by blast
  let ?l = "l\<lparr>status_reads := n, line_out := line_out l @ f c\<rparr>"
  have "live_line b m ?l" using Cons.prems by (simp add: live_line_def)
  from Cons.IH [OF this, of "printc c con"] n assms(3,4) show ?case by (auto simp: vprintf_help_def print_def)
qed (simp add: print_def)

lemma board_printf_screen:
  assumes "\<not> (log_serial cfg \<and> enable_serial cfg)"
  shows "foldM (vprintf_help cfg (\<lambda>c s. Some (printc c s)) send) out (con, l) = Some (print out con, l)"
  using assms by (induction out arbitrary: con) (auto simp: vprintf_help_def print_def)

section \<open>The start of the Integrator/CP\<close>








text \<open>The Raspberry Pi prints through the same terminal, on a display that it never sets up.\<close>

definition rpi_start :: "(nat \<Rightarrow> u8) \<Rightarrow> build \<Rightarrow> cstring \<Rightarrow> cstring \<Rightarrow> cstring \<Rightarrow> display \<times> serial_line \<Rightarrow> 'a ktime_scheme \<times> rpi_memory \<Rightarrow>
    (bool \<times> (display \<times> serial_line) \<times> 'a ktime_scheme \<times> rpi_memory) option" where
  "rpi_start behind cfg arch date time out m = do {
     l \<leftarrow> serial_print_header cfg rpi_serial_write arch date time (str ''Raspberry Pi'') (str ''ARM7'') (rpi_serial_init (snd out));
     (n, out1) \<leftarrow> board_printf cfg (\<lambda>c s. Some (gprintc behind c s)) rpi_serial_write (str ''Beryllium%c Kernel Version %s-%s:%s %s'' @ [10])
       [Num 253, Ptr (str ''0.0.0.5''), Ptr (str ''debug''), Ptr date, Ptr time] (fst out, l);
     (ok, t) \<leftarrow> arm_raspberry_pi_early (fst m);
     (n, out2) \<leftarrow> board_printf cfg (\<lambda>c s. Some (gprintc behind c s)) rpi_serial_write (if ok then str ''[OK]'' @ [10] else str ''it didn'' @ [39] @ str ''t.'' @ [10]) [] out1;
     h \<leftarrow> (if ok then rpi_memory_init (snd m) else Some (snd m));
     Some (ok, out2, t, h)
   }"

section \<open>The SPARC port\<close>

text \<open>
  \<^verbatim>\<open>arch/sparc/init/sparc-early.c\<close>: the addresses of the firmware's tables are stored and a line is printed by the
  firmware; \<open>pv_printf\<close> is that service, on whatever state it has.
\<close>

record sparc =
  PromVec :: addr
  BootDir :: addr

definition sparc_early :: "(addr \<Rightarrow> cstring \<Rightarrow> 'f \<Rightarrow> 'f) \<Rightarrow> sparc \<times> 'f \<Rightarrow> sparc \<times> 'f" where
  "sparc_early pv_printf s = (fst s, pv_printf (PromVec (fst s)) (str ''*** Hello World ***'' @ [10]) (snd s))"

definition sparc_start :: "(addr \<Rightarrow> cstring \<Rightarrow> 'f \<Rightarrow> 'f) \<Rightarrow> addr \<Rightarrow> addr \<Rightarrow> sparc \<times> 'f \<Rightarrow> sparc \<times> 'f" where
  "sparc_start pv_printf P BD s = sparc_early pv_printf ((fst s)\<lparr>PromVec := P, BootDir := BD\<rparr>, snd s)"

section \<open>What a board with the graphics terminal prints\<close>







section \<open>The banner of the Integrator/CP\<close>







section \<open>Properties\<close>

text \<open>
  Property C11. \<^verbatim>\<open>printf\<close> on the PC: in a build that logs to the serial line the rendering of the format appears on the
  screen and leaves through COM1, byte for byte and in order, as long as the line is alive; on a dead line a \<^verbatim>\<open>printf\<close> that prints
  anything never returns; and without the switches only the screen is touched.
\<close>

theorem printf_screen_and_line:
  assumes "on_screen con" and "render ds args = Some out" and "list_all wf_directive ds"
  shows "(log_serial cfg \<and> enable_serial cfg \<longrightarrow>
      (live_line True 0x20 l \<longrightarrow>
        (\<exists>con' l'. board_printf cfg (\<lambda>c s. Some (printc c s)) com1_write (unparse ds) args (con, l) = Some (length out, con', l') \<and>
           on_screen con' \<and> tty_of con' = fold (tty_put (attributeByte con)) out (tty_of con) \<and>
           line_out l' = line_out l @ map (\<lambda>c. (COM1, ucast c)) out)) \<and>
      (dead_line True 0x20 l \<longrightarrow> out \<noteq> [] \<longrightarrow>
        board_printf cfg (\<lambda>c s. Some (printc c s)) com1_write (unparse ds) args (con, l) = None)) \<and>
    (\<not> (log_serial cfg \<and> enable_serial cfg) \<longrightarrow>
      (\<exists>con'. board_printf cfg (\<lambda>c s. Some (printc c s)) com1_write (unparse ds) args (con, l) = Some (length out, con', l) \<and>
         on_screen con' \<and> tty_of con' = fold (tty_put (attributeByte con)) out (tty_of con)))"
proof -
  have p: "do_printf (unparse ds) args = Some out" using pf_loop_render [OF assms(2,3)] by (simp add: do_printf_def)
  have c: "concat (map (\<lambda>c. [(COM1, ucast c)]) out) = map (\<lambda>c. (COM1, ucast c)) out" by (induction out) auto
  have dead: "foldM (vprintf_help cfg (\<lambda>c s. Some (printc c s)) com1_write) out (con, l) = None"
    if "dead_line True 0x20 l" "out \<noteq> []" "log_serial cfg" "enable_serial cfg"
    using that poll_dead [OF that(1)] by (cases out) (simp_all add: vprintf_help_def com1_write_def)
  note run = board_printf_both [OF sends_com1, of l cfg out con] board_printf_screen [of cfg com1_write out con l]
  show ?thesis
    using run dead p c print_frame(1) [OF assms(1)] print_refines [OF assms(1)]
    by (auto simp: board_printf_def do_printf_to_def)
qed

theorem printf_screen_and_line_witness:
  "\<exists>con' l'. board_printf \<lparr>enable_serial = True, log_serial = True\<rparr> (\<lambda>c s. Some (printc c s)) com1_write (str ''%d%%'') [Num 7]
     (console0, ready_line) = Some (2, con', l') \<and> line_out l' = [(0x3F8, 55), (0x3F8, 37)]"
proof -
  let ?ds = "[Field False False 0 [] Convd, Percent]"
  have seven: "show_radix False Dec 7 = [55]" by (simp add: digit_char_def show_radix.simps [of False Dec 7])
  have u: "unparse ?ds = str ''%d%%''" by (simp add: unparse_def str_def)
  have r: "render ?ds [Num 7] = Some [55, 37]" by (simp add: justify_def seven)
  have l: "live_line True 0x20 ready_line" by (auto simp: live_line_def ready_line_def)
  from printf_screen_and_line [OF console0_on_screen(1) r, of "\<lparr>enable_serial = True, log_serial = True\<rparr>" ready_line] l
  show ?thesis by (auto simp: u COM1_def ready_line_def)
qed



end
