(* ===== verification/Main_Loop.thy ===== *)
theory Main_Loop
  imports Boot Interleaving
begin

text \<open>
  The main loop of \<^verbatim>\<open>src/kernel/init/kmain.c\<close> on the running PC: \<^verbatim>\<open>wd_notify\<close> of \<^verbatim>\<open>wd.c\<close> statement by statement, with the
  increment of \<^verbatim>\<open>wd_kmain\<close> as the load and the store it is compiled to, and the interrupts of timer and keyboard between
  any two of them. The interrupts read the counter and never write it, so that the loop behaves as if every notification were
  one step, which is the view of \<open>Boot\<close> and \<open>Timing\<close>.
\<close>

section \<open>The statements of \<open>wd_notify\<close>\<close>

datatype wd_pc = WdEnabled | WdSource | WdLoad | WdStore

record 's wd_cpu =
  wd_vars :: 's
  wd_at :: wd_pc
  wd_reg :: u32

text \<open>The loop calls \<^verbatim>\<open>wd_notify\<close> with \<open>source\<close> again as soon as it has returned.\<close>

definition wd_next :: "u32 \<Rightarrow> 'a ktime_scheme wd_cpu \<Rightarrow> 'a ktime_scheme wd_cpu option" where
  "wd_next source c =
     (let s = wd_vars c
      in case wd_at c of
           WdEnabled \<Rightarrow> Some (c\<lparr>wd_at := (if \<not> wd_enabled s then WdEnabled else WdSource)\<rparr>)
         | WdSource \<Rightarrow> Some (c\<lparr>wd_at := (if source = WD_NOTIFY_KMAIN then WdLoad else WdEnabled)\<rparr>)
         | WdLoad \<Rightarrow> Some (c\<lparr>wd_reg := wd_kmain s, wd_at := WdStore\<rparr>)
         | WdStore \<Rightarrow> Some (c\<lparr>wd_vars := s\<lparr>wd_kmain := wd_reg c + 1\<rparr>, wd_at := WdEnabled\<rparr>))"

text \<open>The statements after which the call is over.\<close>

definition wd_returned :: "u32 \<Rightarrow> 'a ktime_scheme wd_cpu \<Rightarrow> unit list" where
  "wd_returned source c =
     (if wd_at c = WdStore \<or> wd_at c = WdSource \<and> source \<noteq> WD_NOTIFY_KMAIN \<or> wd_at c = WdEnabled \<and> \<not> wd_enabled (wd_vars c)
      then [()] else [])"

text \<open>An interrupt of the PC; a panic is an interrupt that never comes back.\<close>

definition pc_interrupt :: "(u8 \<Rightarrow> u8) \<Rightarrow> hw_event \<Rightarrow> machine wd_cpu \<Rightarrow> machine wd_cpu option" where
  "pc_interrupt oob e c = map_option (\<lambda>s. c\<lparr>wd_vars := s\<rparr>) (hw_step oob e (wd_vars c))"

definition kmain_run :: "(u8 \<Rightarrow> u8) \<Rightarrow> machine wd_cpu \<Rightarrow> (hw_event, unit) event list \<Rightarrow> machine wd_cpu \<Rightarrow> bool" where
  "kmain_run oob = irun (wd_next WD_NOTIFY_KMAIN) (pc_interrupt oob) (wd_returned WD_NOTIFY_KMAIN)"

section \<open>What an interrupt leaves alone\<close>

definition wd_same :: "'a ktime_scheme \<Rightarrow> 'a ktime_scheme \<Rightarrow> bool" where
  "wd_same s s' \<longleftrightarrow> wd_kmain s' = wd_kmain s \<and> wd_enabled s' = wd_enabled s"

lemma call_handler_wd: "call_handler h s = Some s' \<Longrightarrow> wd_same s s'"
  by (cases h) (auto simp: wd_same_def call_handler_def timing_reaper_def kmonitor_check_def wd_evaluate_def
      scheduler_update_def Let_def split: if_splits Option.bind_splits)

lemma cyclic_task_wd: "cyclic_task tick i s = Some s' \<Longrightarrow> wd_same s s'"
  by (auto simp: cyclic_task_def Let_def wd_same_def split: if_splits Option.bind_splits dest!: call_handler_wd)

lemma cyclic_tasks_wd: "cyclic_tasks t u = Some v \<Longrightarrow> wd_same u v"
  unfolding cyclic_tasks_def
  by (erule foldM_invariant) (auto simp: wd_same_def dest: cyclic_task_wd [unfolded wd_same_def])

lemma timer_recieveTick_wd: "timer_recieveTick d s = Some s' \<Longrightarrow> wd_same s s'"
  by (auto simp: timer_recieveTick_def Let_def wd_same_def dest!: cyclic_tasks_wd split: if_splits)

lemma hw_step_wd: "hw_step oob e s = Some s' \<Longrightarrow> wd_same s s'"
  by (auto simp: hw_step_def irq_handler_def call_irq_def kb_interrupt_def timer_handler_def outb_def Let_def wd_same_def
      dest!: timer_recieveTick_wd split: hw_event.splits option.splits irq_fn.splits if_splits Option.bind_splits)

section \<open>Notifications are atomic\<close>

definition wd_inside :: "'a ktime_scheme \<Rightarrow> 'a ktime_scheme wd_cpu \<Rightarrow> bool" where
  "wd_inside s c \<longleftrightarrow> wd_vars c = s \<and> (wd_at c \<noteq> WdEnabled \<longrightarrow> wd_enabled s) \<and> (wd_at c = WdStore \<longrightarrow> wd_reg c = wd_kmain s)"

lemma wd_inside_same: "wd_inside s c \<Longrightarrow> wd_same s s' \<Longrightarrow> wd_inside s' (c\<lparr>wd_vars := s'\<rparr>)"
  by (simp add: wd_inside_def wd_same_def)

interpretation kmain_loop: interruptible_prompt "wd_next WD_NOTIFY_KMAIN" "pc_interrupt oob" "wd_returned WD_NOTIFY_KMAIN" "\<lambda>_. []"
  "\<lambda>s. Some ((), wd_notify WD_NOTIFY_KMAIN s)" "hw_step oob" wd_inside for oob
proof
  fix s c c'
  assume "wd_inside s c" "wd_next WD_NOTIFY_KMAIN c = Some c'"
  then show "[] = wd_returned WD_NOTIFY_KMAIN c @ [] \<and> wd_inside s c' \<or>
      (\<exists>x s'. [] @ [x] = wd_returned WD_NOTIFY_KMAIN c @ [] \<and> Some ((), wd_notify WD_NOTIFY_KMAIN s) = Some (x, s') \<and> wd_inside s' c')"
    by (cases "wd_at c") (auto simp: wd_next_def wd_returned_def wd_inside_def wd_notify_def)
next
  fix s c k c'
  assume a: "wd_inside s c" "pc_interrupt oob k c = Some c'"
  then obtain s' where s': "hw_step oob k s = Some s'" "c' = c\<lparr>wd_vars := s'\<rparr>" by (auto simp: pc_interrupt_def wd_inside_def)
  show "[] = [] \<and> (\<exists>s'. hw_step oob k s = Some s' \<and> wd_inside s' c')"
    using s' wd_inside_same [OF a(1) hw_step_wd [OF s'(1)]] by simp
qed simp


section \<open>Runs as histories\<close>

text \<open>The events of a run in the terms of \<open>Boot\<close>.\<close>

fun event_of :: "idle_event \<Rightarrow> (hw_event, unit) event" where
  "event_of (Pressed c) = Intr (Key c)"
| "event_of Notified = Ret ()"

definition round_events :: "idle_event list list \<Rightarrow> (hw_event, unit) event list" where
  "round_events rounds = concat (map (\<lambda>es. map event_of es @ [Intr Clock]) rounds)"

abbreviation kmain_history :: "(u8 \<Rightarrow> u8) \<Rightarrow> (hw_event, unit) event list \<Rightarrow> machine \<Rightarrow> machine option" where
  "kmain_history oob \<equiv> history (\<lambda>s. Some ((), wd_notify WD_NOTIFY_KMAIN s)) (hw_step oob)"

lemma idle_history: "kmain_history oob (map event_of es) s = foldM (idle_step oob) es s"
proof (induction es arbitrary: s)
  case (Cons e es)
  then show ?case by (cases e) (auto simp: idle_step_def split: Option.bind_split)
qed simp

lemma rounds_history: "kmain_history oob (round_events rounds) s = foldM (tick_round oob) rounds s"
proof (induction rounds arbitrary: s)
  case (Cons es rounds)
  then show ?case
    by (auto simp: round_events_def history_append idle_history tick_round_def split: Option.bind_split)
qed (simp add: round_events_def)

text \<open>A history adds to the counter what it notifies, and nothing else changes it.\<close>

lemma kmain_history_counts:
  "kmain_history oob h s = Some s' \<Longrightarrow> wd_enabled s \<Longrightarrow> wd_kmain s' = wd_kmain s + of_nat (length (rets h)) \<and> wd_enabled s'"
proof (induction h arbitrary: s)
  case (Cons e h)
  show ?case
  proof (cases e)
    case (Intr k)
    then obtain u where u: "hw_step oob k s = Some u" "kmain_history oob h u = Some s'"
      using Cons.prems(1) by (auto split: Option.bind_splits)
    have "wd_kmain u = wd_kmain s" "wd_enabled u" using hw_step_wd [OF u(1)] Cons.prems(2) by (simp_all add: wd_same_def)
    with Cons.IH [OF u(2)] Intr show ?thesis by simp
  next
    case (Ret x)
    have "wd_enabled (wd_notify WD_NOTIFY_KMAIN s)" "wd_kmain (wd_notify WD_NOTIFY_KMAIN s) = wd_kmain s + 1"
      using Cons.prems(2) by (simp_all add: wd_notify_def)
    with Cons.IH [of "wd_notify WD_NOTIFY_KMAIN s"] Cons.prems(1) Ret show ?thesis by simp
  qed
qed simp

lemma length_rets_event_of: "length (rets (map event_of es)) = notifications es"
proof (induction es)
  case (Cons e es)
  then show ?case by (cases e) simp_all
qed simp

lemma length_rets_round_events: "length (rets (round_events rounds)) = notifications (concat rounds)"
  by (induction rounds) (simp_all add: round_events_def length_rets_event_of)

lemma kmain_run_counts:
  assumes "kmain_run oob c (round_events rounds @ map event_of rest) c'" and "wd_at c = WdEnabled" and "wd_enabled (wd_vars c)"
  shows "wd_kmain (wd_vars c') = wd_kmain (wd_vars c) + of_nat (notifications (concat rounds @ rest))"
proof -
  have "wd_inside (wd_vars c) c" using assms(2) by (simp add: wd_inside_def)
  from kmain_loop.in_order [OF assms(1) [unfolded kmain_run_def] this]
  have "kmain_history oob (round_events rounds @ map event_of rest) (wd_vars c) = Some (wd_vars c')"
    by (auto simp: wd_inside_def)
  from kmain_history_counts [OF this assms(3)] show ?thesis
    by (simp add: length_rets_event_of length_rets_round_events)
qed

lemma kmain_run_history:
  assumes "kmain_run oob c (round_events rounds @ map event_of rest) c'" and "wd_at c = WdEnabled"
  shows "\<exists>u. foldM (tick_round oob) rounds (wd_vars c) = Some u \<and> foldM (idle_step oob) rest u = Some (wd_vars c')"
proof -
  have "wd_inside (wd_vars c) c" using assms(2) by (simp add: wd_inside_def)
  from kmain_loop.in_order [OF assms(1) [unfolded kmain_run_def] this] show ?thesis
    by (auto simp: history_append rounds_history idle_history wd_inside_def split: Option.bind_splits)
qed

lemma kmain_run_notifies:
  assumes "wd_at w = WdEnabled" and "wd_enabled (wd_vars w)"
  shows "kmain_run oob w [Ret ()] (w\<lparr>wd_vars := wd_notify WD_NOTIFY_KMAIN (wd_vars w), wd_reg := wd_kmain (wd_vars w)\<rparr>)"
proof -
  let ?run = "irun (wd_next WD_NOTIFY_KMAIN) (pc_interrupt oob) (wd_returned WD_NOTIFY_KMAIN) w"
  note step = wd_next_def wd_returned_def Let_def
  have "?run [] (w\<lparr>wd_at := WdSource\<rparr>)"
    by (rule irun_silent [OF irun_start]) (use assms in \<open>simp_all add: step\<close>)
  then have "?run [] (w\<lparr>wd_at := WdLoad\<rparr>)"
    by (rule irun_silent) (simp_all add: step)
  then have "?run [] (w\<lparr>wd_at := WdStore, wd_reg := wd_kmain (wd_vars w)\<rparr>)"
    by (rule irun_silent) (simp_all add: step)
  then have "?run ([] @ map Ret [()])
      (w\<lparr>wd_vars := (wd_vars w)\<lparr>wd_kmain := wd_kmain (wd_vars w) + 1\<rparr>, wd_at := WdEnabled, wd_reg := wd_kmain (wd_vars w)\<rparr>)"
    by (rule irun_next) (simp_all add: step)
  moreover have "w\<lparr>wd_vars := (wd_vars w)\<lparr>wd_kmain := wd_kmain (wd_vars w) + 1\<rparr>, wd_at := WdEnabled, wd_reg := wd_kmain (wd_vars w)\<rparr> =
      w\<lparr>wd_vars := wd_notify WD_NOTIFY_KMAIN (wd_vars w), wd_reg := wd_kmain (wd_vars w)\<rparr>"
    using assms by (simp add: wd_notify_def)
  ultimately show ?thesis by (simp add: kmain_run_def)
qed

section \<open>Properties\<close>

text \<open>
  Property C6. The PC stays alive under every interleaving: from its start on, with interrupts of timer and keyboard between any
  two statements of the main loop, also inside the increment of the watchdog's counter, the counter has grown by exactly the
  number of notifications that have returned (modulo \<open>2\<^sup>3\<^sup>2\<close>), a key is always taken, a tick is taken without a panic
  whenever the loop has completed a notification since the last one, and the clock, the keyboard and the interrupt controller have
  seen each interrupt once and in order. The histories have fewer than \<open>2\<^sup>3\<^sup>1 - 201\<close> ticks (ticks are compared as signed
  numbers) and, between two ticks, at least one notification (\<open>lively\<close>: a silent stretch is a hang-up to the watchdog, and enough of
  them a panic) and at most \<open>2\<^sup>2\<^sup>7\<close>, so that the counter cannot come round between two evaluations. The ports are those of the
  interrupt controller; log output, which a build with \<^verbatim>\<open>ENABLE_SERIAL\<close> also writes to the serial line, is not modelled.
\<close>

theorem pc_survives_interleaving:
  assumes "power_on m" and "statics_ok st ds" and "boot isr irq st (ds, m) = Some (ds', m')"
    and "kmain_run oob \<lparr>wd_vars = m', wd_at = WdEnabled, wd_reg = r\<rparr> (round_events rounds @ map event_of rest) w"
    and "lively rounds" and "length rounds + 201 < 2 ^ 31"
  shows "timer_hi (wd_vars w) = of_nat (length rounds) \<and>
    wd_kmain (wd_vars w) = wd_kmain m' + of_nat (notifications (concat rounds @ rest)) \<and>
    m_kb (wd_vars w) = fold (kb_handler oob) (pressed (concat rounds @ rest)) (m_kb m') \<and>
    m_out (wd_vars w) = m_out m' @ replicate (length rounds + length (pressed (concat rounds @ rest))) (0x20, 0x20) \<and>
    pc_interrupt oob (Key k) w \<noteq> None \<and> (lively [rest] \<longrightarrow> pc_interrupt oob Clock w \<noteq> None)"
proof -
  have m': "running 0 0 m'" using boot_ok [OF assms(1,2), of isr irq] assms(3) by auto
  obtain u where u: "foldM (tick_round oob) rounds m' = Some u" "foldM (idle_step oob) rest u = Some (wd_vars w)"
    using kmain_run_history [OF assms(4)] by auto
  have "\<exists>s' k'. foldM (tick_round oob) rounds m' = Some s' \<and> running (0 + length rounds) k' s' \<and>
      m_kb s' = fold (kb_handler oob) (pressed (concat rounds)) (m_kb m') \<and>
      m_out s' = m_out m' @ replicate (length rounds + length (pressed (concat rounds))) (0x20, 0x20)"
    by (rule rounds_running [OF m' _ assms(5)]) (use assms(6) in simp_all)
  then obtain k' where k': "running (length rounds) k' u" "m_kb u = fold (kb_handler oob) (pressed (concat rounds)) (m_kb m')"
    "m_out u = m_out m' @ replicate (length rounds + length (pressed (concat rounds))) (0x20, 0x20)"
    using u(1) by auto
  have w: "running (length rounds) (k' + notifications rest) (wd_vars w)" "m_kb (wd_vars w) = fold (kb_handler oob) (pressed rest) (m_kb u)"
    "m_out (wd_vars w) = m_out u @ replicate (length (pressed rest)) (0x20, 0x20)"
    using idle_running [OF k'(1), of oob rest] u(2) by auto
  have p: "pressed (concat rounds @ rest) = pressed (concat rounds) @ pressed rest" by (simp add: pressed_def)
  have "pc_interrupt oob Clock w \<noteq> None" if "lively [rest]"
  proof -
    have "lively (rounds @ [rest])" using that assms(5) by (auto simp: lively_def)
    then obtain s where "foldM (tick_round oob) (rounds @ [rest]) m' = Some s"
      using rounds_running [OF m', of "rounds @ [rest]" oob] assms(6) by auto
    then show ?thesis using u by (auto simp: foldM_append tick_round_def pc_interrupt_def split: Option.bind_splits)
  qed
  moreover have "pc_interrupt oob (Key k) w \<noteq> None" using key_running [OF w(1)] by (auto simp: pc_interrupt_def)
  moreover have "timer_hi (wd_vars w) = of_nat (length rounds)" using w(1) by (simp add: running_def booted_def)
  moreover have "wd_kmain (wd_vars w) = wd_kmain m' + of_nat (notifications (concat rounds @ rest))"
    using kmain_run_counts [OF assms(4)] m' by (simp add: running_def)
  ultimately show ?thesis using k'(2,3) w(2,3) by (simp add: p replicate_add [symmetric] add.assoc)
qed


theorem pc_survives_interleaving_witness:
  "\<exists>ds' m' w w'. boot (\<lambda>n. 0x1000) (\<lambda>n. 0x2000)
      \<lparr>kb_name = 1, kb_driver = 2, kb_device = 3, pit_name = 4, pit_driver = 5, pit_device = 6\<rparr>
      ((\<lambda>_. Some \<lparr>d_name = 0, d_id = 0, d_type = 0, d_flags = 0, d_permissions = 0, d_interface = 0, d_status = 0,
         d_mutex = 0, d_driver = 0\<rparr>), machine0) = Some (ds', m') \<and>
     kmain_run (\<lambda>_. 0) \<lparr>wd_vars = m', wd_at = WdEnabled, wd_reg = 0\<rparr> [Ret ()] w \<and>
     pc_interrupt (\<lambda>_. 0) Clock w = Some w'"
proof -
  define st where "st = \<lparr>kb_name = 1, kb_driver = 2, kb_device = 3, pit_name = 4, pit_driver = 5, pit_device = (6 :: addr)\<rparr>"
  define ds where "ds = (\<lambda>_ :: addr. Some \<lparr>d_name = 0, d_id = 0, d_type = 0, d_flags = 0, d_permissions = 0, d_interface = 0,
    d_status = 0, d_mutex = 0, d_driver = 0\<rparr>)"
  have m: "power_on machine0"
    by (simp add: power_on_def machine0_def) (simp add: ktime.defs ktime0_def)
  have st: "statics_ok st ds" by (simp add: statics_ok_def st_def ds_def)
  obtain ds' m' where b: "boot (\<lambda>n. 0x1000) (\<lambda>n. 0x2000) st (ds, machine0) = Some (ds', m')" "running 0 0 m'"
    using boot_ok [OF m st] by blast
  obtain w where w: "kmain_run (\<lambda>_. 0) \<lparr>wd_vars = m', wd_at = WdEnabled, wd_reg = 0\<rparr> [Ret ()] w"
    using kmain_run_notifies [of "\<lparr>wd_vars = m', wd_at = WdEnabled, wd_reg = 0\<rparr>"] b(2) by (auto simp: running_def)
  have "lively []" "lively [[Notified]]" by (simp_all add: lively_def)
  then have "pc_interrupt (\<lambda>_. 0) Clock w \<noteq> None"
    using pc_survives_interleaving [OF m st b(1), where rounds = "[]" and rest = "[Notified]"] w by (simp add: round_events_def)
  with b(1) w show ?thesis unfolding st_def ds_def by blast
qed

end
