(* ===== verification/Spec2Isabelle.thy ===== *)
theory Spec2Isabelle
  imports Pc_Start X86_Heap Mman Console Ordered_Array Arm_Start Graphics Serial_Line Pc_Devices Device_Listing Fault_Report
    Vfs_Listing Keyboard_Interrupts Board_Output Main_Loop
begin

text \<open>
  A verification library for the Beryllium kernel (\<^verbatim>\<open>src/kernel\<close>) and the tool that builds its ramdisk
  (\<^verbatim>\<open>src/util/build-initrd.c\<close>). This theory only joins the others; each of them states its properties beside its model.

  \<^bold>\<open>The program and its models.\<close> The kernel is C for three boards. Its common part runs on a heap (\<^verbatim>\<open>malloc.c\<close>) over a page
  provider of the board, and is driven by the interrupts of a timer and a keyboard while the main loop only notifies the watchdog.
  \<^item> \<open>Beryllium_Prelude\<close>: machine types, 32 bit wrap-around on naturals, and lemmas on linked chains and loops that all share.
  \<^item> \<open>C_String\<close> (\<^verbatim>\<open>lib/string.c\<close>), \<open>Printf\<close> and \<open>Printf_Fields\<close> (\<^verbatim>\<open>printf.c\<close>), \<open>Lock\<close> (\<^verbatim>\<open>lib/lock.c\<close>): the C library.
  \<^item> \<open>Arm_Memory\<close>, \<open>Page_Allocator\<close>, \<open>X86_Memory\<close> (\<^verbatim>\<open>arch/arm/*/memory.c\<close>, \<^verbatim>\<open>arch/x86/page_allocator.c\<close>, \<^verbatim>\<open>paging.c\<close>,
    \<^verbatim>\<open>memory.c\<close>): page providers. \<open>Malloc\<close> (\<^verbatim>\<open>malloc.c\<close>, \<^verbatim>\<open>strdup\<close>): the heap. \<open>X86_Heap\<close> puts the heap on the
    pages of the PC. \<open>Mman\<close> (\<^verbatim>\<open>arch/x86/mman.c\<close>): the region manager.
  \<^item> \<open>Allocator\<close> is the contract of a heap; \<open>Linked_List\<close>, \<open>Kernel_Tree\<close> (\<^verbatim>\<open>lib/list.c\<close>, \<^verbatim>\<open>lib/tree.c\<close>) are its
    clients, \<open>Device_Manager\<close> and \<open>Device_Listing\<close> (\<^verbatim>\<open>device.c\<close>, \<^verbatim>\<open>driver.c\<close>) theirs. \<open>Ordered_Array\<close>
    (\<^verbatim>\<open>arch/x86/lib/ordered_array.c\<close>) is a container of its own.
  \<^item> \<open>Vfs_Path\<close>, \<open>Vfs\<close>, \<open>Vfs_Listing\<close> (\<^verbatim>\<open>vfs.c\<close>, \<^verbatim>\<open>fs/*.c\<close>) and \<open>Initrd\<close> (\<^verbatim>\<open>fs/initrd.c\<close> and the tool): files.
  \<^item> \<open>Scheduler\<close> (\<^verbatim>\<open>scheduler.c\<close>, \<^verbatim>\<open>thread.c\<close>), \<open>Timing\<close> (\<^verbatim>\<open>timer.c\<close>, \<^verbatim>\<open>timing.c\<close>, \<^verbatim>\<open>wd.c\<close>,
    \<^verbatim>\<open>kmonitor.c\<close>): time; the scheduler is one of the timed tasks.
  \<^item> \<open>Keyboard\<close> (\<^verbatim>\<open>drivers/keyboard.c\<close>, \<^verbatim>\<open>input.c\<close>), \<open>Console\<close> (\<^verbatim>\<open>terminal.c\<close>, \<^verbatim>\<open>video.c\<close>, \<^verbatim>\<open>textmode.c\<close>,
    \<^verbatim>\<open>vterm.c\<close>, \<^verbatim>\<open>klog.c\<close>), \<open>Serial_Line\<close>, \<open>Graphics\<close> (\<^verbatim>\<open>gterminal.c\<close>, \<^verbatim>\<open>qemu-PL110.c\<close>,
    \<^verbatim>\<open>framebuffer.c\<close>), \<open>Pc_Devices\<close> (\<^verbatim>\<open>bga.c\<close>, \<^verbatim>\<open>sysinfo.c\<close>, \<^verbatim>\<open>modules.c\<close>): devices.
  \<^item> \<open>Interrupts\<close> (\<^verbatim>\<open>arch/x86/low/*.c\<close>, \<^verbatim>\<open>pit.c\<close>) joins time and keyboard to the hardware of the PC, \<open>Boot\<close>
    (\<^verbatim>\<open>x86-early.c\<close>, \<^verbatim>\<open>kmain.c\<close>) starts it and runs it; \<open>Pc_Start\<close> is the start with everything it sets up:
    the structures of the boot loader, the ramdisk, page tables, heap, drivers. \<open>Fault_Report\<close> (\<^verbatim>\<open>error.c\<close>, \<^verbatim>\<open>isr.c\<close>) is how it stops.
    \<open>Arm_Board\<close> (\<^verbatim>\<open>arm4-xrq.c\<close>, \<^verbatim>\<open>drivers/timer.c\<close>) and \<open>Arm_Start\<close> are the same for the ARM boards.
    \<open>Board_Output\<close> is their output, with the switches of the build: \<^verbatim>\<open>printf\<close> on the screen and on the line, the banner
    (\<^verbatim>\<open>init/common.c\<close>), the whole start of the Integrator board into the kernel, the Raspberry Pi and the SPARC port.
  \<^item> \<open>Interleaving\<close> is the theory of statements under interrupts; \<open>Keyboard_Interrupts\<close> applies it to \<^verbatim>\<open>kb_read\<close> and
    \<open>Main_Loop\<close> to \<^verbatim>\<open>wd_notify\<close> in the loop of \<^verbatim>\<open>kmain\<close>. They justify the views of \<open>Keyboard\<close>, \<open>Timing\<close> and \<open>Boot\<close>, where
    an interrupt comes between whole operations.

  \<^bold>\<open>Conventions.\<close> A C struct is a record, a pointer a natural number with \<open>0\<close> as null, shared objects live in stores (maps from
  addresses), and a call that returns is \<open>Some\<close>; \<open>None\<close> is a call that never comes back: a null or wild dereference, a panic, a halt, an
  endless loop. Loops that may not end are partial functions, so that "it returns" is part of what is proved. Words are words
  where wrap-around matters, or naturals under \<open>w32\<close>. What a device gives on a read, the interrupts that arrive and what
  memory holds before it is initialised are arguments. Output ports are lists of writes in order.

  \<^bold>\<open>Interfaces.\<close> \<open>sbrk_provider\<close> (laws of \<^verbatim>\<open>sbrk\<close>, interpreted for both ARM boards and for the PC up to the end of its
  first page table) yields \<open>allocator\<close>, whose clients are lists, trees and devices; \<open>slot_set\<close> is the frame bitmap,
  \<open>mount_table\<close> the mount tree, \<open>comparison\<close> the order of an array, \<open>interruptible\<close> a routine whose calls are atomic under interrupts. Each lemma of a client is proved once inside its locale and
  reaches the properties through the interpretation on the model of the code.

  \<^bold>\<open>What is shown.\<close> Memory: live blocks are disjoint and keep their bytes, \<open>malloc\<close> is first fit with splitting, \<open>free\<close>
  coalesces, and on the PC every block lies in identity mapped memory behind the kernel and its ramdisk. These theorems are about runs whose requests end
  below \<open>2\<^sup>3\<^sup>2\<close>, and on the PC below four megabytes, and that never resize a block to zero: each of the three limits has
  a theorem that shows what happens behind it (\<open>malloc_size_wraps\<close>, \<open>x86_table_on_heap\<close>, where the second page table is put on the first page of the
  heap, and for the third the property about \<^verbatim>\<open>realloc(p, 0)\<close> in \<open>Malloc\<close>). Containers
  refine lists, trees and sorted lists. Files: mounted nodes are opened by every path that means them; what the tool writes the kernel reads back, also through the
  whole start of the PC. Time: timers fire exactly on their multiples, threads get their turn, a live main loop is never stopped
  by the watchdog, for histories of fewer than \<open>2\<^sup>3\<^sup>1 - 200\<close> ticks (the comparison of ticks is signed). Devices:
  the terminal refines an abstract screen, \<^verbatim>\<open>printf\<close> shows what its directives mean, characters typed are characters read wherever
  the interrupts come, a serial line sends every byte once. Errors: every error return of mounting, the report of
  every exception, the states a device goes through with its driver, and a number of behaviours that are defects of the code, each as a theorem about the model.

  \<^bold>\<open>Bounds.\<close> There is no fuel: loops are structural, have a measure, or are partial functions. The heap theorems ask that the break plus the request
  and one page stay below the limit of the provider: \<open>2\<^sup>3\<^sup>2\<close>, or \<open>0x400000\<close> on the PC, where the first page table
  ends. The start of the PC is shown for a ramdisk that ends at or below two megabytes: bitmap, directory and table (\<open>0x1E4004\<close> bytes with their alignment)
  then fit below the end of the table and leave about a hundred kilobytes to the heap. The wait for the ARM timer has \<open>2\<^sup>2\<^sup>4\<close> rounds.

  \<^bold>\<open>Not modelled.\<close> Assembly (entry code, interrupt stubs, context switch, the variant in \<^verbatim>\<open>arch/x86asm\<close>); the firmware of the SPARC board; files without code (\<^verbatim>\<open>process.c\<close>, \<^verbatim>\<open>task.c\<close>, \<^verbatim>\<open>usermode.c\<close>, \<^verbatim>\<open>mailbox.c\<close>);
  headers that declare data of others (\<^verbatim>\<open>elf.h\<close>, \<^verbatim>\<open>bsd_openprom.h\<close>, most of \<^verbatim>\<open>multiboot.h\<close>); log output inside
  operations, except where the output is the operation. So the port writes of \<open>Interrupts\<close>, \<open>Boot\<close> and \<open>Main_Loop\<close> are those to the
  controllers: the messages of the watchdog and of a full keyboard buffer, which a build with \<^verbatim>\<open>ENABLE_SERIAL\<close> sends through
  COM1, are not among them. \<^verbatim>\<open>arch/arm/rpi/mman.c\<close> is the same file as that of the PC. An interrupt handler
  runs as a whole, as the gates of the PC make it. The bytes
  behind the font are an argument: the banner of the ARM boards has a character that is drawn from there, and what is shown of their
  start holds for all such bytes. The byte behind the keyboard's buffer, which a read copies into the buffer, is zero where the keyboard is read under
  interrupts.
\<close>

end
